(* ===== verification/Pandio_Prelude.thy ===== *)
theory Pandio_Prelude
  imports Main "HOL-Library.Word" "HOL-Library.Multiset"
begin

text \<open>
  Shared vocabulary of the development.
  \<^item> \<open>fault\<close> and \<open>res\<close>: the ways a C function can fail to return normally, and the result
    type of every modelled function that could; \<open>bind_res\<close> sequences such functions and
    \<open>deref\<close> is the access through a pointer that may be \<open>NULL\<close>.
  \<^item> \<open>pos xs i\<close>: the element of a list at a position counted from 1, \<open>None\<close> outside the list.
    The intrusive queue and the intrusive heap both describe their pointer fields with it
    (a \<open>NULL\<close> pointer is a position outside the list).
  \<^item> \<open>swap_at\<close>: exchanging the elements at two positions.
  \<^item> the width of the C integer types of the supported (LP64) platforms.
\<close>

named_theorems heap_fields \<open>what an assignment to one field of a struct does to every field\<close>

type_synonym uint32 = "32 word"
type_synonym uint64 = "64 word"
type_synonym size_t = "64 word"

subsection \<open>Abnormal termination\<close>

text \<open>
  \<open>Null_deref\<close> is an access through a \<open>NULL\<close> pointer, \<open>Assert_failed\<close> a failing
  \<open>assert\<close>, \<open>Exited\<close> a call of \<open>abort\<close> or \<open>exit\<close>, \<open>Diverged\<close> a loop that never ends, \<open>Bad_memory\<close> an
  access to memory that is not allocated, or the release of it.
\<close>

datatype fault = Null_deref | Assert_failed | Exited | Diverged | Bad_memory

type_synonym 'a res = "fault + 'a"

fun bind_res :: "'a res \<Rightarrow> ('a \<Rightarrow> 'b res) \<Rightarrow> 'b res" where
  "bind_res (Inl e) f = Inl e"
| "bind_res (Inr x) f = f x"

definition deref :: "'a option \<Rightarrow> 'a res" where
  "deref p = (case p of None \<Rightarrow> Inl Null_deref | Some a \<Rightarrow> Inr a)"

definition loop_res :: "'a option \<Rightarrow> 'a res" where
  "loop_res r = (case r of None \<Rightarrow> Inl Diverged | Some x \<Rightarrow> Inr x)"

lemma deref_simps [simp]: "deref (Some a) = Inr a" "deref None = Inl Null_deref"
  by (simp_all add: deref_def)

lemma loop_res_simps [simp]: "loop_res (Some x) = Inr x" "loop_res None = Inl Diverged"
  by (simp_all add: loop_res_def)

lemma bind_res_eq_Inr:
  "bind_res r f = Inr y \<longleftrightarrow> (\<exists>x. r = Inr x \<and> f x = Inr y)"
  by (cases r) auto

lemma bind_res_assoc: "bind_res (bind_res r f) g = bind_res r (\<lambda>x. bind_res (f x) g)"
  by (cases r) auto

lemma bind_res_cong [fundef_cong]:
  "r = r' \<Longrightarrow> (\<And>x. r' = Inr x \<Longrightarrow> f x = g x) \<Longrightarrow> bind_res r f = bind_res r' g"
  by (cases r') auto

subsection \<open>Positions in a list, counted from 1\<close>

definition pos :: "'a list \<Rightarrow> nat \<Rightarrow> 'a option" where
  "pos xs i = (if 1 \<le> i \<and> i \<le> length xs then Some (xs ! (i - 1)) else None)"

lemma pos_0 [simp]: "pos xs 0 = None"
  by (simp add: pos_def)

lemma pos_Nil [simp]: "pos [] i = None"
  by (simp add: pos_def)

lemma pos_None_iff: "pos xs i = None \<longleftrightarrow> i = 0 \<or> length xs < i"
  by (auto simp: pos_def)

lemma pos_beyond [simp]: "length xs < i \<Longrightarrow> pos xs i = None"
  by (simp add: pos_def)

lemma pos_Some_iff: "pos xs i = Some x \<longleftrightarrow> 1 \<le> i \<and> i \<le> length xs \<and> xs ! (i - 1) = x"
  by (auto simp: pos_def)

lemma pos_SomeD: "pos xs i = Some x \<Longrightarrow> 1 \<le> i \<and> i \<le> length xs \<and> x \<in> set xs"
  by (auto simp: pos_def split: if_splits)

lemma pos_in_range: "1 \<le> i \<Longrightarrow> i \<le> length xs \<Longrightarrow> \<exists>x. pos xs i = Some x"
  by (simp add: pos_def)

lemma in_set_pos: "x \<in> set xs \<longleftrightarrow> (\<exists>i. pos xs i = Some x)"
proof
  assume "x \<in> set xs"
  then obtain i where "i < length xs" and "xs ! i = x"
    by (auto simp: in_set_conv_nth)
  then have "pos xs (Suc i) = Some x" by (simp add: pos_def)
  then show "\<exists>i. pos xs i = Some x" ..
qed (auto simp: pos_def split: if_splits)

lemma pos_inj: "distinct xs \<Longrightarrow> pos xs i = Some x \<Longrightarrow> pos xs j = Some x \<Longrightarrow> i = j"
  by (auto simp: pos_Some_iff nth_eq_iff_index_eq)

lemma pos_eq_iff:
  "distinct xs \<Longrightarrow> pos xs i = Some x \<Longrightarrow> pos xs j = Some x \<longleftrightarrow> i = j"
  by (auto dest: pos_inj)

lemma pos_ext:
  assumes eq: "\<And>i. pos xs i = pos ys i"
  shows "xs = ys"
proof (rule nth_equalityI)
  show len: "length xs = length ys"
  proof (rule ccontr)
    assume "length xs \<noteq> length ys"
    then consider "length xs < length ys" | "length ys < length xs" by linarith
    then show False
      using eq [of "Suc (length xs)"] eq [of "Suc (length ys)"]
      by cases (simp_all add: pos_def Suc_le_eq split: if_splits)
  qed
  fix i assume "i < length xs"
  then show "xs ! i = ys ! i" using eq [of "Suc i"] len by (simp add: pos_def)
qed

lemma pos_snoc: "pos (xs @ [x]) i = (if i = length xs + 1 then Some x else pos xs i)"
  by (auto simp: pos_def nth_append)

lemma pos_Cons: "pos (x # xs) i = (if i = 1 then Some x else pos xs (i - 1))"
  by (cases i; cases "i - 1") (auto simp: pos_def)

lemma pos_butlast: "pos (butlast xs) i = (if i = length xs then None else pos xs i)"
  by (auto simp: pos_def nth_butlast)

lemma pos_update: "pos (xs[j - 1 := y]) i =
    (if i = j \<and> 1 \<le> j \<and> j \<le> length xs then Some y else pos xs i)" if "1 \<le> j"
  using that by (auto simp: pos_def nth_list_update)

lemma pos_last: "xs \<noteq> [] \<Longrightarrow> pos xs (length xs) = Some (last xs)"
  by (simp add: pos_def last_conv_nth Suc_le_eq)

lemma pos_1_hd: "xs \<noteq> [] \<Longrightarrow> pos xs (Suc 0) = Some (hd xs)"
  by (simp add: pos_def hd_conv_nth Suc_le_eq)

definition swap_at :: "'a list \<Rightarrow> nat \<Rightarrow> nat \<Rightarrow> 'a list" where
  "swap_at xs i j = xs[i - 1 := xs ! (j - 1), j - 1 := xs ! (i - 1)]"

lemma length_swap_at [simp]: "length (swap_at xs i j) = length xs"
  by (simp add: swap_at_def)

lemma pos_swap_at:
  assumes "1 \<le> i" "i \<le> length xs" "1 \<le> j" "j \<le> length xs"
  shows "pos (swap_at xs i j) k =
    (if k = i then pos xs j else if k = j then pos xs i else pos xs k)"
  using assms by (auto simp: pos_def swap_at_def nth_list_update)

lemma mset_swap_at:
  assumes "1 \<le> i" "i \<le> length xs" "1 \<le> j" "j \<le> length xs"
  shows "mset (swap_at xs i j) = mset xs"
  using assms unfolding swap_at_def by (intro mset_swap) auto

lemma set_swap_at [simp]:
  assumes "1 \<le> i" "i \<le> length xs" "1 \<le> j" "j \<le> length xs"
  shows "set (swap_at xs i j) = set xs"
  using mset_swap_at [OF assms] by (metis set_mset_mset)

lemma distinct_swap_at [simp]:
  assumes "1 \<le> i" "i \<le> length xs" "1 \<le> j" "j \<le> length xs"
  shows "distinct (swap_at xs i j) = distinct xs"
  using mset_swap_at [OF assms] by (metis mset_eq_imp_distinct_iff)

subsection \<open>Bits of 32-bit words\<close>

unbundle bit_operations_syntax

lemma unat_and_1: "unat (n AND (1::32 word)) = unat n mod 2"
  by (simp add: and_one_eq unat_mod)

lemma unat_push_1: assumes "unat (m::32 word) < 2 ^ 31" shows "unat (push_bit 1 m) = 2 * unat m"
  using assms by (simp add: unat_word_ariths)

lemma unat_shift_in_bit: assumes "unat (m::32 word) < 2 ^ 31"
  shows "unat (push_bit 1 m OR (n AND 1)) = 2 * unat m + unat n mod 2"
proof -
  have "push_bit 1 m OR (n AND 1) = push_bit 1 m + (n AND 1)"
  proof (rule disjunctive_add [symmetric])
    fix k show "\<not> bit (push_bit 1 m) k \<or> \<not> bit (n AND 1) k"
      by (cases k) (simp_all add: bit_push_bit_iff bit_and_iff bit_1_iff del: push_bit_of_1 push_bit_Suc push_bit_numeral One_nat_def)
  qed
  moreover have "unat (push_bit 1 m + (n AND 1)) = unat (push_bit 1 m) + unat (n AND 1)"
    using assms by (simp only: unat_word_ariths(1) unat_and_1 unat_push_1) simp
  ultimately show ?thesis using assms by (simp only: unat_and_1 unat_push_1)
qed

lemma and_1_zero: "n AND (1::32 word) \<noteq> 0 \<longleftrightarrow> odd (unat n)"
proof -
  have "n AND 1 = 0 \<longleftrightarrow> unat (n AND 1) = 0" by (simp only: unat_eq_zero)
  then show ?thesis by (simp only: unat_and_1) (simp add: odd_iff_mod_2_eq_one)
qed

lemma unat_drop_1: "unat (drop_bit 1 (n::32 word)) = unat n div 2"
  by (simp add: drop_bit_eq_div unat_div)

lemmas unat_drop_Suc_0 [simp] = unat_drop_1 [unfolded One_nat_def]

subsection \<open>Counting and summing over a function that changes at one point\<close>

lemma card_fun_upd:
  assumes "finite {k. P (f k)}"
  shows "card {k. P ((f(i := p)) k)} + (if P (f i) then 1 else 0) = card {k. P (f k)} + (if P p then 1 else 0)"
proof -
  have eq: "{k. P ((f(i := p)) k)} = (if P p then insert i ({k. P (f k)} - {i}) else {k. P (f k)} - {i})"
    by auto
  show ?thesis
  proof (cases "P (f i)")
    case True
    then have "0 < card {k. P (f k)}" using assms by (auto simp: card_gt_0_iff)
    with True eq assms show ?thesis by (simp add: card_Diff_singleton insert_absorb)
  next
    case False
    then have "{k. P (f k)} - {i} = {k. P (f k)}" by auto
    with False eq assms show ?thesis by simp
  qed
qed

lemma finite_fun_upd: "finite {k. P (f k)} \<Longrightarrow> finite {k. P ((f(i := p)) k)}"
  by (rule finite_subset [of _ "insert i {k. P (f k)}"]) auto

text \<open>The sum of a weight over all points where it is not 0.\<close>

definition sum_at :: "('b \<Rightarrow> nat) \<Rightarrow> nat" where
  "sum_at f = sum f {k. f k \<noteq> 0}"

lemma sum_at_superset: "finite A \<Longrightarrow> {k. f k \<noteq> 0} \<subseteq> A \<Longrightarrow> sum_at f = sum f A"
  unfolding sum_at_def by (rule sum.mono_neutral_left) auto

lemma sum_at_upd:
  assumes "finite {k. f k \<noteq> 0}" "\<And>k. k \<noteq> i \<Longrightarrow> g k = f k"
  shows "sum_at g + f i = sum_at f + g i"
proof -
  let ?A = "insert i {k. f k \<noteq> 0}"
  have "{k. g k \<noteq> 0} \<subseteq> ?A" using assms(2) by fastforce
  then have "sum_at g = sum g ?A" using assms(1) by (intro sum_at_superset) auto
  moreover have "sum_at f = sum f ?A" using assms(1) by (intro sum_at_superset) auto
  moreover have "sum g (?A - {i}) = sum f (?A - {i})" using assms(2) by (intro sum.cong) auto
  ultimately show ?thesis
    using assms(1) sum.remove [of ?A i g] sum.remove [of ?A i f] by simp
qed

end
