(* ===== verification/Intrusive_Queue.thy ===== *)
theory Intrusive_Queue
  imports Pandio_Prelude
begin

text \<open>
  The intrusive doubly linked queue of \<^verbatim>\<open>include/pandio/queue.h\<close>, at the level of its pointers.
  A node is embedded in a client structure and is known by its address, a value of type \<open>'a\<close>;
  the memory that holds the nodes is a function from addresses to \<open>queue_node\<close> records, and
  \<open>NULL\<close> is \<open>None\<close>. \<open>queue_rep q mem xs\<close> says that the structure \<open>q\<close> over the memory \<open>mem\<close>
  holds exactly the nodes \<open>xs\<close>, in this order, correctly linked in both directions. The
  operations are shown to implement a first-in first-out list (locale \<open>fifo\<close>, interpreted on
  them), to touch no node of another queue, and never to follow a \<open>NULL\<close> pointer.
\<close>

section \<open>The structures and the operations\<close>

record 'a queue_node =
  qnext :: "'a option"
  qprev :: "'a option"

record 'a queue =
  q_head :: "'a option"
  q_tail :: "'a option"

type_synonym 'a queue_mem = "'a \<Rightarrow> 'a queue_node"

definition queue_empty :: "'a queue \<Rightarrow> bool" where
  "queue_empty q \<longleftrightarrow> q_head q = None \<and> q_tail q = None"

definition queue_init :: "'a queue \<Rightarrow> 'a queue" where
  "queue_init q = q\<lparr>q_head := None, q_tail := None\<rparr>"

definition queue_init_node :: "'a queue_mem \<Rightarrow> 'a \<Rightarrow> 'a queue_mem" where
  "queue_init_node mem node = mem(node := (mem node)\<lparr>qnext := None, qprev := None\<rparr>)"

definition queue_push :: "'a queue \<Rightarrow> 'a queue_mem \<Rightarrow> 'a \<Rightarrow> ('a queue \<times> 'a queue_mem) res" where
  "queue_push q mem node =
     bind_res
       (case q_head q of
          None \<Rightarrow> Inr (q\<lparr>q_head := Some node\<rparr>, mem)
        | Some _ \<Rightarrow>
            bind_res (deref (q_tail q)) (\<lambda>t.
              let mem = mem(t := (mem t)\<lparr>qnext := Some node\<rparr>);
                  mem = mem(node := (mem node)\<lparr>qprev := Some t\<rparr>)
              in Inr (q, mem)))
       (\<lambda>(q, mem). Inr (q\<lparr>q_tail := Some node\<rparr>, mem))"

definition queue_peek :: "'a queue \<Rightarrow> 'a option" where
  "queue_peek q = q_head q"

definition queue_pop :: "'a queue \<Rightarrow> 'a queue_mem \<Rightarrow> ('a option \<times> 'a queue \<times> 'a queue_mem) res" where
  "queue_pop q mem =
     (case q_head q of
        None \<Rightarrow> Inr (None, q, mem)
      | Some found \<Rightarrow>
          if q_head q = q_tail q then
            Inr (Some found, q\<lparr>q_head := None, q_tail := None\<rparr>,
                 mem(found := (mem found)\<lparr>qnext := None, qprev := None\<rparr>))
          else
            bind_res (deref (qnext (mem found))) (\<lambda>h.
              let q = q\<lparr>q_head := Some h\<rparr>;
                  mem = mem(h := (mem h)\<lparr>qprev := None\<rparr>);
                  mem = mem(found := (mem found)\<lparr>qnext := None, qprev := None\<rparr>)
              in Inr (Some found, q, mem)))"

section \<open>What a queue in memory represents\<close>

definition queue_rep :: "'a queue \<Rightarrow> 'a queue_mem \<Rightarrow> 'a list \<Rightarrow> bool" where
  "queue_rep q mem xs \<longleftrightarrow>
     distinct xs \<and> q_head q = pos xs 1 \<and> q_tail q = pos xs (length xs) \<and>
     (\<forall>i \<in> set [1..<length xs + 1].
        qnext (mem (xs ! (i - 1))) = pos xs (i + 1) \<and> qprev (mem (xs ! (i - 1))) = pos xs (i - 1))"

definition node_ready :: "'a queue_mem \<Rightarrow> 'a \<Rightarrow> bool" where
  "node_ready mem x \<longleftrightarrow> qnext (mem x) = None \<and> qprev (mem x) = None"

lemma queue_repI:
  assumes "distinct xs" "q_head q = pos xs 1" "q_tail q = pos xs (length xs)"
    and "\<And>i x. pos xs i = Some x \<Longrightarrow> qnext (mem x) = pos xs (i + 1)"
    and "\<And>i x. pos xs i = Some x \<Longrightarrow> qprev (mem x) = pos xs (i - 1)"
  shows "queue_rep q mem xs"
  using assms unfolding queue_rep_def by (auto simp: pos_Some_iff)

lemma queue_repD:
  assumes "queue_rep q mem xs"
  shows "distinct xs" "q_head q = pos xs 1" "q_tail q = pos xs (length xs)"
    and "pos xs i = Some x \<Longrightarrow> qnext (mem x) = pos xs (i + 1)"
    and "pos xs i = Some x \<Longrightarrow> qprev (mem x) = pos xs (i - 1)"
  using assms unfolding queue_rep_def by (auto simp: pos_Some_iff)

lemma queue_rep_unique:
  assumes "queue_rep q mem xs" "queue_rep q mem ys"
  shows "xs = ys"
proof -
  have eq: "pos xs i = pos ys i" for i
  proof (induction i)
    case (Suc i)
    show ?case
    proof (cases "pos xs i")
      case None
      with Suc queue_repD(2) [OF assms(1)] queue_repD(2) [OF assms(2)] show ?thesis
        by (cases "i = 0") (auto simp: pos_None_iff dest: sym)
    next
      case (Some x)
      with Suc queue_repD(4) [OF assms(1), of i x] queue_repD(4) [OF assms(2), of i x]
      show ?thesis by simp
    qed
  qed simp
  then show ?thesis by (rule pos_ext)
qed

lemma queue_rep_cong:
  "queue_rep q mem xs \<Longrightarrow> (\<And>x. x \<in> set xs \<Longrightarrow> mem' x = mem x) \<Longrightarrow> queue_rep q mem' xs"
  by (rule queue_repI) (metis queue_repD(1-3), metis queue_repD(2), metis queue_repD(3),
      metis pos_SomeD queue_repD(4), metis pos_SomeD queue_repD(5))

lemma queue_rep_init [simp]: "queue_rep (queue_init q) mem []"
  by (simp add: queue_rep_def queue_init_def)

lemma queue_rep_empty: "queue_rep q mem xs \<Longrightarrow> queue_empty q \<longleftrightarrow> xs = []"
  by (cases xs) (auto simp: queue_rep_def queue_empty_def pos_def)

lemma queue_rep_peek: "queue_rep q mem xs \<Longrightarrow> queue_peek q = (if xs = [] then None else Some (hd xs))"
  by (cases xs) (auto simp: queue_rep_def queue_peek_def pos_def)

lemma node_ready_init [simp]: "node_ready (queue_init_node mem x) x"
  by (simp add: node_ready_def queue_init_node_def)

lemma queue_init_node_other [simp]: "y \<noteq> x \<Longrightarrow> queue_init_node mem x y = mem y"
  by (simp add: queue_init_node_def)

lemma queue_rep_init_node:
  "queue_rep q mem xs \<Longrightarrow> x \<notin> set xs \<Longrightarrow> queue_rep q (queue_init_node mem x) xs"
  by (erule queue_rep_cong) (metis queue_init_node_other)

section \<open>The operations on a represented queue\<close>

lemma queue_push_rep:
  assumes rep: "queue_rep q mem xs" and new: "x \<notin> set xs" and ready: "node_ready mem x"
  obtains q' mem' where "queue_push q mem x = Inr (q', mem')" "queue_rep q' mem' (xs @ [x])"
    "\<And>y. y \<notin> set xs \<Longrightarrow> y \<noteq> x \<Longrightarrow> mem' y = mem y"
proof (cases "xs = []")
  case True
  let ?q' = "q\<lparr>q_head := Some x, q_tail := Some x\<rparr>"
  from True rep have push: "queue_push q mem x = Inr (?q', mem)"
    by (simp add: queue_push_def queue_rep_def)
  have "queue_rep ?q' mem (xs @ [x])"
    using True ready by (simp add: queue_rep_def node_ready_def pos_def)
  with push show thesis by (rule that) auto
next
  case False
  let ?t = "last xs"
  let ?mem' = "mem(?t := (mem ?t)\<lparr>qnext := Some x\<rparr>, x := (mem x)\<lparr>qprev := Some ?t\<rparr>)"
  let ?q' = "q\<lparr>q_tail := Some x\<rparr>"
  from False have t: "?t \<in> set xs" by simp
  with new have tx: "?t \<noteq> x" by auto
  note D = queue_repD [OF rep]
  from False D(2,3) pos_last [OF False] pos_1_hd [OF False]
  have push: "queue_push q mem x = Inr (?q', ?mem')"
    using tx by (simp add: queue_push_def fun_upd_twist)
  have rep': "queue_rep ?q' ?mem' (xs @ [x])"
  proof (rule queue_repI)
    fix i y
    assume y: "pos (xs @ [x]) i = Some y"
    show "qnext (?mem' y) = pos (xs @ [x]) (i + 1)"
    proof (cases "i = length xs + 1")
      case True
      with y ready show ?thesis by (simp add: pos_snoc node_ready_def)
    next
      case False
      with y have py: "pos xs i = Some y" by (simp add: pos_snoc)
      with new have yx: "y \<noteq> x" by (auto dest: pos_SomeD)
      have ylast: "y = ?t \<longleftrightarrow> i = length xs"
        using pos_last [OF \<open>xs \<noteq> []\<close>] py D(1) by (metis option.inject pos_inj)
      show ?thesis
        using D(4) [OF py] yx ylast False by (auto simp: pos_snoc)
    qed
    show "qprev (?mem' y) = pos (xs @ [x]) (i - 1)"
    proof (cases "i = length xs + 1")
      case True
      with y \<open>xs \<noteq> []\<close> show ?thesis by (simp add: pos_snoc pos_last)
    next
      case False
      with y have py: "pos xs i = Some y" by (simp add: pos_snoc)
      with new have yx: "y \<noteq> x" by (auto dest: pos_SomeD)
      have "i - 1 \<noteq> length xs + 1" using pos_SomeD [OF py] by auto
      then show ?thesis
        using D(5) [OF py] yx by (auto simp: pos_snoc)
    qed
  qed (use D new False in \<open>auto simp: pos_snoc Suc_le_eq\<close>)
  show thesis
    by (rule that [OF push rep']) (use t in auto)
qed

lemma queue_pop_rep:
  assumes rep: "queue_rep q mem (x # xs)"
  obtains q' mem' where "queue_pop q mem = Inr (Some x, q', mem')" "queue_rep q' mem' xs"
    "node_ready mem' x" "\<And>y. y \<notin> set (x # xs) \<Longrightarrow> mem' y = mem y"
proof (cases "xs = []")
  case True
  with rep have "q_head q = Some x" "q_tail q = Some x" by (simp_all add: queue_rep_def pos_def)
  then have pop: "queue_pop q mem = Inr (Some x, q\<lparr>q_head := None, q_tail := None\<rparr>,
      mem(x := (mem x)\<lparr>qnext := None, qprev := None\<rparr>))"
    by (simp add: queue_pop_def)
  show thesis
    by (rule that [OF pop]) (use True in \<open>auto simp: queue_rep_def node_ready_def\<close>)
next
  case False
  let ?h = "hd xs"
  let ?q' = "q\<lparr>q_head := Some ?h\<rparr>"
  let ?mem' = "mem(?h := (mem ?h)\<lparr>qprev := None\<rparr>, x := (mem x)\<lparr>qnext := None, qprev := None\<rparr>)"
  note D = queue_repD [OF rep]
  from D(1) have dist: "distinct xs" and xh: "x \<notin> set xs" by auto
  from False have h: "?h \<in> set xs" by simp
  with xh have hx: "?h \<noteq> x" by auto
  have head: "q_head q = Some x" using D(2) by (simp add: pos_Cons)
  have tail: "q_tail q \<noteq> Some x"
    using D(3) False xh by (simp add: pos_Cons pos_last) (metis last_in_set)
  have "qnext (mem x) = Some ?h"
    using D(4) [of 1 x] False by (simp add: pos_Cons pos_1_hd)
  with head tail have pop: "queue_pop q mem = Inr (Some x, ?q', ?mem')"
    using hx by (auto simp: queue_pop_def fun_upd_twist)
  have rep': "queue_rep ?q' ?mem' xs"
  proof (rule queue_repI)
    fix i y
    assume py: "pos xs i = Some y"
    from py have i: "1 \<le> i" "i \<le> length xs" and yxs: "y \<in> set xs" by (auto dest: pos_SomeD)
    with xh have yx: "y \<noteq> x" by auto
    from py i have py': "pos (x # xs) (Suc i) = Some y" by (simp add: pos_Cons)
    show "qnext (?mem' y) = pos xs (i + 1)"
      using D(4) [OF py'] yx by (auto simp: pos_Cons)
    have "y = ?h \<longleftrightarrow> i = 1"
      using pos_1_hd [OF False] py pos_inj [OF dist py, of "Suc 0"] by auto
    then show "qprev (?mem' y) = pos xs (i - 1)"
      using D(5) [OF py'] yx i by (auto simp: pos_Cons)
  qed (use D dist False in \<open>auto simp: pos_Cons pos_1_hd\<close>)
  show thesis
    by (rule that [OF pop rep']) (use h in \<open>auto simp: node_ready_def\<close>)
qed

lemma queue_pop_empty:
  "queue_rep q mem [] \<Longrightarrow> queue_pop q mem = Inr (None, q, mem)"
  by (simp add: queue_rep_def queue_pop_def)

section \<open>The queue as a first-in first-out list\<close>

text \<open>
  Clients of the queue use it in two ways: \<open>queue_init_node\<close> followed by \<open>queue_push\<close>, and
  \<open>queue_pop\<close>. \<open>run_queue\<close> performs a sequence of such uses on any implementation of the two,
  \<open>list_queue\<close> on a list; \<open>fresh_ops\<close> says that no node is pushed while it is still queued.
\<close>

datatype 'a queue_op = Enq 'a | Deq

fun run_queue ::
  "('q \<Rightarrow> 'a \<Rightarrow> 'q res) \<Rightarrow> ('q \<Rightarrow> ('a option \<times> 'q) res) \<Rightarrow> 'q \<Rightarrow> 'a queue_op list \<Rightarrow>
    ('a option list \<times> 'q) res" where
  "run_queue enq deq q [] = Inr ([], q)"
| "run_queue enq deq q (Enq x # ops) = bind_res (enq q x) (\<lambda>q. run_queue enq deq q ops)"
| "run_queue enq deq q (Deq # ops) =
     bind_res (deq q) (\<lambda>(r, q). bind_res (run_queue enq deq q ops) (\<lambda>(rs, q). Inr (r # rs, q)))"

fun list_queue :: "'a list \<Rightarrow> 'a queue_op list \<Rightarrow> 'a option list \<times> 'a list" where
  "list_queue xs [] = ([], xs)"
| "list_queue xs (Enq x # ops) = list_queue (xs @ [x]) ops"
| "list_queue [] (Deq # ops) = (case list_queue [] ops of (rs, ys) \<Rightarrow> (None # rs, ys))"
| "list_queue (x # xs) (Deq # ops) = (case list_queue xs ops of (rs, ys) \<Rightarrow> (Some x # rs, ys))"

fun fresh_ops :: "'a list \<Rightarrow> 'a queue_op list \<Rightarrow> bool" where
  "fresh_ops xs [] \<longleftrightarrow> True"
| "fresh_ops xs (Enq x # ops) \<longleftrightarrow> x \<notin> set xs \<and> fresh_ops (xs @ [x]) ops"
| "fresh_ops xs (Deq # ops) \<longleftrightarrow> fresh_ops (tl xs) ops"

locale fifo =
  fixes rep :: "'q \<Rightarrow> 'a list \<Rightarrow> bool"
    and is_empty :: "'q \<Rightarrow> bool"
    and peek :: "'q \<Rightarrow> 'a option"
    and enq :: "'q \<Rightarrow> 'a \<Rightarrow> 'q res"
    and deq :: "'q \<Rightarrow> ('a option \<times> 'q) res"
  assumes is_empty: "rep q xs \<Longrightarrow> is_empty q \<longleftrightarrow> xs = []"
    and peek: "rep q (x # xs) \<Longrightarrow> peek q = Some x"
    and enq: "rep q xs \<Longrightarrow> x \<notin> set xs \<Longrightarrow> \<exists>q'. enq q x = Inr q' \<and> rep q' (xs @ [x])"
    and deq_Nil: "rep q [] \<Longrightarrow> deq q = Inr (None, q)"
    and deq_Cons: "rep q (x # xs) \<Longrightarrow> \<exists>q'. deq q = Inr (Some x, q') \<and> rep q' xs"
begin

lemma peek_deq: "rep q xs \<Longrightarrow> \<not> is_empty q \<Longrightarrow> \<exists>q'. deq q = Inr (peek q, q')"
  using deq_Cons is_empty peek by (cases xs) fastforce+

lemma run_list_queue:
  "rep q xs \<Longrightarrow> fresh_ops xs ops \<Longrightarrow>
    \<exists>q'. run_queue enq deq q ops = Inr (fst (list_queue xs ops), q') \<and>
      rep q' (snd (list_queue xs ops))"
proof (induction xs ops arbitrary: q rule: list_queue.induct)
  case (1 xs)
  then show ?case by auto
next
  case (2 xs x ops)
  from "2.prems" obtain q' where "enq q x = Inr q'" "rep q' (xs @ [x])"
    using enq [of q xs x] by auto
  with "2.IH" "2.prems" show ?case by auto
next
  case (3 ops)
  then have "deq q = Inr (None, q)" using deq_Nil by auto
  with 3 show ?case by (fastforce split: prod.splits)
next
  case (4 x xs ops)
  then obtain q' where "deq q = Inr (Some x, q')" "rep q' xs"
    using deq_Cons by blast
  with "4.IH" "4.prems" show ?case by (fastforce split: prod.splits)
qed

end

text \<open>The pointer implementation provides the interface.\<close>

abbreviation node_enq :: "'a queue \<times> 'a queue_mem \<Rightarrow> 'a \<Rightarrow> ('a queue \<times> 'a queue_mem) res" where
  "node_enq \<equiv> \<lambda>(q, mem) x. queue_push q (queue_init_node mem x) x"

abbreviation node_deq ::
  "'a queue \<times> 'a queue_mem \<Rightarrow> ('a option \<times> 'a queue \<times> 'a queue_mem) res" where
  "node_deq \<equiv> \<lambda>(q, mem). queue_pop q mem"

interpretation node_queue: fifo "\<lambda>(q, mem). queue_rep q mem" "\<lambda>(q, mem). queue_empty q"
  "\<lambda>(q, mem). queue_peek q" node_enq node_deq
proof (unfold_locales, goal_cases)
  case (1 q xs)
  then show ?case by (auto simp: queue_rep_empty)
next
  case (2 q x xs)
  then show ?case by (auto simp: queue_rep_peek)
next
  case (3 q xs x)
  obtain q0 mem where q: "q = (q0, mem)" by (cases q)
  with 3 have "queue_rep q0 (queue_init_node mem x) xs" by (auto intro: queue_rep_init_node)
  from queue_push_rep [OF this 3(2)] q show ?case by fastforce
next
  case (4 q)
  then show ?case by (auto simp: queue_pop_empty)
next
  case (5 q x xs)
  then show ?case by (cases q) (auto elim: queue_pop_rep)
qed

text \<open>
  C1. Refinement of the intrusive queue: started on an empty queue, any sequence of pushes and
  pops that never pushes a node that is still queued runs without following a \<open>NULL\<close> pointer,
  pops exactly what a first-in first-out list would, in its order (\<open>NULL\<close> when it is empty),
  and leaves the nodes not yet popped linked in order, in both directions.
\<close>

theorem queue_refines_fifo:
  assumes "fresh_ops [] ops"
  shows "\<exists>q' mem'. run_queue node_enq node_deq (queue_init q, mem) ops =
      Inr (fst (list_queue [] ops), q', mem') \<and> queue_rep q' mem' (snd (list_queue [] ops))"
  using node_queue.run_list_queue [of "(queue_init q, mem)" "[]" ops] assms by auto

theorem queue_refines_fifo_witness:
  "\<exists>q' mem'. run_queue node_enq node_deq
      (queue_init \<lparr>q_head = Some 9, q_tail = None\<rparr>, \<lambda>_. \<lparr>qnext = Some 1, qprev = None\<rparr>)
      [Enq (1::nat), Enq 2, Deq, Enq 1, Deq, Enq 3] = Inr ([Some 1, Some 2], q', mem') \<and>
    queue_rep q' mem' [1, 3]"
  using queue_refines_fifo [of "[Enq (1::nat), Enq 2, Deq, Enq 1, Deq, Enq 3]"
      "\<lparr>q_head = Some 9, q_tail = None\<rparr>" "\<lambda>_. \<lparr>qnext = Some 1, qprev = None\<rparr>"]
  by simp

end
