(* ===== verification/Intrusive_Heap.thy ===== *)
theory Intrusive_Heap
  imports Pandio_Prelude
begin

text \<open>
  The intrusive binary heap of \<^verbatim>\<open>include/pandio/heap.h\<close>, at the level of its pointers: a
  complete binary tree of nodes linked to their children and their parent, with no array
  behind it. The position of the last node is found by following the bits of the size from the
  root (\<open>path_bits\<close>, \<open>descend\<close>). The unbounded loops are \<open>partial_function\<close>s, so a loop that
  does not end is the fault \<open>Diverged\<close>. The memory of the elements (the structures the nodes
  are embedded in), which only the comparator reads, is an argument of its own.

  \<open>heap_rep h mem xs\<close> says that the nodes reachable from \<open>h\<close> are \<open>xs\<close>, read level by level:
  the children of the node at position \<open>i\<close> are at \<open>2 * i\<close> and \<open>2 * i + 1\<close>.
\<close>

unbundle bit_operations_syntax

section \<open>The structures and the operations\<close>

record 'a heap_node =
  left :: "'a option"
  right :: "'a option"
  parent :: "'a option"

type_synonym 'a heap_mem = "'a \<Rightarrow> 'a heap_node"

record ('m, 'a) heap =
  root :: "'a option"
  heap_size :: size_t
  comparator :: "'m \<Rightarrow> 'a \<Rightarrow> 'a \<Rightarrow> int"

definition set_left :: "'a heap_mem \<Rightarrow> 'a \<Rightarrow> 'a option \<Rightarrow> 'a heap_mem" where
  "set_left mem a v = mem(a := (mem a)\<lparr>left := v\<rparr>)"

definition set_right :: "'a heap_mem \<Rightarrow> 'a \<Rightarrow> 'a option \<Rightarrow> 'a heap_mem" where
  "set_right mem a v = mem(a := (mem a)\<lparr>right := v\<rparr>)"

definition set_parent :: "'a heap_mem \<Rightarrow> 'a \<Rightarrow> 'a option \<Rightarrow> 'a heap_mem" where
  "set_parent mem a v = mem(a := (mem a)\<lparr>parent := v\<rparr>)"

declare set_left_def [heap_fields] set_right_def [heap_fields] set_parent_def [heap_fields]

text \<open>
  Two statements the code repeats: \<^verbatim>\<open>if (ptr) ptr->parent = v;\<close>, and making \<open>new\<close> the child of
  \<open>g\<close>, if there is a \<open>g\<close>, on the side where \<open>old\<close> was
  (\<^verbatim>\<open>if (g->left == old) g->left = new; else g->right = new;\<close>).
\<close>

definition set_parent_of :: "'a heap_mem \<Rightarrow> 'a option \<Rightarrow> 'a option \<Rightarrow> 'a heap_mem" where
  "set_parent_of mem ptr v = (case ptr of None \<Rightarrow> mem | Some a \<Rightarrow> set_parent mem a v)"

definition replace_child ::
  "'a heap_mem \<Rightarrow> 'a option \<Rightarrow> 'a \<Rightarrow> 'a option \<Rightarrow> 'a heap_mem" where
  "replace_child mem g old new =
     (case g of
        None \<Rightarrow> mem
      | Some g \<Rightarrow> if left (mem g) = Some old then set_left mem g new else set_right mem g new)"

definition heap_init :: "('m, 'a) heap \<Rightarrow> ('m \<Rightarrow> 'a \<Rightarrow> 'a \<Rightarrow> int) \<Rightarrow> ('m, 'a) heap" where
  "heap_init h cmp = h\<lparr>root := None, heap_size := 0, comparator := cmp\<rparr>"

definition heap_init_node :: "'a heap_mem \<Rightarrow> 'a \<Rightarrow> 'a heap_mem" where
  "heap_init_node mem node = set_parent (set_right (set_left mem node None) node None) node None"

definition heap_peek :: "('m, 'a) heap \<Rightarrow> 'a option" where
  "heap_peek h = root h"

text \<open>\<open>heap_swap\<close> makes \<open>child\<close> take the place of its parent and the parent that of the child.\<close>

definition heap_swap ::
  "('m, 'a) heap \<Rightarrow> 'a heap_mem \<Rightarrow> 'a \<Rightarrow> 'a \<Rightarrow> ('m, 'a) heap \<times> 'a heap_mem" where
  "heap_swap h mem child par =
     (let tmp = mem par;
          grandparent = parent (mem par);
          mem = replace_child mem grandparent par (Some child);
          mem = set_parent_of mem (left (mem par)) (Some child);
          mem = set_parent_of mem (right (mem par)) (Some child);
          mem = set_left mem par (left (mem child));
          mem = set_parent_of mem (left (mem child)) (Some par);
          mem = set_right mem par (right (mem child));
          mem = set_parent_of mem (right (mem child)) (Some par);
          mem = set_parent mem par (Some child);
          mem = set_left mem child (if left tmp = Some child then Some par else left tmp);
          mem = set_right mem child (if right tmp = Some child then Some par else right tmp);
          mem = set_parent mem child (parent tmp);
          h = (if parent (mem child) = None then h\<lparr>root := Some child\<rparr> else h)
      in (h, mem))"

text \<open>
  The way from the root to position \<open>n\<close>: the bits of \<open>n\<close> below its leading one, the most
  significant of them first. \<open>path_bits\<close> collects them reversed in \<open>bmask\<close>, and \<open>descend\<close>
  follows them while more than \<open>stop\<close> are left.
\<close>

function path_bits :: "uint32 \<Rightarrow> uint32 \<Rightarrow> uint32 \<Rightarrow> uint32 \<times> uint32" where
  "path_bits n bmask bits_count =
     (if 2 \<le> n then path_bits (drop_bit 1 n) (push_bit 1 bmask OR (n AND 1)) (bits_count + 1)
      else (bmask, bits_count))"
  by pat_completeness auto
termination
  by (relation "measure (\<lambda>(n, _, _). unat n)")
    (auto simp: drop_bit_eq_div unat_div word_le_nat_alt)

declare path_bits.simps [simp del]

function descend ::
  "'a heap_mem \<Rightarrow> uint32 \<Rightarrow> uint32 \<Rightarrow> uint32 \<Rightarrow> 'a option \<Rightarrow> 'a option res" where
  "descend mem stop bmask bits_count lst =
     (if stop < bits_count then
        bind_res (deref lst) (\<lambda>l.
          descend mem stop (drop_bit 1 bmask) (bits_count - 1)
            (if bmask AND 1 \<noteq> 0 then right (mem l) else left (mem l)))
      else Inr lst)"
  by pat_completeness auto
termination
  by (relation "measure (\<lambda>(mem, stop, bmask, bits_count, lst). unat bits_count)")
    (auto simp: word_less_nat_alt unat_sub_if')

declare descend.simps [simp del]

partial_function (option) sift_up ::
  "(int \<Rightarrow> bool) \<Rightarrow> 'm \<Rightarrow> 'a \<Rightarrow> ('m, 'a) heap \<Rightarrow> 'a heap_mem \<Rightarrow>
    (('m, 'a) heap \<times> 'a heap_mem) option" where
  "sift_up test m node h mem =
     (case parent (mem node) of
        None \<Rightarrow> Some (h, mem)
      | Some p \<Rightarrow>
          if test (comparator h m node p) then
            (case heap_swap h mem node p of (h, mem) \<Rightarrow> sift_up test m node h mem)
          else Some (h, mem))"

definition choose_child :: "('m, 'a) heap \<Rightarrow> 'm \<Rightarrow> 'a heap_mem \<Rightarrow> 'a \<Rightarrow> 'a option" where
  "choose_child h m mem lst =
     (case (left (mem lst), right (mem lst)) of
        (Some l, Some r) \<Rightarrow> if comparator h m l r \<noteq> 0 then Some l else Some r
      | (Some l, None) \<Rightarrow> Some l
      | (None, Some r) \<Rightarrow> Some r
      | (None, None) \<Rightarrow> None)"

partial_function (option) sift_down ::
  "'m \<Rightarrow> 'a \<Rightarrow> ('m, 'a) heap \<Rightarrow> 'a heap_mem \<Rightarrow> (('m, 'a) heap \<times> 'a heap_mem) option" where
  "sift_down m lst h mem =
     (case choose_child h m mem lst of
        None \<Rightarrow> Some (h, mem)
      | Some swap_node \<Rightarrow>
          if comparator h m lst swap_node \<noteq> 0 then Some (h, mem)
          else (case heap_swap h mem swap_node lst of (h, mem) \<Rightarrow> sift_down m lst h mem))"

definition heap_insert ::
  "'m \<Rightarrow> ('m, 'a) heap \<Rightarrow> 'a heap_mem \<Rightarrow> 'a \<Rightarrow> (('m, 'a) heap \<times> 'a heap_mem) res" where
  "heap_insert m h mem newnode =
     (if root h = None then
        Inr (h\<lparr>root := Some newnode, heap_size := heap_size h + 1\<rparr>,
             set_right (set_left (set_parent mem newnode None) newnode None) newnode None)
      else
        (case path_bits (ucast (heap_size h + 1)) 0 0 of (bmask, bits_count) \<Rightarrow>
          bind_res (descend mem 1 bmask bits_count (root h)) (\<lambda>lst.
          bind_res (deref lst) (\<lambda>lst.
            let mem = (if left (mem lst) = None then set_left mem lst (Some newnode)
                       else set_right mem lst (Some newnode));
                h = h\<lparr>heap_size := heap_size h + 1\<rparr>;
                mem = set_parent mem newnode (Some lst);
                mem = set_left mem newnode None;
                mem = set_right mem newnode None
            in loop_res (sift_up (\<lambda>c. c > 0) m newnode h mem)))))"

definition heap_remove ::
  "'m \<Rightarrow> ('m, 'a) heap \<Rightarrow> 'a heap_mem \<Rightarrow> 'a option \<Rightarrow>
    ('a option \<times> ('m, 'a) heap \<times> 'a heap_mem) res" where
  "heap_remove m h mem rnode =
     (if root h = None then Inr (None, h, mem)
      else if heap_size h = 1 then Inr (rnode, h\<lparr>root := None, heap_size := 0\<rparr>, mem)
      else
        (case path_bits (ucast (heap_size h)) 0 0 of (bmask, bits_count) \<Rightarrow>
          bind_res (descend mem 0 bmask bits_count (root h)) (\<lambda>lst.
          bind_res (deref lst) (\<lambda>lst.
            let h = h\<lparr>heap_size := heap_size h - 1\<rparr>;
                mem = replace_child mem (parent (mem lst)) lst None
            in if Some lst = rnode then Inr (rnode, h, mem)
               else bind_res (deref rnode) (\<lambda>rn.
                 let h = (if parent (mem rn) = None then h\<lparr>root := Some lst\<rparr> else h);
                     mem = replace_child mem (parent (mem rn)) rn (Some lst);
                     mem = set_parent_of mem (left (mem rn)) (Some lst);
                     mem = set_parent_of mem (right (mem rn)) (Some lst);
                     mem = set_left mem lst (left (mem rn));
                     mem = set_right mem lst (right (mem rn));
                     mem = set_parent mem lst (parent (mem rn))
                 in bind_res (loop_res (sift_down m lst h mem)) (\<lambda>(h, mem).
                    bind_res (loop_res (sift_up (\<lambda>c. c \<noteq> 0) m lst h mem)) (\<lambda>(h, mem).
                      Inr (rnode, h, mem))))))))"

definition heap_pop ::
  "'m \<Rightarrow> ('m, 'a) heap \<Rightarrow> 'a heap_mem \<Rightarrow> ('a option \<times> ('m, 'a) heap \<times> 'a heap_mem) res" where
  "heap_pop m h mem = heap_remove m h mem (root h)"

lemma set_fields [simp]:
  "left (set_left mem a v b) = (if b = a then v else left (mem b))"
  "right (set_left mem a v b) = right (mem b)"
  "parent (set_left mem a v b) = parent (mem b)"
  "left (set_right mem a v b) = left (mem b)"
  "right (set_right mem a v b) = (if b = a then v else right (mem b))"
  "parent (set_right mem a v b) = parent (mem b)"
  "left (set_parent mem a v b) = left (mem b)"
  "right (set_parent mem a v b) = right (mem b)"
  "parent (set_parent mem a v b) = (if b = a then v else parent (mem b))"
  by (simp_all add: heap_fields)

lemma set_parent_of_fields [simp]:
  "left (set_parent_of mem p v b) = left (mem b)"
  "right (set_parent_of mem p v b) = right (mem b)"
  "parent (set_parent_of mem p v b) = (if p = Some b then v else parent (mem b))"
  by (auto simp: set_parent_of_def split: option.splits)

lemma replace_child_fields [simp]:
  "left (replace_child mem g old new b) =
    (if g = Some b \<and> left (mem b) = Some old then new else left (mem b))"
  "right (replace_child mem g old new b) =
    (if g = Some b \<and> left (mem b) \<noteq> Some old then new else right (mem b))"
  "parent (replace_child mem g old new b) = parent (mem b)"
  by (auto simp: replace_child_def split: option.splits)

end
