(* ===== verification/Heap_Refinement.thy ===== *)
theory Heap_Refinement
  imports Intrusive_Heap
begin

text \<open>
  The pointer heap represents a list in level order (\<open>heap_rep\<close>), \<open>heap_swap\<close> exchanges two
  positions of it, and the path computed from the size leads to the last position. On top of
  this, insertion and removal keep the representation and the order of the keys.
\<close>

section \<open>What a heap in memory represents\<close>

definition heap_rep :: "('m, 'a) heap \<Rightarrow> 'a heap_mem \<Rightarrow> 'a list \<Rightarrow> bool" where
  "heap_rep h mem xs \<longleftrightarrow>
     distinct xs \<and> root h = pos xs 1 \<and> unat (heap_size h) = length xs \<and>
     (\<forall>i \<in> set [1..<length xs + 1].
        left (mem (xs ! (i - 1))) = pos xs (2 * i) \<and>
        right (mem (xs ! (i - 1))) = pos xs (2 * i + 1) \<and>
        parent (mem (xs ! (i - 1))) = pos xs (i div 2))"

lemma heap_repI:
  assumes "distinct xs" "root h = pos xs 1" "unat (heap_size h) = length xs"
    and "\<And>i x. pos xs i = Some x \<Longrightarrow> left (mem x) = pos xs (2 * i)"
    and "\<And>i x. pos xs i = Some x \<Longrightarrow> right (mem x) = pos xs (2 * i + 1)"
    and "\<And>i x. pos xs i = Some x \<Longrightarrow> parent (mem x) = pos xs (i div 2)"
  shows "heap_rep h mem xs"
  using assms unfolding heap_rep_def by (auto simp: pos_Some_iff)

lemma heap_repD:
  assumes "heap_rep h mem xs"
  shows "distinct xs" "root h = pos xs 1" "unat (heap_size h) = length xs"
    and "pos xs i = Some x \<Longrightarrow> left (mem x) = pos xs (2 * i)"
    and "pos xs i = Some x \<Longrightarrow> right (mem x) = pos xs (2 * i + 1)"
    and "pos xs i = Some x \<Longrightarrow> parent (mem x) = pos xs (i div 2)"
  using assms unfolding heap_rep_def by (auto simp: pos_Some_iff)

lemma heap_rep_cong:
  "heap_rep h mem xs \<Longrightarrow> (\<And>x. x \<in> set xs \<Longrightarrow> mem' x = mem x) \<Longrightarrow>
    root h' = root h \<Longrightarrow> heap_size h' = heap_size h \<Longrightarrow> heap_rep h' mem' xs"
  by (rule heap_repI) (metis heap_repD(1), metis heap_repD(2), metis heap_repD(3),
      metis pos_SomeD heap_repD(4), metis pos_SomeD heap_repD(5), metis pos_SomeD heap_repD(6))

lemma heap_rep_init [simp]: "heap_rep (heap_init h cmp) mem []"
  by (simp add: heap_rep_def heap_init_def)

lemma heap_rep_root_None: "heap_rep h mem xs \<Longrightarrow> root h = None \<longleftrightarrow> xs = []"
  by (cases xs) (auto simp: heap_rep_def pos_def)

section \<open>Swapping a node with its parent\<close>

lemma heap_swap_fields:
  assumes sw: "heap_swap h mem c p = (h', mem')"
    and cp: "c \<noteq> p" and pc: "parent (mem p) \<noteq> Some c" and pp: "parent (mem p) \<noteq> Some p"
  shows "left (mem' y) =
      (if y = c then (if left (mem p) = Some c then Some p else left (mem p))
       else if y = p then left (mem c)
       else if parent (mem p) = Some y \<and> left (mem y) = Some p then Some c else left (mem y))"
    and "right (mem' y) =
      (if y = c then (if right (mem p) = Some c then Some p else right (mem p))
       else if y = p then right (mem c)
       else if parent (mem p) = Some y \<and> left (mem y) \<noteq> Some p then Some c else right (mem y))"
    and "parent (mem' y) =
      (if y = c then parent (mem p)
       else if y = p then Some c
       else if left (mem c) = Some y \<or> right (mem c) = Some y then Some p
       else if left (mem p) = Some y \<or> right (mem p) = Some y then Some c
       else parent (mem y))"
    and "h' = (if parent (mem p) = None then h\<lparr>root := Some c\<rparr> else h)"
proof -
  from sw have h': "h' = (if parent (mem p) = None then h\<lparr>root := Some c\<rparr> else h)"
    and mem': "mem' = snd (heap_swap h mem c p)"
    by (auto simp: heap_swap_def Let_def)
  show "h' = (if parent (mem p) = None then h\<lparr>root := Some c\<rparr> else h)" by (rule h')
  show "left (mem' y) =
      (if y = c then (if left (mem p) = Some c then Some p else left (mem p))
       else if y = p then left (mem c)
       else if parent (mem p) = Some y \<and> left (mem y) = Some p then Some c else left (mem y))"
    using cp pc pp by (simp add: mem' heap_swap_def Let_def)
  show "right (mem' y) =
      (if y = c then (if right (mem p) = Some c then Some p else right (mem p))
       else if y = p then right (mem c)
       else if parent (mem p) = Some y \<and> left (mem y) \<noteq> Some p then Some c else right (mem y))"
    using cp pc pp by (simp add: mem' heap_swap_def Let_def)
  show "parent (mem' y) =
      (if y = c then parent (mem p)
       else if y = p then Some c
       else if left (mem c) = Some y \<or> right (mem c) = Some y then Some p
       else if left (mem p) = Some y \<or> right (mem p) = Some y then Some c
       else parent (mem y))"
    using cp pc pp by (simp add: mem' heap_swap_def Let_def)
qed

lemma heap_rep_frame:
  assumes "heap_rep h mem xs" "y \<notin> set xs" "x \<in> set xs"
  shows "left (mem x) \<noteq> Some y" "right (mem x) \<noteq> Some y" "parent (mem x) \<noteq> Some y"
  using assms heap_repD(4-6) [OF assms(1)] by (metis in_set_pos)+

lemma heap_swap_rep:
  assumes rep: "heap_rep h mem xs" and i: "2 \<le> i" and c: "pos xs i = Some c"
    and p: "pos xs (i div 2) = Some p"
  obtains h' mem' where "heap_swap h mem c p = (h', mem')"
    "heap_rep h' mem' (swap_at xs i (i div 2))" "comparator h' = comparator h"
    "\<And>y. y \<notin> set xs \<Longrightarrow> mem' y = mem y"
proof -
  define j where "j = i div 2"
  define g where "g = j div 2"
  let ?ys = "swap_at xs i j"
  note D = heap_repD [OF rep]
  have p: "pos xs j = Some p" using p by (simp add: j_def)
  obtain h' mem' where sw: "heap_swap h mem c p = (h', mem')" by fastforce
  have ij: "j \<noteq> i" "g \<noteq> i" "g \<noteq> j" "1 \<le> j" "1 \<le> i" "i \<le> length xs" "j \<le> length xs"
      "2 * i \<noteq> j" "2 * i + 1 \<noteq> j" "i = 2 * j \<or> i = 2 * j + 1"
    using i pos_SomeD [OF c] by (auto simp: j_def g_def)
  have ys: "pos ?ys k = (if k = i then Some p else if k = j then Some c else pos xs k)" for k
    using ij c p by (simp add: pos_swap_at)
  have isc: "pos xs k = Some c \<longleftrightarrow> k = i" and isp: "pos xs k = Some p \<longleftrightarrow> k = j" for k
    using pos_eq_iff [OF D(1) c, of k] pos_eq_iff [OF D(1) p, of k] by auto
  have cp: "c \<noteq> p" using ij c p isc by auto
  have par_p: "parent (mem p) = pos xs g" using D(6) [OF p] by (simp add: g_def)
  have pc: "parent (mem p) \<noteq> Some c" "parent (mem p) \<noteq> Some p"
    using par_p isc isp ij by auto
  note F = heap_swap_fields [OF sw cp pc]
  have rep': "heap_rep h' mem' ?ys"
  proof (rule heap_repI)
    show "distinct ?ys" using D(1) ij by simp
    show "root h' = pos ?ys 1"
    proof (cases "j = 1")
      case True
      then have "g = 0" by (simp add: g_def)
      then show ?thesis using F(4) par_p ij True ys [of 1] by simp
    next
      case False
      then have "1 \<le> g" "g \<le> length xs" using ij by (auto simp: g_def)
      then have "parent (mem p) \<noteq> None" using par_p by (simp add: pos_None_iff)
      with F(4) have "h' = h" by auto
      then show ?thesis using D(2) False ys [of 1] i ij by simp
    qed
    show "unat (heap_size h') = length ?ys" using F(4) D(3) by simp
    fix k y
    assume y: "pos ?ys k = Some y"
    consider (child) "k = i" "y = p" | (parent) "k = j" "y = c"
      | (other) "k \<noteq> i" "k \<noteq> j" "pos xs k = Some y" "y \<noteq> c" "y \<noteq> p"
      using y ij isc isp by (auto simp: ys split: if_splits)
    note yc = this
    have par_y: "parent (mem p) = Some y \<longleftrightarrow> k = g" if "pos xs k = Some y"
      using par_p pos_eq_iff [OF D(1) that, of g] by auto
    have grand: "k = g \<and> k \<noteq> 0 \<longleftrightarrow> k \<noteq> 0 \<and> (2 * k = j \<or> 2 * k + 1 = j)"
      using ij by (auto simp: g_def)
    have child_k: "2 * k \<noteq> i" "Suc (2 * k) \<noteq> i" if "k \<noteq> j"
      using ij(10) that by presburger+
    have kpos: "k \<noteq> 0" using y by (metis pos_0 option.distinct(1))
    from yc show "left (mem' y) = pos ?ys (2 * k)"
    proof cases
      case child
      then show ?thesis using F(1) [of p] cp D(4) [OF c] ij by (simp add: ys)
    next
      case parent
      then show ?thesis using F(1) [of c] D(4) [OF p] isc p ij by (auto simp: ys)
    next
      case other
      then show ?thesis
        using F(1) [of y] D(4) [OF other(3)] par_y [OF other(3)] grand kpos child_k [OF other(2)]
          other(4,5) by (auto simp: ys isp)
    qed
    from yc show "right (mem' y) = pos ?ys (2 * k + 1)"
    proof cases
      case child
      then show ?thesis using F(2) [of p] cp D(5) [OF c] ij by (simp add: ys)
    next
      case parent
      then show ?thesis using F(2) [of c] D(5) [OF p] isc p ij by (auto simp: ys)
    next
      case other
      then show ?thesis
        using F(2) [of y] D(4,5) [OF other(3)] par_y [OF other(3)] grand kpos child_k [OF other(2)]
          other(4,5) by (auto simp: ys isp)
    qed
    from yc show "parent (mem' y) = pos ?ys (k div 2)"
    proof cases
      case child
      then show ?thesis using F(3) [of p] cp ij ys [of j] by (simp add: j_def [symmetric])
    next
      case parent
      then show ?thesis using F(3) [of c] par_p ij by (simp add: ys g_def [symmetric])
    next
      case other
      have "k div 2 = i \<longleftrightarrow> 2 * i = k \<or> 2 * i + 1 = k" "k div 2 = j \<longleftrightarrow> 2 * j = k \<or> 2 * j + 1 = k"
        by linarith+
      moreover have "pos xs l = Some y \<longleftrightarrow> l = k" for l
        using pos_eq_iff [OF D(1) other(3), of l] by auto
      ultimately show ?thesis
        using F(3) [of y] D(4,5) [OF c] D(4,5) [OF p] D(6) [OF other(3)] other
        by (simp add: ys)
    qed
  qed
  have frame: "mem' y = mem y" if y: "y \<notin> set xs" for y
  proof (rule heap_node.equality)
    from c p y have "y \<noteq> c" "y \<noteq> p" by (auto dest: pos_SomeD)
    moreover have "c \<in> set xs" "p \<in> set xs" using c p by (auto dest: pos_SomeD)
    ultimately show "left (mem' y) = left (mem y)" "right (mem' y) = right (mem y)"
      "parent (mem' y) = parent (mem y)"
      using F(1-3) [of y] heap_rep_frame [OF rep y] by simp_all
  qed simp
  from F(4) have "comparator h' = comparator h" by simp
  from sw rep' [unfolded j_def] this frame show thesis by (rule that)
qed

section \<open>The way from the root to a position\<close>

text \<open>
  The bits \<open>path_bits\<close> has collected from \<open>n\<close>, followed from the root until only the
  \<open>bits_count\<close> bits it started with are left, lead to position \<open>n\<close>.
\<close>

lemma descend_path_bits:
  assumes rep: "heap_rep h mem xs"
    and "path_bits n m b = (m', b')" "1 \<le> n" "unat n div 2 \<le> length xs"
    and "unat m < 2 ^ unat b" "unat n * 2 ^ unat b < 2 ^ 32" "stop \<le> b"
  shows "descend mem stop m' b' (root h) = descend mem stop m b (pos xs (unat n))"
  using assms(2-)
proof (induction n m b rule: path_bits.induct)
  case (1 n m b)
  show ?case
  proof (cases "2 \<le> n")
    case False
    then have "unat n < 2" by (simp add: word_le_nat_alt)
    moreover have "1 \<le> unat n" using "1.prems"(2) by (simp add: word_le_nat_alt)
    ultimately have "unat n = 1" by simp
    moreover have "m' = m" "b' = b" using "1.prems"(1) False by (simp_all add: path_bits.simps [of n])
    ultimately show ?thesis using heap_repD(2) [OF rep] by simp
  next
    case True
    let ?n = "drop_bit 1 n" and ?m = "push_bit 1 m OR (n AND 1)"
    have n2: "2 \<le> unat n" using True by (simp add: word_le_nat_alt)
    have half: "1 \<le> unat n div 2" "unat n = 2 * (unat n div 2) + unat n mod 2"
      using n2 by simp_all
    have b31: "unat b < 31"
    proof (rule ccontr)
      assume "\<not> unat b < 31"
      then have "2 ^ 31 \<le> (2::nat) ^ unat b" by (intro power_increasing) auto
      with n2 have "2 * 2 ^ 31 \<le> unat n * 2 ^ unat b" by (rule mult_le_mono)
      with "1.prems"(5) show False by simp
    qed
    then have ub: "unat (b + 1) = Suc (unat b)" by (simp add: unat_word_ariths)
    have "(2::nat) ^ unat b < 2 ^ 31" using b31 by (intro power_strict_increasing) auto
    with "1.prems"(4) have m31: "unat m < 2 ^ 31" by linarith
    have um: "unat ?m = 2 * unat m + unat n mod 2" by (rule unat_shift_in_bit [OF m31])
    have m_lt: "unat ?m < 2 ^ unat (b + 1)" using um ub "1.prems"(4) by simp
    have "unat ?n * 2 ^ unat (b + 1) = 2 * (unat n div 2) * 2 ^ unat b"
      by (simp only: unat_drop_1 ub) simp
    also have "\<dots> \<le> unat n * 2 ^ unat b" by simp
    also have "\<dots> < 2 ^ 32" by (rule "1.prems"(5))
    finally have n_lt: "unat ?n * 2 ^ unat (b + 1) < 2 ^ 32" .
    have stop: "stop < b + 1" "stop \<le> b + 1"
      using "1.prems"(6) ub by (simp_all add: word_le_nat_alt word_less_nat_alt)
    obtain l where l: "pos xs (unat n div 2) = Some l"
      using pos_in_range [of "unat n div 2" xs] half "1.prems"(3) by auto
    have "path_bits ?n ?m (b + 1) = (m', b')"
      using "1.prems"(1) True by (simp add: path_bits.simps [of n])
    moreover have "1 \<le> ?n" using half by (simp add: word_le_nat_alt unat_drop_1)
    moreover have "unat ?n div 2 \<le> length xs" using "1.prems"(3) by (simp add: unat_drop_1)
    ultimately have "descend mem stop m' b' (root h) =
        descend mem stop ?m (b + 1) (pos xs (unat ?n))"
      using "1.IH" [OF True] m_lt n_lt stop by simp
    also have "\<dots> = descend mem stop (drop_bit 1 ?m) b
        (if ?m AND 1 \<noteq> 0 then right (mem l) else left (mem l))"
      using stop l by (subst descend.simps) (simp add: unat_drop_1)
    also have "drop_bit 1 ?m = m"
      by (simp only: word_unat_eq_iff unat_drop_1 um)
    also have "(if ?m AND 1 \<noteq> 0 then right (mem l) else left (mem l)) = pos xs (unat n)"
      using heap_repD(4,5) [OF rep l] half(2)
      by (simp only: and_1_zero um) (cases "even (unat n)"; simp)
    finally show ?thesis .
  qed
qed

text \<open>The two uses of the path: the last node for removal, the parent of a new node for insertion.\<close>

lemma descend_to_last:
  assumes rep: "heap_rep h mem xs" and len: "xs \<noteq> []" "length xs < 2 ^ 32"
    and path: "path_bits (ucast (heap_size h)) 0 0 = (m', b')"
  shows "descend mem 0 m' b' (root h) = Inr (Some (last xs))"
proof -
  have n: "unat (ucast (heap_size h) :: uint32) = length xs"
    using heap_repD(3) [OF rep] len(2) by (simp add: unsigned_ucast_eq take_bit_nat_eq_self)
  have "descend mem 0 m' b' (root h) = descend mem 0 0 0 (pos xs (unat (ucast (heap_size h) :: uint32)))"
    using len n by (intro descend_path_bits [OF rep path]) (auto simp: word_le_nat_alt Suc_le_eq)
  then show ?thesis using n len by (simp add: descend.simps pos_last)
qed

lemma descend_to_parent:
  assumes rep: "heap_rep h mem xs" and len: "xs \<noteq> []" "length xs + 1 < 2 ^ 32"
    and path: "path_bits (ucast (heap_size h + 1)) 0 0 = (m', b')"
  shows "descend mem 1 m' b' (root h) = Inr (pos xs ((length xs + 1) div 2))"
proof -
  let ?n = "ucast (heap_size h + 1) :: uint32"
  have "unat (heap_size h + 1) = length xs + 1"
    using heap_repD(3) [OF rep] len(2) by (simp add: unat_word_ariths)
  then have n: "unat ?n = length xs + 1"
    using len(2) by (simp add: unsigned_ucast_eq take_bit_nat_eq_self)
  have n2: "2 \<le> ?n" using n len by (simp add: word_le_nat_alt Suc_le_eq)
  then have path': "path_bits (drop_bit 1 ?n) (?n AND 1) 1 = (m', b')"
    using path by (simp add: path_bits.simps [of ?n])
  have half: "1 \<le> (length xs + 1) div 2" "(length xs + 1) div 2 \<le> length xs"
    using len by (cases xs; simp)+
  have "descend mem 1 m' b' (root h) =
      descend mem 1 (?n AND 1) 1 (pos xs (unat (drop_bit 1 ?n)))"
    using n half len(2)
    by (intro descend_path_bits [OF rep path']) (auto simp: word_le_nat_alt unat_drop_1 unat_and_1)
  then show ?thesis using n by (simp add: descend.simps unat_drop_1)
qed

section \<open>Linking and unlinking nodes\<close>

lemma append_node_rep:
  assumes rep: "heap_rep h mem xs" and xs: "xs \<noteq> []" "length xs + 1 < 2 ^ 32"
    and new: "x \<notin> set xs" and lst: "pos xs ((length xs + 1) div 2) = Some l"
    and mem1: "mem1 = (if left (mem l) = None then set_left mem l (Some x)
      else set_right mem l (Some x))"
  shows "heap_rep (h\<lparr>heap_size := heap_size h + 1\<rparr>)
    (set_right (set_left (set_parent mem1 x (Some l)) x None) x None) (xs @ [x])"
    (is "heap_rep ?h ?mem ?ys")
proof (rule heap_repI)
  note D = heap_repD [OF rep]
  define j where "j = (length xs + 1) div 2"
  have j: "pos xs j = Some l" "1 \<le> j" "length xs + 1 = 2 * j \<or> length xs + 1 = 2 * j + 1"
    using lst pos_SomeD [OF lst] by (auto simp: j_def)
  have lx: "l \<noteq> x" using pos_SomeD [OF j(1)] new by auto
  have left_l: "left (mem l) = None \<longleftrightarrow> length xs + 1 = 2 * j"
    using D(4) [OF j(1)] j(2,3) by (auto simp: pos_None_iff)
  have fields: "left (?mem y) = (if y = x then None else if y = l \<and> length xs + 1 = 2 * j then Some x
      else left (mem y))" "right (?mem y) = (if y = x then None
      else if y = l \<and> length xs + 1 \<noteq> 2 * j then Some x else right (mem y))"
    "parent (?mem y) = (if y = x then Some l else parent (mem y))" for y
    using lx by (auto simp: mem1 left_l)
  show "distinct ?ys" using D(1) new by simp
  show "root ?h = pos ?ys 1" using D(2) xs by (simp add: pos_snoc)
  show "unat (heap_size ?h) = length ?ys"
    using D(3) xs(2) by (simp add: unat_word_ariths)
  have at_end: "2 * k = length xs + 1 \<longleftrightarrow> k = j \<and> length xs + 1 = 2 * j"
      "2 * k + 1 = length xs + 1 \<longleftrightarrow> k = j \<and> length xs + 1 \<noteq> 2 * j" for k
    using j(3) by presburger+
  have yl: "y = l \<longleftrightarrow> k = j" if "pos xs k = Some y" for k y
    using pos_eq_iff [OF D(1) j(1), of k] that by auto
  fix k y
  assume y: "pos ?ys k = Some y"
  show "left (?mem y) = pos ?ys (2 * k)" and "right (?mem y) = pos ?ys (2 * k + 1)"
    and "parent (?mem y) = pos ?ys (k div 2)"
  proof -
    show "left (?mem y) = pos ?ys (2 * k)"
    proof (cases "k = length xs + 1")
      case True
      then show ?thesis using y unfolding fields by (simp add: pos_snoc)
    next
      case False
      then have y: "pos xs k = Some y" using y by (simp add: pos_snoc)
      moreover have "y \<noteq> x" using pos_SomeD [OF y] new by auto
      ultimately show ?thesis
        using D(4) [OF y] yl [OF y] at_end(1) [of k] 
        unfolding fields by (cases "2 * k = length xs + 1") (auto simp: pos_snoc)
    qed
    show "right (?mem y) = pos ?ys (2 * k + 1)"
    proof (cases "k = length xs + 1")
      case True
      then show ?thesis using y unfolding fields by (simp add: pos_snoc)
    next
      case False
      then have y: "pos xs k = Some y" using y by (simp add: pos_snoc)
      moreover have "y \<noteq> x" using pos_SomeD [OF y] new by auto
      ultimately show ?thesis
        using D(5) [OF y] yl [OF y] at_end(2) [of k] 
        unfolding fields by (cases "2 * k + 1 = length xs + 1") (auto simp: pos_snoc)
    qed
    show "parent (?mem y) = pos ?ys (k div 2)"
    proof (cases "k = length xs + 1")
      case True
      then show ?thesis using y xs lst unfolding fields by (auto simp: pos_snoc)
    next
      case False
      then have y: "pos xs k = Some y" using y by (simp add: pos_snoc)
      moreover have "y \<noteq> x" using pos_SomeD [OF y] new by auto
      ultimately show ?thesis
        using D(6) [OF y] pos_SomeD [OF y] unfolding fields by (auto simp: pos_snoc)
    qed
  qed
qed

lemma unlink_last_rep:
  assumes rep: "heap_rep h mem xs" and xs: "2 \<le> length xs"
  shows "heap_rep (h\<lparr>heap_size := heap_size h - 1\<rparr>)
    (replace_child mem (parent (mem (last xs))) (last xs) None) (butlast xs)"
    (is "heap_rep ?h ?mem ?ys")
proof (rule heap_repI)
  note D = heap_repD [OF rep]
  let ?l = "last xs"
  define j where "j = length xs div 2"
  have j: "1 \<le> j" "length xs = 2 * j \<or> length xs = 2 * j + 1" "j < length xs"
    using xs by (auto simp: j_def)
  have l: "pos xs (length xs) = Some ?l" using xs by (intro pos_last) auto
  have par: "parent (mem ?l) = pos xs j" using D(6) [OF l] by (simp add: j_def)
  have isl: "pos xs k = Some ?l \<longleftrightarrow> k = length xs" for k
    using pos_eq_iff [OF D(1) l, of k] by auto
  show "distinct ?ys" using D(1) by (rule distinct_butlast)
  show "root ?h = pos ?ys 1" using D(2) xs by (simp add: pos_butlast)
  have "1 \<le> heap_size h" using D(3) xs by (simp add: word_le_nat_alt)
  then show "unat (heap_size ?h) = length ?ys" using D(3) by (simp add: unat_sub)
  fix k y
  assume "pos ?ys k = Some y"
  then have y: "pos xs k = Some y" and k: "k \<noteq> length xs" by (auto simp: pos_butlast split: if_splits)
  have jy: "pos xs j = Some y \<longleftrightarrow> j = k" using pos_eq_iff [OF D(1) y, of j] by auto
  show "left (?mem y) = pos ?ys (2 * k)"
    using D(4) [OF y] j by (auto simp: par jy isl pos_butlast)
  show "right (?mem y) = pos ?ys (2 * k + 1)"
    using D(4,5) [OF y] j by (auto simp: par jy isl pos_butlast)
  have "k div 2 \<noteq> length xs" using pos_SomeD [OF y] by auto
  then show "parent (?mem y) = pos ?ys (k div 2)"
    using D(6) [OF y] by (simp add: pos_butlast)
qed

lemma replace_node_rep:
  assumes rep: "heap_rep h mem ys" and r: "pos ys p = Some r" and z: "z \<notin> set ys"
    and mem1: "mem1 = set_parent_of (set_parent_of (replace_child mem (parent (mem r)) r (Some z))
      (left (mem r)) (Some z)) (right (mem r)) (Some z)"
  shows "heap_rep (if parent (mem r) = None then h\<lparr>root := Some z\<rparr> else h)
    (set_parent (set_right (set_left mem1 z (left (mem r))) z (right (mem r))) z (parent (mem r)))
    (ys[p - 1 := z])" (is "heap_rep ?h ?mem ?zs")
proof (rule heap_repI)
  note D = heap_repD [OF rep]
  have p: "1 \<le> p" "p \<le> length ys" using pos_SomeD [OF r] by auto
  have zs: "pos (ys[p - Suc 0 := z]) k = (if k = p then Some z else pos ys k)" for k
    using pos_update [OF p(1), of ys z k] p by auto
  have isr: "pos ys k = Some r \<longleftrightarrow> k = p" for k using pos_eq_iff [OF D(1) r, of k] by auto
  have notz: "pos ys k \<noteq> Some z" for k using z by (auto dest: pos_SomeD)
  have par: "parent (mem r) = pos ys (p div 2)" by (rule D(6) [OF r])
  show "distinct ?zs" using D(1) z by (simp add: distinct_list_update)
  show "root ?h = pos ?zs 1"
  proof (cases "p = 1")
    case False
    then have "parent (mem r) \<noteq> None" using p par by (simp add: pos_None_iff)
    then have "?h = h" by (rule if_not_P)
    then show ?thesis using False D(2) zs [of 1] by simp
  qed (use par zs [of 1] in simp)
  show "unat (heap_size ?h) = length ?zs" using D(3) by simp
  fix k y
  assume y: "pos ?zs k = Some y"
  consider (new) "k = p" "y = z" | (other) "k \<noteq> p" "pos ys k = Some y" "y \<noteq> z" "y \<noteq> r"
    using y isr notz by (auto simp: zs split: if_splits)
  note yc = this
  have k1: "1 \<le> k" using pos_SomeD [OF y] by simp
  have isy: "pos ys j = Some y \<longleftrightarrow> j = k" if "pos ys k = Some y" for j
    using pos_eq_iff [OF D(1) that, of j] by auto
  have kids: "p div 2 = k \<longleftrightarrow> p = 2 * k \<or> p = 2 * k + 1" "k div 2 = p \<longleftrightarrow> k = 2 * p \<or> k = 2 * p + 1"
    by linarith+
  from yc show "left (?mem y) = pos ?zs (2 * k)"
  proof cases
    case new
    then show ?thesis using D(4) [OF r] p by (simp add: zs)
  next
    case other
    then show ?thesis using D(4) [OF other(2)] isy [OF other(2)]
      by (auto simp: mem1 par zs isr kids)
  qed
  from yc show "right (?mem y) = pos ?zs (2 * k + 1)"
  proof cases
    case new
    then show ?thesis using D(5) [OF r] p by (simp add: zs)
  next
    case other
    then show ?thesis using D(4,5) [OF other(2)] isy [OF other(2)]
      by (auto simp: mem1 par zs isr kids)
  qed
  from yc show "parent (?mem y) = pos ?zs (k div 2)"
  proof cases
    case new
    then show ?thesis using par p by (simp add: zs)
  next
    case other
    then show ?thesis using D(6) [OF other(2)] D(4,5) [OF r] isy [OF other(2)]
      by (auto simp: mem1 zs kids)
  qed
qed

end
