(* ===== verification/Heap_Correct.thy ===== *)
theory Heap_Correct
  imports Heap_Refinement
begin

text \<open>
  Insertion and removal of the pointer heap, under a comparator that returns 1 when its first
  argument has the smaller key and 0 otherwise (\<open>key_heap\<close>): both keep a correctly linked,
  complete tree in heap order, never follow a \<open>NULL\<close> pointer and end; insertion adds the node
  and removal takes away exactly the node it is given. Together with \<open>heap_peek\<close> this makes the
  heap a priority queue (locale \<open>priority_queue\<close>, interpreted in the theory of the timers).
\<close>

section \<open>Heap order on a list in level order\<close>

abbreviation el :: "'a list \<Rightarrow> nat \<Rightarrow> 'a" where
  "el xs i \<equiv> xs ! (i - 1)"

definition heap_ordered :: "('a \<Rightarrow> 'k::linorder) \<Rightarrow> 'a list \<Rightarrow> bool" where
  "heap_ordered key xs \<longleftrightarrow> (\<forall>i \<in> {2..length xs}. key (el xs (i div 2)) \<le> key (el xs i))"

lemma heap_ordered_cong:
  assumes "heap_ordered key xs" "\<And>x. x \<in> set xs \<Longrightarrow> key' x = key x"
  shows "heap_ordered key' xs"
proof -
  have "el xs i \<in> set xs" if "1 \<le> i" "i \<le> length xs" for i using that by simp
  then have "key' (el xs i) = key (el xs i)" if "1 \<le> i" "i \<le> length xs" for i
    using assms(2) that by blast
  then have "key' (el xs (k div 2)) \<le> key' (el xs k)" if "2 \<le> k" "k \<le> length xs" for k
    using assms(1) that unfolding heap_ordered_def by fastforce
  then show ?thesis by (simp add: heap_ordered_def)
qed

text \<open>\<open>up_inv\<close> and \<open>down_inv\<close> are the loop invariants: the order may be broken only at \<open>i\<close>.\<close>

definition up_inv :: "('a \<Rightarrow> 'k::linorder) \<Rightarrow> 'a list \<Rightarrow> nat \<Rightarrow> bool" where
  "up_inv key xs i \<longleftrightarrow>
     (\<forall>k \<in> {2..length xs}. k \<noteq> i \<longrightarrow> key (el xs (k div 2)) \<le> key (el xs k)) \<and>
     (2 \<le> i \<longrightarrow> (\<forall>k \<in> {2..length xs}. k div 2 = i \<longrightarrow> key (el xs (i div 2)) \<le> key (el xs k)))"

definition down_inv :: "('a \<Rightarrow> 'k::linorder) \<Rightarrow> 'a list \<Rightarrow> nat \<Rightarrow> bool" where
  "down_inv key xs i \<longleftrightarrow>
     (\<forall>k \<in> {2..length xs}. k \<noteq> i \<longrightarrow> k div 2 \<noteq> i \<longrightarrow> key (el xs (k div 2)) \<le> key (el xs k)) \<and>
     (2 \<le> i \<longrightarrow> (\<forall>k \<in> {2..length xs}. k div 2 = i \<longrightarrow> key (el xs (i div 2)) \<le> key (el xs k)))"

lemma el_pos: "pos xs i = Some x \<Longrightarrow> el xs i = x"
  by (simp add: pos_Some_iff)

lemma pos_el: "1 \<le> i \<Longrightarrow> i \<le> length xs \<Longrightarrow> pos xs i = Some (el xs i)"
  by (simp add: pos_def)

lemma el_swap_at:
  assumes "1 \<le> i" "i \<le> length xs" "1 \<le> j" "j \<le> length xs" "1 \<le> k"
  shows "el (swap_at xs i j) k = (if k = i then el xs j else if k = j then el xs i else el xs k)"
  using assms by (auto simp: swap_at_def nth_list_update)

lemma up_inv_stop:
  assumes "up_inv key xs i" "2 \<le> i \<Longrightarrow> i \<le> length xs \<Longrightarrow> key (el xs (i div 2)) \<le> key (el xs i)"
  shows "heap_ordered key xs"
  using assms by (auto simp: up_inv_def heap_ordered_def)

lemma up_inv_step:
  assumes inv: "up_inv key xs i" and i: "2 \<le> i" "i \<le> length xs"
    and less: "key (el xs i) < key (el xs (i div 2))"
  shows "up_inv key (swap_at xs i (i div 2)) (i div 2)"
proof -
  define j where "j = i div 2"
  have j: "1 \<le> j" "j < i" "j \<le> length xs" "j div 2 < j" using i by (auto simp: j_def)
  let ?ys = "swap_at xs i j"
  have ys: "el ?ys k = (if k = i then el xs j else if k = j then el xs i else el xs k)"
    if "1 \<le> k" for k
    using el_swap_at [of i xs j k] i j that by auto
  have less: "key (el xs i) < key (el xs j)" using less by (simp add: j_def)
  have ok: "key (el xs (k div 2)) \<le> key (el xs k)" if "2 \<le> k" "k \<le> length xs" "k \<noteq> i" for k
    using inv that by (auto simp: up_inv_def)
  have below: "key (el xs j) \<le> key (el xs k)" if "2 \<le> k" "k \<le> length xs" "k div 2 = i" for k
    using inv that i by (auto simp: up_inv_def j_def)
  have "key (el ?ys (k div 2)) \<le> key (el ?ys k)" if k: "2 \<le> k" "k \<le> length xs" "k \<noteq> j" for k
  proof -
    have k1: "1 \<le> k" "1 \<le> k div 2" using k by auto
    consider "k = i" | "k \<noteq> i" "k div 2 = j" | "k div 2 = i" | "k \<noteq> i" "k div 2 \<noteq> j" "k div 2 \<noteq> i"
      by blast
    then show ?thesis
    proof cases
      case 1
      then have "k div 2 = j" by (simp add: j_def)
      then show ?thesis using 1 less j k1 by (simp only: ys) auto
    next
      case 2
      then have "key (el xs j) \<le> key (el xs k)" using ok [of k] k by auto
      then show ?thesis using 2 less k1 k(3) by (simp only: ys) auto
    next
      case 3
      then have "k \<noteq> i" using i by auto
      then show ?thesis using 3 below [of k] k k1 j by (simp only: ys) auto
    next
      case 4
      then show ?thesis using ok [of k] k k1 by (simp only: ys) auto
    qed
  qed
  moreover have "key (el ?ys (j div 2)) \<le> key (el ?ys k)"
    if "2 \<le> j" and k: "2 \<le> k" "k \<le> length xs" "k div 2 = j" for k
  proof -
    have jj: "key (el xs (j div 2)) \<le> key (el xs j)" using ok [of j] that j by auto
    have "1 \<le> j div 2" "j div 2 \<noteq> i" "j div 2 \<noteq> j" using \<open>2 \<le> j\<close> j by auto
    then have top: "el ?ys (j div 2) = el xs (j div 2)" by (simp only: ys) auto
    show ?thesis
    proof (cases "k = i")
      case True
      then show ?thesis using jj top k by (simp only: ys) auto
    next
      case False
      then have "key (el xs j) \<le> key (el xs k)" using ok [of k] k by auto
      then show ?thesis using jj top False k j by (simp only: ys) auto
    qed
  qed
  ultimately show ?thesis unfolding j_def [symmetric] up_inv_def by auto
qed

lemma down_inv_stop:
  assumes "down_inv key xs i"
    and "\<And>k. 2 \<le> k \<Longrightarrow> k \<le> length xs \<Longrightarrow> k div 2 = i \<Longrightarrow> key (el xs i) \<le> key (el xs k)"
  shows "up_inv key xs i"
  using assms unfolding up_inv_def down_inv_def by fastforce

lemma down_inv_step:
  assumes inv: "down_inv key xs i" and s: "2 \<le> s" "s \<le> length xs" "s div 2 = i"
    and le: "key (el xs s) \<le> key (el xs i)"
    and least: "\<And>k. 2 \<le> k \<Longrightarrow> k \<le> length xs \<Longrightarrow> k div 2 = i \<Longrightarrow> key (el xs s) \<le> key (el xs k)"
  shows "down_inv key (swap_at xs s i) s"
proof -
  have i: "1 \<le> i" "i < s" "i \<le> length xs" using s by auto
  let ?ys = "swap_at xs s i"
  have ys: "el ?ys k = (if k = s then el xs i else if k = i then el xs s else el xs k)"
    if "1 \<le> k" for k
    using el_swap_at [of s xs i k] i s that by auto
  have ok: "key (el xs (k div 2)) \<le> key (el xs k)"
    if "2 \<le> k" "k \<le> length xs" "k \<noteq> i" "k div 2 \<noteq> i" for k
    using inv that by (auto simp: down_inv_def)
  have above: "key (el xs (i div 2)) \<le> key (el xs s)" if "2 \<le> i"
    using inv that s by (auto simp: down_inv_def)
  have "key (el ?ys (k div 2)) \<le> key (el ?ys k)"
    if k: "2 \<le> k" "k \<le> length xs" "k \<noteq> s" "k div 2 \<noteq> s" for k
  proof -
    have k1: "1 \<le> k" "1 \<le> k div 2" using k by auto
    consider "k = i" | "k \<noteq> i" "k div 2 = i" | "k \<noteq> i" "k div 2 \<noteq> i" by blast
    then show ?thesis
    proof cases
      case 1
      then have "k div 2 \<noteq> i" using k by auto
      then show ?thesis using 1 above k k1 i by (simp only: ys) auto
    next
      case 2
      then show ?thesis using least [of k] k k1 by (simp only: ys) auto
    next
      case 3
      then show ?thesis using ok [of k] k k1 by (simp only: ys) auto
    qed
  qed
  moreover have "key (el ?ys (s div 2)) \<le> key (el ?ys k)"
    if k: "2 \<le> k" "k \<le> length xs" "k div 2 = s" for k
  proof -
    have "k \<noteq> s" "k \<noteq> i" using k s i by auto
    moreover have "key (el xs s) \<le> key (el xs k)" using ok [of k] k s i by auto
    ultimately show ?thesis using k s i by (simp only: ys) auto
  qed
  ultimately show ?thesis using s unfolding down_inv_def by auto
qed

lemma heap_ordered_min:
  assumes "heap_ordered key xs" "1 \<le> i" "i \<le> length xs"
  shows "key (el xs 1) \<le> key (el xs i)"
  using assms(2,3)
proof (induction i rule: less_induct)
  case (less i)
  show ?case
  proof (cases "i = 1")
    case False
    then have i: "2 \<le> i" "1 \<le> i div 2" "i div 2 < i" using less.prems by auto
    have "key (el xs 1) \<le> key (el xs (i div 2))" using less i by auto
    also have "\<dots> \<le> key (el xs i)" using assms(1) i less.prems by (auto simp: heap_ordered_def)
    finally show ?thesis .
  qed simp
qed

section \<open>The loops\<close>

locale key_heap =
  fixes cmp :: "'m \<Rightarrow> 'a \<Rightarrow> 'a \<Rightarrow> int"
    and key :: "'m \<Rightarrow> 'a \<Rightarrow> 'k::linorder"
  assumes cmp_key: "cmp m a b = (if key m a < key m b then 1 else 0)"
begin

lemma sift_up_correct:
  assumes "test 1" "\<not> test 0" "comparator h = cmp" "heap_rep h mem xs" "pos xs i = Some node"
    "up_inv (key m) xs i"
  shows "\<exists>h' mem' ys. sift_up test m node h mem = Some (h', mem') \<and> heap_rep h' mem' ys \<and>
    mset ys = mset xs \<and> heap_ordered (key m) ys \<and> comparator h' = cmp \<and>
    (\<forall>y. y \<notin> set xs \<longrightarrow> mem' y = mem y)"
  using assms(3-)
proof (induction i arbitrary: h mem xs rule: less_induct)
  case (less i)
  note rep = less.prems(2) and node = less.prems(3) and inv = less.prems(4)
  have i: "1 \<le> i" "i \<le> length xs" and el: "el xs i = node"
    using pos_SomeD [OF node] el_pos [OF node] by auto
  have par: "parent (mem node) = pos xs (i div 2)" by (rule heap_repD(6) [OF rep node])
  show ?case
  proof (cases "i = 1")
    case True
    have "heap_ordered (key m) xs" using inv by (rule up_inv_stop) (use True in auto)
    moreover have "sift_up test m node h mem = Some (h, mem)"
      using par True by (simp add: sift_up.simps)
    ultimately show ?thesis using rep less.prems(1) by blast
  next
    case False
    with i have i2: "2 \<le> i" "1 \<le> i div 2" "i div 2 \<le> length xs" "i div 2 < i" by auto
    then have p: "pos xs (i div 2) = Some (el xs (i div 2))" by (simp add: pos_el)
    show ?thesis
    proof (cases "key m node < key m (el xs (i div 2))")
      case False
      have "heap_ordered (key m) xs" using inv by (rule up_inv_stop) (use False el in auto)
      moreover have "sift_up test m node h mem = Some (h, mem)"
        using par p False less.prems(1) assms(2) by (simp add: sift_up.simps cmp_key)
      ultimately show ?thesis using rep less.prems(1) by blast
    next
      case True
      let ?ys = "swap_at xs i (i div 2)"
      from heap_swap_rep [OF rep i2(1) node p] obtain h1 mem1 where
        sw: "heap_swap h mem node (el xs (i div 2)) = (h1, mem1)" and rep1: "heap_rep h1 mem1 ?ys"
        and cmp1: "comparator h1 = cmp" and frame1: "\<And>y. y \<notin> set xs \<Longrightarrow> mem1 y = mem y"
        using less.prems(1) by metis
      have eq: "sift_up test m node h mem = sift_up test m node h1 mem1"
        using par p True less.prems(1) assms(1) sw by (simp add: sift_up.simps [of test m node h] cmp_key)
      have pos1: "pos ?ys (i div 2) = Some node"
        using i i2 node by (simp add: pos_swap_at)
      have inv1: "up_inv (key m) ?ys (i div 2)"
        by (rule up_inv_step [OF inv i2(1) i(2)]) (use True el in simp)
      have "mset ?ys = mset xs" using i i2 by (intro mset_swap_at) auto
      then show ?thesis
        using less.IH [OF i2(4) cmp1 rep1 pos1 inv1] eq frame1 i i2 by auto
    qed
  qed
qed

lemma choose_child_cases:
  assumes "comparator h = cmp" "heap_rep h mem xs" "pos xs i = Some node"
  obtains (leaf) "choose_child h m mem node = None" "length xs < 2 * i"
  | (child) s where "choose_child h m mem node = Some (el xs s)" "2 \<le> s" "s \<le> length xs"
      "s div 2 = i"
      "\<And>k. 2 \<le> k \<Longrightarrow> k \<le> length xs \<Longrightarrow> k div 2 = i \<Longrightarrow> key m (el xs s) \<le> key m (el xs k)"
proof -
  have i: "1 \<le> i" using pos_SomeD [OF assms(3)] by auto
  have l: "left (mem node) = pos xs (2 * i)" and r: "right (mem node) = pos xs (2 * i + 1)"
    using heap_repD(4,5) [OF assms(2,3)] .
  have kids: "k = 2 * i \<or> k = 2 * i + 1" if "k div 2 = i" for k using that by auto
  consider "length xs < 2 * i" | "2 * i = length xs" | "2 * i + 1 \<le> length xs" by linarith
  then show thesis
  proof cases
    case 1
    then show thesis using l r by (intro leaf) (simp_all add: choose_child_def)
  next
    case 2
    show thesis
    proof (rule child [of "2 * i"])
      show "choose_child h m mem node = Some (el xs (2 * i))"
        using 2 i l r by (simp add: choose_child_def pos_el del: One_nat_def)
      fix k assume "2 \<le> k" "k \<le> length xs" "k div 2 = i"
      then have "k = 2 * i" using kids [of k] 2 by auto
      then show "key m (el xs (2 * i)) \<le> key m (el xs k)" by simp
    qed (use 2 i in auto)
  next
    case 3
    then have l: "left (mem node) = Some (el xs (2 * i))" and
      r: "right (mem node) = Some (el xs (2 * i + 1))"
      using l r i by (auto simp: pos_def)
    let ?s = "if key m (el xs (2 * i)) < key m (el xs (2 * i + 1)) then 2 * i else 2 * i + 1"
    show thesis
    proof (rule child [of ?s])
      show "choose_child h m mem node = Some (el xs ?s)"
        using l r assms(1) by (simp add: choose_child_def cmp_key)
      fix k assume "2 \<le> k" "k \<le> length xs" "k div 2 = i"
      then have "k = 2 * i \<or> k = 2 * i + 1" using kids by blast
      then show "key m (el xs ?s) \<le> key m (el xs k)" by auto
    qed (use 3 i in auto)
  qed
qed

lemma sift_down_correct:
  assumes "comparator h = cmp" "heap_rep h mem xs" "pos xs i = Some node" "down_inv (key m) xs i"
  shows "\<exists>h' mem' ys j. sift_down m node h mem = Some (h', mem') \<and> heap_rep h' mem' ys \<and>
    mset ys = mset xs \<and> pos ys j = Some node \<and> up_inv (key m) ys j \<and> comparator h' = cmp \<and>
    (\<forall>y. y \<notin> set xs \<longrightarrow> mem' y = mem y)"
  using assms
proof (induction "length xs - i" arbitrary: i h mem xs rule: less_induct)
  case less
  note cmp = less.prems(1) and rep = less.prems(2) and node = less.prems(3) and inv = less.prems(4)
  have i: "1 \<le> i" "i \<le> length xs" and el: "el xs i = node"
    using pos_SomeD [OF node] el_pos [OF node] by auto
  from cmp rep node show ?case
  proof (cases rule: choose_child_cases [where m = m])
    case leaf
    have "up_inv (key m) xs i" using inv by (rule down_inv_stop) (use leaf in auto)
    moreover have "sift_down m node h mem = Some (h, mem)"
      using leaf by (simp add: sift_down.simps)
    ultimately show ?thesis using rep cmp node by blast
  next
    case (child s)
    show ?thesis
    proof (cases "key m node < key m (el xs s)")
      case True
      have "up_inv (key m) xs i"
        using inv by (rule down_inv_stop) (use True child(5) el in \<open>fastforce\<close>)
      moreover have "sift_down m node h mem = Some (h, mem)"
        using child(1) True cmp by (simp add: sift_down.simps cmp_key)
      ultimately show ?thesis using rep cmp node by blast
    next
      case False
      let ?ys = "swap_at xs s i"
      have s: "pos xs s = Some (el xs s)" "pos xs (s div 2) = Some node"
        using child node by (simp_all add: pos_el)
      from heap_swap_rep [OF rep child(2) s] obtain h1 mem1 where
        sw: "heap_swap h mem (el xs s) node = (h1, mem1)" and rep1: "heap_rep h1 mem1 ?ys"
        and cmp1: "comparator h1 = cmp" and frame1: "\<And>y. y \<notin> set xs \<Longrightarrow> mem1 y = mem y"
        using cmp child(4) by metis
      have eq: "sift_down m node h mem = sift_down m node h1 mem1"
        using child(1) False cmp sw by (simp add: sift_down.simps [of m node h] cmp_key)
      have pos1: "pos ?ys s = Some node"
        using i child s by (simp add: pos_swap_at)
      have inv1: "down_inv (key m) ?ys s"
        by (rule down_inv_step [OF inv child(2-4)]) (use False child(5) el in auto)
      have "mset ?ys = mset xs" using i child by (intro mset_swap_at) auto
      moreover have "length ?ys - s < length xs - i" using i child by auto
      ultimately show ?thesis
        using less.hyps [OF _ cmp1 rep1 pos1 inv1] eq frame1 i child by auto
    qed
  qed
qed

end

section \<open>Insertion and removal\<close>

lemma up_inv_append: "heap_ordered key xs \<Longrightarrow> up_inv key (xs @ [x]) (length xs + 1)"
  unfolding heap_ordered_def up_inv_def by (auto simp: nth_append)

lemma heap_ordered_butlast: "heap_ordered key xs \<Longrightarrow> heap_ordered key (butlast xs)"
  unfolding heap_ordered_def by (auto simp: nth_butlast)

lemma down_inv_replace:
  assumes ord: "heap_ordered key ys" and p: "1 \<le> p" "p \<le> length ys"
  shows "down_inv key (ys[p - 1 := z]) p"
proof -
  have el: "el (ys[p - 1 := z]) k = (if k = p then z else el ys k)" if "1 \<le> k" for k
    using that p by (auto simp: nth_list_update)
  have ok: "key (el ys (k div 2)) \<le> key (el ys k)" if "2 \<le> k" "k \<le> length ys" for k
    using ord that by (auto simp: heap_ordered_def)
  have "key (el (ys[p - 1 := z]) (p div 2)) \<le> key (el (ys[p - 1 := z]) k)"
    if "2 \<le> p" "2 \<le> k" "k \<le> length ys" "k div 2 = p" for k
  proof -
    have "key (el ys (p div 2)) \<le> key (el ys k)"
      using ok [of p] ok [of k] that p by auto
    moreover have "p div 2 \<noteq> p" "k \<noteq> p" "1 \<le> p div 2" "1 \<le> k" using that by auto
    ultimately show ?thesis by (simp only: el) simp
  qed
  moreover have "key (el (ys[p - 1 := z]) (k div 2)) \<le> key (el (ys[p - 1 := z]) k)"
    if "2 \<le> k" "k \<le> length ys" "k \<noteq> p" "k div 2 \<noteq> p" for k
    using ok [of k] that by (simp only: el) simp
  ultimately show ?thesis unfolding down_inv_def by (simp only: length_list_update) auto
qed

context key_heap
begin

lemma heap_insert_correct:
  assumes cmp: "comparator h = cmp" and rep: "heap_rep h mem xs" and ord: "heap_ordered (key m) xs"
    and new: "x \<notin> set xs" and len: "length xs + 1 < 2 ^ 32"
  shows "\<exists>h' mem' ys. heap_insert m h mem x = Inr (h', mem') \<and> heap_rep h' mem' ys \<and>
    mset ys = add_mset x (mset xs) \<and> heap_ordered (key m) ys \<and> comparator h' = cmp \<and>
    (\<forall>y. y \<notin> insert x (set xs) \<longrightarrow> mem' y = mem y)"
proof (cases "xs = []")
  case True
  let ?h = "h\<lparr>root := Some x, heap_size := heap_size h + 1\<rparr>"
  let ?mem = "set_right (set_left (set_parent mem x None) x None) x None"
  have "heap_size h = 0" using heap_repD(3) [OF rep] True by (simp add: unat_eq_zero)
  then have "heap_rep ?h ?mem [x]" by (simp add: heap_rep_def pos_def)
  moreover have "heap_insert m h mem x = Inr (?h, ?mem)"
    using heap_rep_root_None [OF rep] True by (simp add: heap_insert_def)
  moreover have "heap_ordered (key m) [x]" by (simp add: heap_ordered_def)
  ultimately show ?thesis
    using True cmp by (intro exI [of _ ?h] exI [of _ ?mem] exI [of _ "[x]"])
      (auto simp: heap_fields)
next
  case False
  obtain m' b' where path: "path_bits (ucast (heap_size h + 1)) 0 0 = (m', b')" by fastforce
  have half: "1 \<le> (length xs + 1) div 2" "(length xs + 1) div 2 \<le> length xs"
    using False by (cases xs; simp)+
  then obtain l where l: "pos xs ((length xs + 1) div 2) = Some l"
    using pos_in_range by blast
  define mem1 where "mem1 = (if left (mem l) = None then set_left mem l (Some x)
    else set_right mem l (Some x))"
  define mem2 where "mem2 = set_right (set_left (set_parent mem1 x (Some l)) x None) x None"
  let ?h = "h\<lparr>heap_size := heap_size h + 1\<rparr>"
  have rep2: "heap_rep ?h mem2 (xs @ [x])"
    unfolding mem2_def by (rule append_node_rep [OF rep False len new l mem1_def])
  obtain r0 where "root h = Some r0" using heap_rep_root_None [OF rep] False by auto
  then have ins: "heap_insert m h mem x = loop_res (sift_up (\<lambda>c. c > 0) m x ?h mem2)"
    using path descend_to_parent [OF rep False len path] l
    by (simp add: heap_insert_def mem1_def mem2_def Let_def)
  obtain h' mem' ys where up: "sift_up (\<lambda>c. c > 0) m x ?h mem2 = Some (h', mem')"
    "heap_rep h' mem' ys" "mset ys = mset (xs @ [x])" "heap_ordered (key m) ys"
    "comparator h' = cmp" "\<And>y. y \<notin> set (xs @ [x]) \<Longrightarrow> mem' y = mem2 y"
    using sift_up_correct [of "\<lambda>c. c > 0" ?h mem2 "xs @ [x]" "length xs + 1" x m]
      rep2 up_inv_append [OF ord] cmp by (auto simp: pos_snoc)
  have "l \<in> set xs" using pos_SomeD [OF l] by simp
  then have "mem' y = mem y" if "y \<notin> insert x (set xs)" for y
    using up(6) [of y] that
    by (auto simp: mem2_def mem1_def heap_fields)
  with up ins show ?thesis by auto
qed

lemma heap_remove_correct:
  assumes cmp: "comparator h = cmp" and rep: "heap_rep h mem xs" and ord: "heap_ordered (key m) xs"
    and r: "r \<in> set xs" and len: "length xs < 2 ^ 32"
  shows "\<exists>h' mem' ys. heap_remove m h mem (Some r) = Inr (Some r, h', mem') \<and>
    heap_rep h' mem' ys \<and> mset ys = mset xs - {#r#} \<and> heap_ordered (key m) ys \<and>
    comparator h' = cmp \<and> (\<forall>y. y \<notin> set xs \<longrightarrow> mem' y = mem y)"
proof -
  from r have xs: "xs \<noteq> []" by auto
  have size: "unat (heap_size h) = length xs" by (rule heap_repD(3) [OF rep])
  obtain r0 where rootN: "root h = Some r0" using heap_rep_root_None [OF rep] xs by auto
  have one: "heap_size h = 1 \<longleftrightarrow> length xs = 1"
    using size by (metis unat_1 word_unat_eq_iff)
  show ?thesis
  proof (cases "length xs = 1")
    case True
    let ?h = "h\<lparr>root := None, heap_size := 0\<rparr>"
    from True r have "xs = [r]" by (cases xs) auto
    moreover have "heap_remove m h mem (Some r) = Inr (Some r, ?h, mem)"
      using rootN one True by (simp add: heap_remove_def)
    moreover have "heap_rep ?h mem []" "heap_ordered (key m) []"
      by (simp_all add: heap_rep_def heap_ordered_def)
    ultimately show ?thesis
      using cmp by (intro exI [of _ ?h] exI [of _ mem] exI [of _ "[]"]) auto
  next
    case False
    with xs have len2: "2 \<le> length xs" by (cases xs) (auto simp: Suc_le_eq)
    obtain m' b' where path: "path_bits (ucast (heap_size h)) 0 0 = (m', b')" by fastforce
    let ?l = "last xs" and ?ys = "butlast xs"
    let ?h = "h\<lparr>heap_size := heap_size h - 1\<rparr>"
    define mem1 where "mem1 = replace_child mem (parent (mem ?l)) ?l None"
    have rep1: "heap_rep ?h mem1 ?ys"
      unfolding mem1_def by (rule unlink_last_rep [OF rep len2])
    have ord1: "heap_ordered (key m) ?ys" by (rule heap_ordered_butlast [OF ord])
    have frame1: "mem1 y = mem y" if "y \<notin> set xs" for y
      using heap_rep_frame(3) [OF rep that last_in_set [OF xs]]
      by (simp add: mem1_def replace_child_def heap_fields split: option.splits)
    have xsl: "xs = ?ys @ [?l]" using xs by simp
    have "distinct (?ys @ [?l])" using heap_repD(1) [OF rep] xs by simp
    then have l: "?l \<notin> set ?ys" by simp
    have mset_xs: "mset xs = add_mset ?l (mset ?ys)" and set_xs: "set xs = insert ?l (set ?ys)"
      by (subst (1) xsl, simp)+
    have not_one: "heap_size h \<noteq> 1" using one False by blast
    note start = rootN not_one path descend_to_last [OF rep xs len path]
    show ?thesis
    proof (cases "r = ?l")
      case True
      have "heap_remove m h mem (Some r) = Inr (Some r, ?h, mem1)"
        using start True by (simp add: heap_remove_def mem1_def)
      then show ?thesis
        using rep1 ord1 frame1 cmp True mset_xs
        by (intro exI [of _ ?h] exI [of _ mem1] exI [of _ ?ys]) simp
    next
      case False
      then have "r \<in> set ?ys" using r set_xs by simp
      then obtain p where p: "pos ?ys p = Some r" using in_set_pos by fastforce
      let ?h2 = "if parent (mem1 r) = None then ?h\<lparr>root := Some ?l\<rparr> else ?h"
      define mem2 where "mem2 = set_parent_of (set_parent_of (replace_child mem1 (parent (mem1 r)) r
        (Some ?l)) (left (mem1 r)) (Some ?l)) (right (mem1 r)) (Some ?l)"
      define mem3 where "mem3 = set_parent (set_right (set_left mem2 ?l (left (mem1 r))) ?l
        (right (mem1 r))) ?l (parent (mem1 r))"
      let ?zs = "?ys[p - 1 := ?l]"
      have p1: "1 \<le> p" "p \<le> length ?ys" and elp: "el ?ys p = r"
        using pos_SomeD [OF p] el_pos [OF p] by auto
      have rep3: "heap_rep ?h2 mem3 ?zs"
        unfolding mem3_def by (rule replace_node_rep [OF rep1 p l mem2_def])
      have frame3: "mem3 y = mem y" if "y \<notin> set xs" for y
      proof (rule heap_node.equality)
        have "y \<noteq> ?l" "y \<notin> set ?ys" using that set_xs by auto
        then show "left (mem3 y) = left (mem y)" "right (mem3 y) = right (mem y)"
          "parent (mem3 y) = parent (mem y)"
          using heap_rep_frame [OF rep1 _ \<open>r \<in> set ?ys\<close>, of y] frame1 [OF that]
          by (simp_all add: mem3_def mem2_def)
      qed simp
      have no_loop: "left (mem1 r) \<noteq> Some r" "right (mem1 r) \<noteq> Some r" "parent (mem1 r) \<noteq> Some r"
        using heap_repD(4-6) [OF rep1 p] pos_eq_iff [OF heap_repD(1) [OF rep1] p] p1 by auto
      have zs: "pos ?zs p = Some ?l" "down_inv (key m) ?zs p" "comparator ?h2 = cmp"
        using p1 cmp down_inv_replace [OF ord1 p1] by (auto simp: pos_def)
      obtain h4 mem4 us j where down: "sift_down m ?l ?h2 mem3 = Some (h4, mem4)"
        "heap_rep h4 mem4 us" "mset us = mset ?zs" "pos us j = Some ?l" "up_inv (key m) us j"
        "comparator h4 = cmp" "\<And>y. y \<notin> set ?zs \<Longrightarrow> mem4 y = mem3 y"
        using sift_down_correct [OF zs(3) rep3 zs(1,2)] by blast
      obtain h5 mem5 vs where up: "sift_up (\<lambda>c. c \<noteq> 0) m ?l h4 mem4 = Some (h5, mem5)"
        "heap_rep h5 mem5 vs" "mset vs = mset us" "heap_ordered (key m) vs"
        "comparator h5 = cmp" "\<And>y. y \<notin> set us \<Longrightarrow> mem5 y = mem4 y"
        using sift_up_correct [of "\<lambda>c. c \<noteq> 0", OF _ _ down(6,2,4,5)] by auto
      have eq: "heap_remove m h mem (Some r) = Inr (Some r, h5, mem5)"
        using start False down(1) [unfolded mem3_def mem2_def] up(1) no_loop
        by (cases "parent (mem1 r)")
          (simp_all add: heap_remove_def mem1_def [symmetric] Let_def)
      have "mset ?zs = add_mset ?l (mset ?ys - {#r#})"
        using p1 elp by (simp add: mset_update)
      also have "\<dots> = mset xs - {#r#}"
        using mset_xs False \<open>r \<in> set ?ys\<close> by simp
      finally have mz: "mset ?zs = mset xs - {#r#}" .
      then have ms: "mset vs = mset xs - {#r#}" using down(3) up(3) by simp
      have "set us \<subseteq> set xs" "set ?zs \<subseteq> set xs"
        using down(3) mz by (metis in_diffD set_mset_mset subsetI)+
      then have "\<forall>y. y \<notin> set xs \<longrightarrow> mem5 y = mem y"
        using frame3 down(7) up(6) by (metis subsetD)
      with eq up ms show ?thesis by blast
    qed
  qed
qed

end

section \<open>The heap as a priority queue\<close>

text \<open>
  The contract the timers rely on, without the tree: a finite set of elements, smallest key
  first, where the keys live in the memory \<open>m\<close> of the elements and must not change while an
  element is queued. \<open>pq_drain\<close> takes the first element out \<open>n\<close> times.
\<close>

fun pq_drain :: "('q \<Rightarrow> ('a option \<times> 'q) res) \<Rightarrow> nat \<Rightarrow> 'q \<Rightarrow> ('a option list \<times> 'q) res" where
  "pq_drain pop 0 q = Inr ([], q)"
| "pq_drain pop (Suc n) q =
     bind_res (pop q) (\<lambda>(x, q). bind_res (pq_drain pop n q) (\<lambda>(xs, q). Inr (x # xs, q)))"

locale priority_queue =
  fixes rep :: "'m \<Rightarrow> 'q \<Rightarrow> 'a set \<Rightarrow> bool"
    and key :: "'m \<Rightarrow> 'a \<Rightarrow> 'k::linorder"
    and peek :: "'q \<Rightarrow> 'a option"
    and ins :: "'m \<Rightarrow> 'q \<Rightarrow> 'a \<Rightarrow> 'q res"
    and del :: "'m \<Rightarrow> 'q \<Rightarrow> 'a option \<Rightarrow> ('a option \<times> 'q) res"
  assumes rep_cong: "rep m q S \<Longrightarrow> (\<And>x. x \<in> S \<Longrightarrow> key m' x = key m x) \<Longrightarrow> rep m' q S"
    and rep_finite: "rep m q S \<Longrightarrow> finite S"
    and peek_empty: "rep m q S \<Longrightarrow> peek q = None \<longleftrightarrow> S = {}"
    and peek_in: "rep m q S \<Longrightarrow> peek q = Some x \<Longrightarrow> x \<in> S"
    and peek_min: "rep m q S \<Longrightarrow> peek q = Some x \<Longrightarrow> y \<in> S \<Longrightarrow> key m x \<le> key m y"
    and ins: "rep m q S \<Longrightarrow> x \<notin> S \<Longrightarrow> card S + 1 < 2 ^ 32 \<Longrightarrow>
      \<exists>q'. ins m q x = Inr q' \<and> rep m q' (insert x S)"
    and del: "rep m q S \<Longrightarrow> x \<in> S \<Longrightarrow> card S < 2 ^ 32 \<Longrightarrow>
      \<exists>q'. del m q (Some x) = Inr (Some x, q') \<and> rep m q' (S - {x})"
begin

lemma drain_sorted:
  "rep m q S \<Longrightarrow> card S < 2 ^ 32 \<Longrightarrow>
    \<exists>xs q'. pq_drain (\<lambda>q. del m q (peek q)) (card S) q = Inr (map Some xs, q') \<and>
      set xs = S \<and> distinct xs \<and> sorted (map (key m) xs) \<and> rep m q' {}"
proof (induction "card S" arbitrary: q S)
  case 0
  then have "S = {}" using rep_finite by (metis card_0_eq)
  then show ?case using 0 by auto
next
  case (Suc n)
  then have S: "finite S" "S \<noteq> {}" by (auto intro: rep_finite)
  then obtain x where x: "peek q = Some x" using peek_empty [OF Suc.prems(1)] by blast
  then have "x \<in> S" by (rule peek_in [OF Suc.prems(1)])
  then obtain q1 where q1: "del m q (Some x) = Inr (Some x, q1)" "rep m q1 (S - {x})"
    using del Suc.prems by blast
  have n: "n = card (S - {x})" using Suc.hyps(2) S \<open>x \<in> S\<close> by simp
  obtain xs q' where xs: "pq_drain (\<lambda>q. del m q (peek q)) n q1 = Inr (map Some xs, q')"
    "set xs = S - {x}" "distinct xs" "sorted (map (key m) xs)" "rep m q' {}"
    using Suc.hyps(1) [OF n q1(2)] n Suc.prems(2) Suc.hyps(2) by auto
  have "key m x \<le> key m y" if "y \<in> S" for y by (rule peek_min [OF Suc.prems(1) x that])
  then have "sorted (map (key m) (x # xs))" using xs(2,4) by auto
  moreover have "set (x # xs) = S" "distinct (x # xs)" using xs(2,3) \<open>x \<in> S\<close> by auto
  ultimately show ?case
    using q1 xs x by (subst Suc.hyps(2) [symmetric]) (intro exI [of _ "x # xs"] exI [of _ q'], simp)
qed

end

text \<open>The pointer heap, with its memory, provides the contract.\<close>

type_synonym ('m, 'a) heap_state = "('m, 'a) heap \<times> 'a heap_mem"

definition heap_holds ::
  "('m \<Rightarrow> 'a \<Rightarrow> 'a \<Rightarrow> int) \<Rightarrow> ('m \<Rightarrow> 'a \<Rightarrow> 'k::linorder) \<Rightarrow> 'm \<Rightarrow> ('m, 'a) heap_state \<Rightarrow> 'a set \<Rightarrow> bool"
  where "heap_holds cmp key m q S \<longleftrightarrow>
    comparator (fst q) = cmp \<and>
    (\<exists>xs. heap_rep (fst q) (snd q) xs \<and> heap_ordered (key m) xs \<and> set xs = S)"

lemma heap_holds_init: "heap_holds cmp key m (heap_init h cmp, mem) {}"
proof -
  have "comparator (heap_init h cmp) = cmp" by (simp add: heap_init_def)
  moreover have "heap_ordered (key m) []" by (simp add: heap_ordered_def)
  ultimately show ?thesis using heap_rep_init unfolding heap_holds_def by force
qed

sublocale key_heap \<subseteq> priority_queue "heap_holds cmp key" key "\<lambda>q. heap_peek (fst q)"
  "\<lambda>m q x. heap_insert m (fst q) (snd q) x" "\<lambda>m q x. heap_remove m (fst q) (snd q) x"
proof (unfold_locales, goal_cases)
  case (1 m q S m')
  then show ?case unfolding heap_holds_def by (blast intro: heap_ordered_cong)
next
  case (2 m q S)
  then show ?case by (auto simp: heap_holds_def)
next
  case (3 m q S)
  then show ?case by (auto simp: heap_holds_def heap_peek_def heap_rep_root_None)
next
  case (4 m q S x)
  then obtain xs where xs: "heap_rep (fst q) (snd q) xs" "set xs = S"
    by (auto simp: heap_holds_def)
  with 4 have "pos xs 1 = Some x" by (simp add: heap_peek_def heap_repD(2))
  then show ?case using xs(2) pos_SomeD by fastforce
next
  case (5 m q S x y)
  then obtain xs where xs: "heap_rep (fst q) (snd q) xs" "heap_ordered (key m) xs" "set xs = S"
    by (auto simp: heap_holds_def)
  with 5 have "pos xs 1 = Some x" by (simp add: heap_peek_def heap_repD(2))
  moreover obtain i where "pos xs i = Some y" using in_set_pos xs(3) 5(3) by fastforce
  ultimately show ?case
    using heap_ordered_min [OF xs(2), of i] by (auto simp: pos_Some_iff)
next
  case (6 m q S x)
  then obtain xs where xs: "comparator (fst q) = cmp" "heap_rep (fst q) (snd q) xs"
    "heap_ordered (key m) xs" "set xs = S" by (auto simp: heap_holds_def)
  moreover have "length xs + 1 < 2 ^ 32"
    using 6(3) xs(4) distinct_card [OF heap_repD(1) [OF xs(2)]] by simp
  ultimately obtain h' mem' ys where ys: "heap_insert m (fst q) (snd q) x = Inr (h', mem')"
    "heap_rep h' mem' ys" "mset ys = add_mset x (mset xs)" "heap_ordered (key m) ys"
    "comparator h' = cmp"
    using heap_insert_correct [OF xs(1-3), of x] 6(2) by blast
  have "set ys = insert x S"
    using xs(4) ys(3) by (metis set_mset_add_mset_insert set_mset_mset)
  then show ?case using ys unfolding heap_holds_def by (intro exI [of _ "(h', mem')"]) auto
next
  case (7 m q S x)
  then obtain xs where xs: "comparator (fst q) = cmp" "heap_rep (fst q) (snd q) xs"
    "heap_ordered (key m) xs" "set xs = S" by (auto simp: heap_holds_def)
  have d: "distinct xs" by (rule heap_repD(1) [OF xs(2)])
  then have "length xs < 2 ^ 32" using 7(3) xs(4) distinct_card [OF d] by simp
  then obtain h' mem' ys where ys: "heap_remove m (fst q) (snd q) (Some x) = Inr (Some x, h', mem')"
    "heap_rep h' mem' ys" "mset ys = mset xs - {#x#}" "heap_ordered (key m) ys" "comparator h' = cmp"
    using heap_remove_correct [OF xs(1-3)] xs(4) 7(2) by blast
  have "set ys = set_mset (mset xs - {#x#})" using ys(3) by (metis set_mset_mset)
  also have "\<dots> = S - {x}" using d xs(4) by (simp add: mset_remove1 [symmetric] set_remove1_eq del: mset_remove1)
  finally show ?case using ys unfolding heap_holds_def by (intro exI [of _ "(h', mem')"]) auto
qed

section \<open>Properties of the heap\<close>

fun heap_insert_all ::
  "'m \<Rightarrow> ('m, 'a) heap_state \<Rightarrow> 'a list \<Rightarrow> ('m, 'a) heap_state res" where
  "heap_insert_all m q [] = Inr q"
| "heap_insert_all m q (x # xs) =
     bind_res (heap_insert m (fst q) (snd q) x) (\<lambda>q. heap_insert_all m q xs)"

context key_heap
begin

lemma heap_insert_all_holds:
  "heap_holds cmp key m q S \<Longrightarrow> distinct xs \<Longrightarrow> set xs \<inter> S = {} \<Longrightarrow>
    card S + length xs < 2 ^ 32 \<Longrightarrow>
    \<exists>q'. heap_insert_all m q xs = Inr q' \<and> heap_holds cmp key m q' (set xs \<union> S)"
proof (induction xs arbitrary: q S)
  case (Cons x xs)
  have "finite S" using Cons.prems(1) by (rule rep_finite)
  moreover have "x \<notin> S" "card S + 1 < 2 ^ 32" using Cons.prems by auto
  moreover obtain q1 where "heap_insert m (fst q) (snd q) x = Inr q1"
    "heap_holds cmp key m q1 (insert x S)"
    using ins [OF Cons.prems(1) calculation(2,3)] by blast
  ultimately show ?case using Cons.IH [of q1 "insert x S"] Cons.prems by auto
qed auto

lemma insert_all_pop_all:
  assumes "distinct xs" "length xs < 2 ^ 32"
  shows "\<exists>ys q'. bind_res (heap_insert_all m (heap_init h cmp, mem) xs)
      (pq_drain (\<lambda>q. heap_pop m (fst q) (snd q)) (length xs)) = Inr (map Some ys, q') \<and>
    mset ys = mset xs \<and> sorted (map (key m) ys) \<and> heap_peek (fst q') = None"
proof -
  obtain q where q: "heap_insert_all m (heap_init h cmp, mem) xs = Inr q"
    "heap_holds cmp key m q (set xs)"
    using heap_insert_all_holds [OF heap_holds_init assms(1), of m h mem] assms(2) by auto
  have card: "card (set xs) = length xs" using assms(1) by (rule distinct_card)
  obtain ys q' where "pq_drain (\<lambda>q. heap_pop m (fst q) (snd q)) (length xs) q =
      Inr (map Some ys, q')" "set ys = set xs" "distinct ys" "sorted (map (key m) ys)"
    "heap_holds cmp key m q' {}"
    using drain_sorted [OF q(2)] card assms(2) by (auto simp: heap_pop_def heap_peek_def)
  moreover from this have "mset ys = mset xs" using assms(1) by (simp add: set_eq_iff_mset_eq_distinct)
  moreover have "heap_peek (fst q') = None" using peek_empty calculation(5) by blast
  ultimately show ?thesis using q(1) by auto
qed

end

text \<open>
  C2. Removing any queued node, not only the first, from a heap under a comparator that returns 1
  for the smaller key: the node is unlinked and returned, the remaining nodes form a correctly
  linked complete tree again (children, parents, root and size all agree) whose parents never
  have a larger key than their children, nodes outside the heap are untouched, no \<open>NULL\<close> pointer
  is followed and both sift loops end.
\<close>

theorem heap_remove_any:
  assumes "\<And>m a b. cmp m a b = (if key m a < key m b then 1 else 0)"
    and "comparator h = cmp" "heap_rep h mem xs" "heap_ordered (key m) xs"
    and "r \<in> set xs" "length xs < 2 ^ 32"
  shows "\<exists>h' mem' ys. heap_remove m h mem (Some r) = Inr (Some r, h', mem') \<and>
    heap_rep h' mem' ys \<and> mset ys = mset xs - {#r#} \<and> heap_ordered (key m) ys \<and>
    comparator h' = cmp \<and> (\<forall>y. y \<notin> set xs \<longrightarrow> mem' y = mem y)"
  by (rule key_heap.heap_remove_correct [OF key_heap.intro, OF assms])

theorem heap_remove_any_witness:
  "\<exists>h' mem' ys. heap_remove ()
      \<lparr>root = Some 7, heap_size = 3, comparator = (\<lambda>_ a b. if a < b then 1 else 0)\<rparr>
      (\<lambda>n. if n = 7 then \<lparr>left = Some 9, right = Some 8, parent = None\<rparr>
        else \<lparr>left = None, right = None, parent = Some (7::nat)\<rparr>) (Some 9) =
      Inr (Some 9, h', mem') \<and>
    heap_rep h' mem' ys \<and> mset ys = mset [7, 9, 8] - {#9#} \<and> heap_ordered id ys \<and>
    comparator h' = (\<lambda>_ a b. if a < b then 1 else 0) \<and>
    (\<forall>y. y \<notin> set [7, 9, 8] \<longrightarrow> mem' y = (if y = 7
      then \<lparr>left = Some 9, right = Some 8, parent = None\<rparr>
      else \<lparr>left = None, right = None, parent = Some (7::nat)\<rparr>))"
  by (rule heap_remove_any [where key = "\<lambda>_. id"]; (simp; fail)?) code_simp+

text \<open>
  C3. The heap sorts: distinct nodes inserted in any order into an initialised heap come out of
  repeated \<open>heap_pop\<close> in ascending order of their keys, each exactly once, and the heap is empty
  afterwards.
\<close>

theorem heap_pops_ascending:
  assumes "\<And>m a b. cmp m a b = (if key m a < key m b then 1 else 0)"
    and "distinct xs" "length xs < 2 ^ 32"
  shows "\<exists>ys q'. bind_res (heap_insert_all m (heap_init h cmp, mem) xs)
      (pq_drain (\<lambda>q. heap_pop m (fst q) (snd q)) (length xs)) = Inr (map Some ys, q') \<and>
    mset ys = mset xs \<and> sorted (map (key m) ys) \<and> heap_peek (fst q') = None"
  by (rule key_heap.insert_all_pop_all [OF key_heap.intro, OF assms])

theorem heap_pops_ascending_witness:
  "\<exists>ys q'. bind_res (heap_insert_all () (heap_init
        \<lparr>root = None, heap_size = 5, comparator = (\<lambda>_ _ _. 0)\<rparr> (\<lambda>_ a b. if a < b then 1 else 0),
        \<lambda>_. \<lparr>left = None, right = Some 2, parent = None\<rparr>) [5, 3::nat, 9, 4])
      (pq_drain (\<lambda>q. heap_pop () (fst q) (snd q)) (length [5, 3::nat, 9, 4])) =
        Inr (map Some ys, q') \<and>
    mset ys = mset [5, 3, 9, 4] \<and> sorted (map id ys) \<and> heap_peek (fst q') = None"
  by (rule heap_pops_ascending [where key = "\<lambda>_. id"]) simp_all

text \<open>
  C4. The size of the heap is 64 bits wide, but \<open>heap_insert\<close> computes the position of the new
  node in an \<^verbatim>\<open>unsigned int\<close>: with \<open>2 ^ 32 - 1\<close> nodes queued the position is truncated to 0, the
  walk stops at the root, and the subtree that was the right child of the root is overwritten by
  the new node.
\<close>

theorem heap_insert_truncates:
  assumes "heap_size h = 2 ^ 32 - 1" "root h = Some r" "left (mem r) \<noteq> None"
  shows "heap_insert m h mem x =
    loop_res (sift_up (\<lambda>c. c > 0) m x (h\<lparr>heap_size := 2 ^ 32\<rparr>)
      (set_right (set_left (set_parent (set_right mem r (Some x)) x (Some r)) x None) x None))"
proof -
  have "path_bits (ucast (heap_size h + 1)) 0 0 = (0, 0)"
    using assms(1) by (simp add: path_bits.simps)
  moreover have "descend mem 1 0 0 (Some r) = Inr (Some r)"
    by (subst descend.simps) simp
  moreover obtain l where "left (mem r) = Some l" using assms(3) by blast
  ultimately show ?thesis
    using assms(1,2) by (simp add: heap_insert_def Let_def)
qed

theorem heap_insert_truncates_witness:
  "heap_insert () \<lparr>root = Some (0::nat), heap_size = 2 ^ 32 - 1, comparator = (\<lambda>_ _ _. 0)\<rparr>
      (\<lambda>n. \<lparr>left = Some (2 * n + 1), right = Some (2 * n + 2), parent = None\<rparr>) 5 =
    loop_res (sift_up (\<lambda>c. c > 0) () 5
      \<lparr>root = Some (0::nat), heap_size = 2 ^ 32, comparator = (\<lambda>_ _ _. 0)\<rparr>
      (set_right (set_left (set_parent (set_right
        (\<lambda>n. \<lparr>left = Some (2 * n + 1), right = Some (2 * n + 2), parent = None\<rparr>) 0 (Some 5))
        5 (Some 0)) 5 None) 5 None))"
  using heap_insert_truncates [of "\<lparr>root = Some (0::nat), heap_size = 2 ^ 32 - 1,
      comparator = (\<lambda>_ _ _. 0)\<rparr>" 0
      "\<lambda>n. \<lparr>left = Some (2 * n + 1), right = Some (2 * n + 2), parent = None\<rparr>" "()" 5]
  by simp

end
