(* ===== verification/Io_Core.thy ===== *)
theory Io_Core
  imports Heap_Correct Intrusive_Queue
begin

text \<open>
  The state of an event loop (\<open>pd_io\<close>, \<^verbatim>\<open>include/pandio/core.h\<close>) and the timers embedded in the
  heap it holds (\<open>pd_timer\<close>, \<^verbatim>\<open>include/pandio/timers.h\<close>), with the memories their intrusive nodes
  live in. The components of the library extend \<open>io_world\<close> with the memories of their own
  structures, and every operation acts on any such extension.

  Addresses: a timer is known by a 31-bit number, so at most \<open>2 ^ 31\<close> timers exist at once (each
  occupies more than 64 bytes, so this is far above what the heap's 32-bit arithmetic could be
  exposed to in practice; \<open>heap_insert_truncates\<close> shows what would happen beyond it), and a task of the
  threadpool by a 48-bit address. The address of a
  queue node says which structure the node is embedded in, so \<^verbatim>\<open>container_of\<close> is pattern matching.
  A function pointer of a client is a number; \<open>None\<close> is \<^verbatim>\<open>NULL\<close>.
\<close>

type_synonym timer = "31 word"
type_synonym task = "48 word"
type_synonym callback = nat

datatype qnode = Close_node nat | Write_node nat | Task_node task

record pd_timer =
  timeout :: uint64
  interval :: uint64
  active :: bool
  user_data :: nat
  on_timeout :: "callback option"

type_synonym timer_mem = "timer \<Rightarrow> pd_timer"

record pd_io =
  poll_fd :: int
  now :: uint64
  refs :: size_t
  timers :: "(timer_mem, timer) heap"
  pending_closes :: "qnode queue"
  finished_tasks :: "qnode queue"
  task_signal :: "nat option"
  after_tick :: "callback option"
  task_signaled :: bool

record io_world =
  io :: pd_io
  tmem :: timer_mem
  hnodes :: "timer heap_mem"
  qnodes :: "qnode queue_mem"

text \<open>Assignments through \<^verbatim>\<open>ctx->\<close> and through a timer pointer.\<close>

abbreviation set_io :: "(pd_io \<Rightarrow> pd_io) \<Rightarrow> 'x io_world_scheme \<Rightarrow> 'x io_world_scheme" where
  "set_io f w \<equiv> w\<lparr>io := f (io w)\<rparr>"

abbreviation set_timer ::
  "timer \<Rightarrow> (pd_timer \<Rightarrow> pd_timer) \<Rightarrow> 'x io_world_scheme \<Rightarrow> 'x io_world_scheme" where
  "set_timer t f w \<equiv> w\<lparr>tmem := (tmem w)(t := f (tmem w t))\<rparr>"

definition inc_refs :: "'x io_world_scheme \<Rightarrow> 'x io_world_scheme" where
  "inc_refs = set_io (\<lambda>c. c\<lparr>refs := refs c + 1\<rparr>)"

definition dec_refs :: "'x io_world_scheme \<Rightarrow> 'x io_world_scheme" where
  "dec_refs = set_io (\<lambda>c. c\<lparr>refs := refs c - 1\<rparr>)"

definition pd_set_after_tick :: "callback option \<Rightarrow> 'x io_world_scheme \<Rightarrow> 'x io_world_scheme" where
  "pd_set_after_tick f = set_io (\<lambda>c. c\<lparr>after_tick := f\<rparr>)"

end
