(* ===== verification/Timers.thy ===== *)
theory Timers
  imports Io_Core
begin

text \<open>
  The timers of \<^verbatim>\<open>src/timers.c\<close>: starting, repeating and stopping a timer, running the timers that
  are due, and the time to sleep until the next one. A callback is run by the argument \<open>k\<close> of
  \<open>pd_timers_run\<close>; \<open>run_script\<close> instantiates it with arbitrary client programs that start, repeat and
  stop timers from inside callbacks.
\<close>

section \<open>The operations\<close>

definition pd_timers_comparator :: "timer_mem \<Rightarrow> timer \<Rightarrow> timer \<Rightarrow> int" where
  "pd_timers_comparator m a b = (if timeout (m a) < timeout (m b) then 1 else 0)"

definition pd_timers_heap_init :: "'x io_world_scheme \<Rightarrow> 'x io_world_scheme" where
  "pd_timers_heap_init = set_io (\<lambda>c. c\<lparr>timers := heap_init (timers c) pd_timers_comparator\<rparr>)"

definition pd_timer_init :: "timer \<Rightarrow> 'x io_world_scheme \<Rightarrow> 'x io_world_scheme" where
  "pd_timer_init t w =
     (let w = set_timer t (\<lambda>r. r\<lparr>timeout := 0, interval := 0, active := False, user_data := 0,
                                  on_timeout := None\<rparr>) w
      in w\<lparr>hnodes := heap_init_node (hnodes w) t\<rparr>)"

definition pd_timer_start ::
  "timer \<Rightarrow> callback option \<Rightarrow> uint64 \<Rightarrow> 'x io_world_scheme \<Rightarrow> 'x io_world_scheme res" where
  "pd_timer_start t cb delay w =
     (if active (tmem w t) then Inr w
      else
        let w = set_timer t (\<lambda>r. r\<lparr>active := True\<rparr>) w;
            w = set_timer t (\<lambda>r. r\<lparr>timeout := now (io w) + delay\<rparr>) w;
            w = set_timer t (\<lambda>r. r\<lparr>on_timeout := cb\<rparr>) w;
            w = inc_refs w
        in bind_res (heap_insert (tmem w) (timers (io w)) (hnodes w) t) (\<lambda>(h, mem).
             Inr (set_io (\<lambda>c. c\<lparr>timers := h\<rparr>) w\<lparr>hnodes := mem\<rparr>)))"

definition pd_timer_repeat ::
  "timer \<Rightarrow> callback option \<Rightarrow> uint64 \<Rightarrow> 'x io_world_scheme \<Rightarrow> 'x io_world_scheme res" where
  "pd_timer_repeat t cb period w =
     pd_timer_start t cb period (set_timer t (\<lambda>r. r\<lparr>interval := period\<rparr>) w)"

definition pd_timer_stop :: "timer \<Rightarrow> 'x io_world_scheme \<Rightarrow> 'x io_world_scheme res" where
  "pd_timer_stop t w =
     (if \<not> active (tmem w t) then Inr w
      else
        let w = set_timer t (\<lambda>r. r\<lparr>active := False\<rparr>) w
        in bind_res (heap_remove (tmem w) (timers (io w)) (hnodes w) (Some t)) (\<lambda>(_, h, mem).
             Inr (dec_refs (set_io (\<lambda>c. c\<lparr>timers := h\<rparr>) w\<lparr>hnodes := mem\<rparr>))))"

text \<open>One round of the loop of \<open>pd_timers_run\<close> for the timer \<open>t\<close> it found due.\<close>

definition timer_fire ::
  "(callback \<Rightarrow> timer \<Rightarrow> 'x io_world_scheme \<Rightarrow> 'x io_world_scheme res) \<Rightarrow> timer \<Rightarrow>
    'x io_world_scheme \<Rightarrow> 'x io_world_scheme res" where
  "timer_fire k t w =
     bind_res (pd_timer_stop t w) (\<lambda>w.
     bind_res (case on_timeout (tmem w t) of None \<Rightarrow> Inr w | Some cb \<Rightarrow> k cb t w) (\<lambda>w.
       if interval (tmem w t) \<noteq> 0
       then pd_timer_start t (on_timeout (tmem w t)) (interval (tmem w t)) w
       else Inr w))"

partial_function (option) pd_timers_run ::
  "(callback \<Rightarrow> timer \<Rightarrow> 'x io_world_scheme \<Rightarrow> 'x io_world_scheme res) \<Rightarrow>
    'x io_world_scheme \<Rightarrow> 'x io_world_scheme res option" where
  "pd_timers_run k w =
     (case heap_peek (timers (io w)) of
        None \<Rightarrow> Some (Inr w)
      | Some t \<Rightarrow>
          if now (io w) < timeout (tmem w t) then Some (Inr w)
          else (case timer_fire k t w of
                  Inl e \<Rightarrow> Some (Inl e)
                | Inr w \<Rightarrow> pd_timers_run k w))"

definition INT_MAX :: int where
  "INT_MAX = 2 ^ 31 - 1"

definition pd_timers_next :: "'x io_world_scheme \<Rightarrow> int" where
  "pd_timers_next w =
     (case heap_peek (timers (io w)) of
        None \<Rightarrow> -1
      | Some t \<Rightarrow>
          let next_timeout = timeout (tmem w t) - now (io w)
          in if INT_MAX \<le> uint next_timeout then INT_MAX else uint next_timeout)"

section \<open>Client programs\<close>

text \<open>
  What a callback may do to timers, and callbacks as programs: \<open>prog cb t\<close> is what callback \<open>cb\<close>
  does when it is called with the timer \<open>t\<close>. The extension \<open>fired\<close> records the calls, with the
  time the timer was due at.
\<close>

datatype timer_cmd =
    Start timer "callback option" uint64
  | Repeat timer "callback option" uint64
  | Stop timer

fun exec_cmd :: "timer_cmd \<Rightarrow> 'x io_world_scheme \<Rightarrow> 'x io_world_scheme res" where
  "exec_cmd (Start t cb d) w = pd_timer_start t cb d w"
| "exec_cmd (Repeat t cb d) w = pd_timer_repeat t cb d w"
| "exec_cmd (Stop t) w = pd_timer_stop t w"

fun exec_cmds :: "timer_cmd list \<Rightarrow> 'x io_world_scheme \<Rightarrow> 'x io_world_scheme res" where
  "exec_cmds [] w = Inr w"
| "exec_cmds (c # cs) w = bind_res (exec_cmd c w) (exec_cmds cs)"

record timer_world = io_world +
  fired :: "(timer \<times> callback) list"

definition run_script ::
  "(callback \<Rightarrow> timer \<Rightarrow> timer_cmd list) \<Rightarrow> callback \<Rightarrow> timer \<Rightarrow>
    'x timer_world_scheme \<Rightarrow> 'x timer_world_scheme res" where
  "run_script prog cb t w = exec_cmds (prog cb t) (w\<lparr>fired := fired w @ [(t, cb)]\<rparr>)"

section \<open>The invariant\<close>

abbreviation due_at :: "timer_mem \<Rightarrow> timer \<Rightarrow> uint64" where
  "due_at m t \<equiv> timeout (m t)"

interpretation timer_heap: key_heap pd_timers_comparator due_at
  by unfold_locales (simp add: pd_timers_comparator_def)

definition active_timers :: "'x io_world_scheme \<Rightarrow> timer set" where
  "active_timers w = {t. active (tmem w t)}"

definition timers_ok :: "'x io_world_scheme \<Rightarrow> bool" where
  "timers_ok w \<longleftrightarrow> heap_holds pd_timers_comparator due_at (tmem w)
     (timers (io w), hnodes w) (active_timers w)"

lemma timers_ok_empty:
  assumes "root (timers (io w)) = None" "heap_size (timers (io w)) = 0"
    "comparator (timers (io w)) = pd_timers_comparator" "\<And>t. \<not> active (tmem w t)"
  shows "timers_ok w"
proof -
  have "timers (io w) = heap_init (timers (io w)) pd_timers_comparator" using assms(1-3) by (simp add: heap_init_def)
  moreover have "active_timers w = {}" using assms(4) by (simp add: active_timers_def)
  ultimately show ?thesis unfolding timers_ok_def by (metis heap_holds_init)
qed

lemma card_timers: "card (S :: timer set) \<le> 2 ^ 31"
proof -
  have "card S \<le> card (UNIV :: timer set)" by (rule card_mono) simp_all
  then show ?thesis by (simp add: card_word)
qed

lemma card_timers_bound [simp]: "card (S :: timer set) + 1 < 2 ^ 32" "card (S :: timer set) < 2 ^ 32"
  using card_timers [of S] by simp_all

lemma active_timers_iff: "t \<in> active_timers w \<longleftrightarrow> active (tmem w t)"
  by (simp add: active_timers_def)

lemma pd_timer_start_ok:
  assumes ok: "timers_ok w" and idle: "\<not> active (tmem w t)"
  obtains w' h mem where "pd_timer_start t cb d w = Inr w'" "timers_ok w'"
    "w' = w\<lparr>tmem := (tmem w)(t := (tmem w t)\<lparr>active := True, timeout := now (io w) + d, on_timeout := cb\<rparr>),
      io := (io w)\<lparr>refs := refs (io w) + 1, timers := h\<rparr>, hnodes := mem\<rparr>"
proof -
  let ?tmem = "(tmem w)(t := (tmem w t)\<lparr>active := True, timeout := now (io w) + d, on_timeout := cb\<rparr>)"
  have "heap_holds pd_timers_comparator due_at ?tmem (timers (io w), hnodes w) (active_timers w)"
    using ok unfolding timers_ok_def by (rule timer_heap.rep_cong) (use idle in \<open>auto simp: active_timers_iff\<close>)
  then obtain q where q: "heap_insert ?tmem (timers (io w)) (hnodes w) t = Inr q"
    "heap_holds pd_timers_comparator due_at ?tmem q (insert t (active_timers w))"
    using timer_heap.ins [OF _ _ card_timers_bound(1)] idle by (fastforce simp: active_timers_iff)
  let ?w = "w\<lparr>tmem := ?tmem, io := (io w)\<lparr>refs := refs (io w) + 1, timers := fst q\<rparr>, hnodes := snd q\<rparr>"
  have "active_timers ?w = insert t (active_timers w)" by (auto simp: active_timers_def)
  then have "timers_ok ?w" using q(2) by (simp add: timers_ok_def)
  moreover have "pd_timer_start t cb d w = Inr ?w"
    using idle q(1) by (simp add: pd_timer_start_def inc_refs_def split_beta)
  ultimately show thesis using that by blast
qed

lemma pd_timer_start_active [simp]: "active (tmem w t) \<Longrightarrow> pd_timer_start t cb d w = Inr w"
  by (simp add: pd_timer_start_def)

lemma pd_timer_stop_idle [simp]: "\<not> active (tmem w t) \<Longrightarrow> pd_timer_stop t w = Inr w"
  by (simp add: pd_timer_stop_def)

lemma pd_timer_stop_ok:
  assumes ok: "timers_ok w" and act: "active (tmem w t)"
  obtains w' h mem where "pd_timer_stop t w = Inr w'" "timers_ok w'"
    "w' = w\<lparr>tmem := (tmem w)(t := (tmem w t)\<lparr>active := False\<rparr>),
      io := (io w)\<lparr>refs := refs (io w) - 1, timers := h\<rparr>, hnodes := mem\<rparr>"
proof -
  let ?tmem = "(tmem w)(t := (tmem w t)\<lparr>active := False\<rparr>)"
  have "heap_holds pd_timers_comparator due_at ?tmem (timers (io w), hnodes w) (active_timers w)"
    using ok unfolding timers_ok_def by (rule timer_heap.rep_cong) auto
  then obtain q where q: "heap_remove ?tmem (timers (io w)) (hnodes w) (Some t) = Inr (Some t, q)"
    "heap_holds pd_timers_comparator due_at ?tmem q (active_timers w - {t})"
    using timer_heap.del [OF _ _ card_timers_bound(2)] act by (fastforce simp: active_timers_iff)
  let ?w = "w\<lparr>tmem := ?tmem, io := (io w)\<lparr>refs := refs (io w) - 1, timers := fst q\<rparr>, hnodes := snd q\<rparr>"
  have "active_timers ?w = active_timers w - {t}" by (auto simp: active_timers_def)
  then have "timers_ok ?w" using q(2) by (simp add: timers_ok_def)
  moreover have "pd_timer_stop t w = Inr ?w"
    using act q(1) by (simp add: pd_timer_stop_def dec_refs_def split_beta)
  ultimately show thesis using that by blast
qed

lemma timers_ok_interval [simp]:
  "timers_ok (set_timer t (\<lambda>r. r\<lparr>interval := p\<rparr>) w) \<longleftrightarrow> timers_ok w"
proof -
  have "active_timers (set_timer t (\<lambda>r. r\<lparr>interval := p\<rparr>) w) = active_timers w"
    by (auto simp: active_timers_def)
  then show ?thesis unfolding timers_ok_def
    by (auto elim!: timer_heap.rep_cong)
qed

section \<open>Commands of a client\<close>

definition due :: "'x io_world_scheme \<Rightarrow> timer set" where
  "due w = {t. active (tmem w t) \<and> timeout (tmem w t) \<le> now (io w)}"

text \<open>
  A delay is \<open>later\<close> when it is not 0 and the deadline it gives does not wrap around. \<open>cmd_later\<close> and
  \<open>periods_later\<close> ask this of the delays of a command and of the periods already set.
\<close>

definition later :: "uint64 \<Rightarrow> uint64 \<Rightarrow> bool" where
  "later n d \<longleftrightarrow> n < n + d"

fun cmd_later :: "uint64 \<Rightarrow> timer_cmd \<Rightarrow> bool" where
  "cmd_later n (Start t cb d) \<longleftrightarrow> later n d"
| "cmd_later n (Repeat t cb d) \<longleftrightarrow> later n d"
| "cmd_later n (Stop t) \<longleftrightarrow> True"

definition periods_later :: "'x io_world_scheme \<Rightarrow> bool" where
  "periods_later w \<longleftrightarrow> (\<forall>t. interval (tmem w t) \<noteq> 0 \<longrightarrow> later (now (io w)) (interval (tmem w t)))"

definition refs_track :: "'x io_world_scheme \<Rightarrow> 'y io_world_scheme \<Rightarrow> bool" where
  "refs_track w w' \<longleftrightarrow>
     refs (io w') - of_nat (card (active_timers w')) = refs (io w) - of_nat (card (active_timers w))"

text \<open>What holds after any step taken from an intact state, and what delays in the future add to it.\<close>

definition stays_ok :: "'x io_world_scheme \<Rightarrow> 'x io_world_scheme \<Rightarrow> bool" where
  "stays_ok w w' \<longleftrightarrow> timers_ok w' \<and> now (io w') = now (io w) \<and> refs_track w w'"

definition settles :: "'x io_world_scheme \<Rightarrow> 'x io_world_scheme \<Rightarrow> bool" where
  "settles w w' \<longleftrightarrow> periods_later w' \<and> due w' \<subseteq> due w \<and>
     (\<forall>t \<in> due w'. due_at (tmem w') t = due_at (tmem w) t)"

lemma refs_track_trans: "refs_track w w' \<Longrightarrow> refs_track w' w'' \<Longrightarrow> refs_track w w''"
  by (simp add: refs_track_def)

lemma stays_ok_refl: "timers_ok w \<Longrightarrow> stays_ok w w"
  by (simp add: stays_ok_def refs_track_def)

lemma stays_ok_trans: "stays_ok w w' \<Longrightarrow> stays_ok w' w'' \<Longrightarrow> stays_ok w w''"
  unfolding stays_ok_def using refs_track_trans by metis

lemma settles_trans: "settles w w' \<Longrightarrow> settles w' w'' \<Longrightarrow> settles w w''"
  unfolding settles_def by (metis subset_trans subsetD)

lemma pd_timer_start_stays:
  assumes "timers_ok w"
  shows "\<exists>w'. pd_timer_start t cb d w = Inr w' \<and> stays_ok w w' \<and>
    io_world.more w' = io_world.more w \<and>
    (periods_later w \<longrightarrow> later (now (io w)) d \<longrightarrow> settles w w' \<and> due w' = due w)"
proof (cases "active (tmem w t)")
  case True
  then show ?thesis using assms stays_ok_refl by (auto simp: settles_def)
next
  case False
  from pd_timer_start_ok [OF assms False, of cb d] obtain w' h mem where
    w': "pd_timer_start t cb d w = Inr w'" "timers_ok w'"
    "w' = w\<lparr>tmem := (tmem w)(t := (tmem w t)\<lparr>active := True, timeout := now (io w) + d, on_timeout := cb\<rparr>),
      io := (io w)\<lparr>refs := refs (io w) + 1, timers := h\<rparr>, hnodes := mem\<rparr>" .
  have "active_timers w' = insert t (active_timers w)" using w'(3) by (auto simp: active_timers_def)
  moreover have "t \<notin> active_timers w" using False by (simp add: active_timers_iff)
  ultimately have "refs_track w w'" using w'(3) by (simp add: refs_track_def)
  then have "stays_ok w w'" using w' by (simp add: stays_ok_def)
  moreover have "due w' = due w" "settles w w'" if "periods_later w" "later (now (io w)) d"
    using that False w'(3) by (auto simp: settles_def due_def periods_later_def later_def)
  ultimately show ?thesis using w' by auto
qed

lemma pd_timer_stop_stays:
  assumes "timers_ok w"
  shows "\<exists>w'. pd_timer_stop t w = Inr w' \<and> stays_ok w w' \<and>
    io_world.more w' = io_world.more w \<and> due w' = due w - {t} \<and>
    on_timeout (tmem w' t) = on_timeout (tmem w t) \<and> (periods_later w \<longrightarrow> settles w w')"
proof (cases "active (tmem w t)")
  case True
  from pd_timer_stop_ok [OF assms True] obtain w' h mem where
    w': "pd_timer_stop t w = Inr w'" "timers_ok w'"
    "w' = w\<lparr>tmem := (tmem w)(t := (tmem w t)\<lparr>active := False\<rparr>),
      io := (io w)\<lparr>refs := refs (io w) - 1, timers := h\<rparr>, hnodes := mem\<rparr>" .
  have act: "active_timers w' = active_timers w - {t}" using w'(3) by (auto simp: active_timers_def)
  have t: "t \<in> active_timers w" using True by (simp add: active_timers_iff)
  have "card (active_timers w) = Suc (card (active_timers w - {t}))" using t by (rule card.remove [rotated]) simp
  then have "refs_track w w'" using w'(3) unfolding refs_track_def act by simp
  then have "stays_ok w w'" using w' by (simp add: stays_ok_def)
  moreover have "due w' = due w - {t}" using w'(3) by (auto simp: due_def)
  moreover have "settles w w'" if "periods_later w"
    using that w'(3) by (auto simp: settles_def due_def periods_later_def)
  ultimately show ?thesis using w' by auto
next
  case False
  then show ?thesis using assms stays_ok_refl by (auto simp: settles_def due_def)
qed

lemma exec_cmd_stays:
  assumes "timers_ok w"
  shows "\<exists>w'. exec_cmd c w = Inr w' \<and> stays_ok w w' \<and> io_world.more w' = io_world.more w \<and>
    (periods_later w \<longrightarrow> cmd_later (now (io w)) c \<longrightarrow> settles w w')"
proof (cases c)
  case (Start t cb d)
  then show ?thesis using pd_timer_start_stays [OF assms, of t cb d] by auto
next
  case (Repeat t cb p)
  let ?w = "set_timer t (\<lambda>r. r\<lparr>interval := p\<rparr>) w"
  have act: "active_timers ?w = active_timers w" by (auto simp: active_timers_def)
  obtain w' where w': "pd_timer_start t cb p ?w = Inr w'" "stays_ok ?w w'"
    "io_world.more w' = io_world.more ?w"
    "periods_later ?w \<Longrightarrow> later (now (io ?w)) p \<Longrightarrow> settles ?w w'"
    using pd_timer_start_stays [of ?w t cb p] assms by auto
  have "stays_ok w w'" using w'(2) unfolding stays_ok_def refs_track_def act by simp
  moreover have "settles w w'" if "periods_later w" "later (now (io w)) p"
  proof -
    have "settles w ?w" using that by (auto simp: settles_def due_def periods_later_def)
    moreover from this have "settles ?w w'" using w'(4) that by (simp add: settles_def)
    ultimately show ?thesis by (rule settles_trans)
  qed
  ultimately show ?thesis using w' Repeat by (auto simp: pd_timer_repeat_def)
next
  case (Stop t)
  then show ?thesis using pd_timer_stop_stays [OF assms, of t] by auto
qed

lemma exec_cmds_stays:
  "timers_ok w \<Longrightarrow> \<exists>w'. exec_cmds cs w = Inr w' \<and> stays_ok w w' \<and>
    io_world.more w' = io_world.more w \<and>
    (periods_later w \<longrightarrow> (\<forall>c \<in> set cs. cmd_later (now (io w)) c) \<longrightarrow> settles w w')"
proof (induction cs arbitrary: w)
  case Nil
  then show ?case by (auto simp: stays_ok_refl settles_def)
next
  case (Cons c cs)
  obtain w1 where w1: "exec_cmd c w = Inr w1" "stays_ok w w1" "io_world.more w1 = io_world.more w"
    "periods_later w \<Longrightarrow> cmd_later (now (io w)) c \<Longrightarrow> settles w w1"
    using exec_cmd_stays [OF Cons.prems] by blast
  then obtain w2 where w2: "exec_cmds cs w1 = Inr w2" "stays_ok w1 w2"
    "io_world.more w2 = io_world.more w1"
    "periods_later w1 \<Longrightarrow> \<forall>c \<in> set cs. cmd_later (now (io w1)) c \<Longrightarrow> settles w1 w2"
    using Cons.IH [of w1] by (auto simp: stays_ok_def)
  have "now (io w1) = now (io w)" using w1(2) by (simp add: stays_ok_def)
  then have "settles w w2" if "periods_later w" "\<forall>c \<in> set (c # cs). cmd_later (now (io w)) c"
    using w1(4) w2(4) that settles_trans [of w w1 w2] by (auto simp: settles_def)
  then show ?case using w1(1,3) w2(1,3) stays_ok_trans [OF w1(2) w2(2)] by auto
qed

section \<open>Running the due timers\<close>

lemma timer_fire_stays:
  assumes ok: "timers_ok w"
  shows "\<exists>w'. timer_fire (run_script prog) t w = Inr w' \<and> stays_ok w w' \<and>
    fired w' = fired w @ (case on_timeout (tmem w t) of None \<Rightarrow> [] | Some cb \<Rightarrow> [(t, cb)]) \<and>
    (periods_later w \<longrightarrow> (\<forall>cb u. \<forall>c \<in> set (prog cb u). cmd_later (now (io w)) c) \<longrightarrow>
      settles w w' \<and> due w' \<subseteq> due w - {t})"
proof -
  let ?ev = "case on_timeout (tmem w t) of None \<Rightarrow> [] | Some cb \<Rightarrow> [(t, cb)]"
  let ?later = "\<forall>cb u. \<forall>c \<in> set (prog cb u). cmd_later (now (io w)) c"
  obtain w1 where w1: "pd_timer_stop t w = Inr w1" "stays_ok w w1"
    "io_world.more w1 = io_world.more w" "due w1 = due w - {t}"
    "on_timeout (tmem w1 t) = on_timeout (tmem w t)" "periods_later w \<Longrightarrow> settles w w1"
    using pd_timer_stop_stays [OF ok, of t] by blast
  have f1: "fired w1 = fired w" using w1(3) by (cases w; cases w1) simp
  have now1: "now (io w1) = now (io w)" using w1(2) by (simp add: stays_ok_def)
  have cb: "\<exists>w2. (case on_timeout (tmem w1 t) of None \<Rightarrow> Inr w1 | Some cb \<Rightarrow> run_script prog cb t w1) =
      Inr w2 \<and> stays_ok w1 w2 \<and> fired w2 = fired w1 @ ?ev \<and>
      (periods_later w1 \<longrightarrow> ?later \<longrightarrow> settles w1 w2)"
  proof (cases "on_timeout (tmem w t)")
    case None
    then show ?thesis using w1 stays_ok_refl [of w1] by (auto simp: stays_ok_def settles_def)
  next
    case (Some cb)
    let ?w1 = "w1\<lparr>fired := fired w1 @ [(t, cb)]\<rparr>"
    have act: "active_timers ?w1 = active_timers w1" by (simp add: active_timers_def)
    then have ok1: "timers_ok ?w1" using w1(2) by (simp add: timers_ok_def stays_ok_def)
    obtain w2 where w2: "exec_cmds (prog cb t) ?w1 = Inr w2" "stays_ok ?w1 w2"
      "io_world.more w2 = io_world.more ?w1"
      "periods_later ?w1 \<Longrightarrow> \<forall>c \<in> set (prog cb t). cmd_later (now (io ?w1)) c \<Longrightarrow> settles ?w1 w2"
      using exec_cmds_stays [OF ok1, of "prog cb t"] by blast
    have "fired w2 = fired ?w1" using w2(3) by (cases w1; cases w2) simp
    moreover have "stays_ok w1 w2" using w2(2) unfolding stays_ok_def refs_track_def act by simp
    moreover have "settles w1 w2" if "periods_later w1" ?later
      using w2(4) that now1 by (simp add: settles_def due_def periods_later_def)
    ultimately show ?thesis using Some w1(5) w2(1) by (simp add: run_script_def)
  qed
  then obtain w2 where w2: "(case on_timeout (tmem w1 t) of None \<Rightarrow> Inr w1
      | Some cb \<Rightarrow> run_script prog cb t w1) = Inr w2" "stays_ok w1 w2" "fired w2 = fired w1 @ ?ev"
    "periods_later w1 \<Longrightarrow> ?later \<Longrightarrow> settles w1 w2" by blast
  have re: "\<exists>w3. (if interval (tmem w2 t) \<noteq> 0 then pd_timer_start t (on_timeout (tmem w2 t))
      (interval (tmem w2 t)) w2 else Inr w2) = Inr w3 \<and> stays_ok w2 w3 \<and> fired w3 = fired w2 \<and>
      (periods_later w2 \<longrightarrow> settles w2 w3)"
  proof (cases "interval (tmem w2 t) = 0")
    case True
    then show ?thesis using w2(2) stays_ok_refl [of w2] by (auto simp: stays_ok_def settles_def)
  next
    case False
    have "timers_ok w2" using w2(2) by (simp add: stays_ok_def)
    from pd_timer_start_stays [OF this, of t "on_timeout (tmem w2 t)" "interval (tmem w2 t)"]
    obtain w3 where w3: "pd_timer_start t (on_timeout (tmem w2 t)) (interval (tmem w2 t)) w2 = Inr w3"
      "stays_ok w2 w3" "io_world.more w3 = io_world.more w2"
      "periods_later w2 \<Longrightarrow> later (now (io w2)) (interval (tmem w2 t)) \<Longrightarrow> settles w2 w3" by blast
    have "fired w3 = fired w2" using w3(3) by (cases w2; cases w3) simp
    then show ?thesis using False w3 by (auto simp: periods_later_def)
  qed
  then obtain w3 where w3: "(if interval (tmem w2 t) \<noteq> 0 then pd_timer_start t
      (on_timeout (tmem w2 t)) (interval (tmem w2 t)) w2 else Inr w2) = Inr w3" "stays_ok w2 w3"
    "fired w3 = fired w2" "periods_later w2 \<Longrightarrow> settles w2 w3" by blast
  have "timer_fire (run_script prog) t w = Inr w3"
    using w1(1) w2(1) w3(1) by (simp add: timer_fire_def)
  moreover have "stays_ok w w3" using stays_ok_trans w1(2) w2(2) w3(2) by blast
  moreover have "settles w w3 \<and> due w3 \<subseteq> due w - {t}" if "periods_later w" ?later
  proof -
    have "settles w w1" using w1(6) that by blast
    moreover from this have "settles w1 w2" using w2(4) that by (simp add: settles_def)
    moreover from this have "settles w2 w3" using w3(4) by (simp add: settles_def)
    ultimately show ?thesis using settles_trans w1(4) unfolding settles_def by (metis (no_types, lifting) subset_trans subsetD)
  qed
  ultimately show ?thesis using w2(3) w3(3) f1 by auto
qed

lemma peek_due:
  assumes "timers_ok w"
  shows "heap_peek (timers (io w)) = None \<Longrightarrow> active_timers w = {}"
    and "heap_peek (timers (io w)) = Some t \<Longrightarrow> active (tmem w t)"
    and "heap_peek (timers (io w)) = Some t \<Longrightarrow> active (tmem w u) \<Longrightarrow>
      timeout (tmem w t) \<le> timeout (tmem w u)"
  using timer_heap.peek_empty [OF assms [unfolded timers_ok_def]]
    timer_heap.peek_in [OF assms [unfolded timers_ok_def], of t]
    timer_heap.peek_min [OF assms [unfolded timers_ok_def], of t u]
  by (auto simp: active_timers_iff)

lemma pd_timers_run_done:
  assumes "timers_ok w" "due w = {}"
  shows "pd_timers_run k w = Some (Inr w)"
proof (cases "heap_peek (timers (io w))")
  case (Some t)
  then have "now (io w) < timeout (tmem w t)"
    using peek_due(2) [OF assms(1) Some] assms(2) by (force simp: due_def not_le [symmetric])
  then show ?thesis using Some by (simp add: pd_timers_run.simps)
qed (simp add: pd_timers_run.simps)

lemma pd_timers_run_step:
  assumes "timers_ok w" "due w \<noteq> {}"
  obtains t where "heap_peek (timers (io w)) = Some t" "t \<in> due w"
    "\<And>u. u \<in> due w \<Longrightarrow> due_at (tmem w) t \<le> due_at (tmem w) u"
    "\<And>k. pd_timers_run k w = (case timer_fire k t w of Inl e \<Rightarrow> Some (Inl e)
      | Inr w \<Rightarrow> pd_timers_run k w)"
proof -
  obtain u where u: "active (tmem w u)" "timeout (tmem w u) \<le> now (io w)"
    using assms(2) by (auto simp: due_def)
  then obtain t where t: "heap_peek (timers (io w)) = Some t"
    using peek_due(1) [OF assms(1)] by (cases "heap_peek (timers (io w))") (auto simp: active_timers_def)
  note le = peek_due(3) [OF assms(1) t]
  have "timeout (tmem w t) \<le> now (io w)" using le [OF u(1)] u(2) by simp
  then show thesis
    using t peek_due(2) [OF assms(1) t] le
    by (intro that [of t]) (auto simp: due_def pd_timers_run.simps [of _ w])
qed

lemma due_finite [simp]: "finite (due w)"
  by (rule finite)

lemma pd_timers_run_drains:
  assumes "timers_ok w" "periods_later w" "\<forall>cb u. \<forall>c \<in> set (prog cb u). cmd_later (now (io w)) c"
  shows "\<exists>w' new. pd_timers_run (run_script prog) w = Some (Inr w') \<and> stays_ok w w' \<and>
    due w' = {} \<and> fired w' = fired w @ new \<and> set (map fst new) \<subseteq> due w \<and> distinct (map fst new) \<and>
    sorted (map (due_at (tmem w)) (map fst new))"
  using assms
proof (induction "card (due w)" arbitrary: w rule: less_induct)
  case less
  show ?case
  proof (cases "due w = {}")
    case True
    with pd_timers_run_done [OF less.prems(1) True] stays_ok_refl [OF less.prems(1)] show ?thesis
      by (intro exI [of _ w] exI [of _ "[]"]) simp
  next
    case False
    from less.prems(1) False obtain t where t: "t \<in> due w"
      "\<And>u. u \<in> due w \<Longrightarrow> due_at (tmem w) t \<le> due_at (tmem w) u"
      "\<And>k. pd_timers_run k w = (case timer_fire k t w of Inl e \<Rightarrow> Some (Inl e)
        | Inr w \<Rightarrow> pd_timers_run k w)" by (rule pd_timers_run_step) blast
    let ?ev = "case on_timeout (tmem w t) of None \<Rightarrow> [] | Some cb \<Rightarrow> [(t, cb)]"
    obtain w1 where w1: "timer_fire (run_script prog) t w = Inr w1" "stays_ok w w1"
      "fired w1 = fired w @ ?ev" "settles w w1" "due w1 \<subseteq> due w - {t}"
      using timer_fire_stays [OF less.prems(1), of prog t] less.prems(2,3) by blast
    have "card (due w1) < card (due w)" using w1(5) t(1) by (intro psubset_card_mono) auto
    moreover have "timers_ok w1" "now (io w1) = now (io w)" using w1(2) by (simp_all add: stays_ok_def)
    moreover have "periods_later w1" using w1(4) by (simp add: settles_def)
    ultimately obtain w' new where w': "pd_timers_run (run_script prog) w1 = Some (Inr w')"
      "stays_ok w1 w'" "due w' = {}" "fired w' = fired w1 @ new" "set (map fst new) \<subseteq> due w1"
      "distinct (map fst new)" "sorted (map (due_at (tmem w1)) (map fst new))"
      using less.hyps [of w1] less.prems(3) by auto
    have same: "due_at (tmem w1) u = due_at (tmem w) u" if "u \<in> set (map fst new)" for u
      using w'(5) w1(4) that by (auto simp: settles_def)
    have sub: "set (map fst new) \<subseteq> due w - {t}" using w'(5) w1(5) by blast
    have "map (due_at (tmem w)) (map fst new) = map (due_at (tmem w1)) (map fst new)"
      by (rule map_cong [OF refl]) (simp only: same)
    then have srt: "sorted (map (due_at (tmem w)) (map fst new))" using w'(7) by (simp only:)
    have le: "due_at (tmem w) t \<le> due_at (tmem w) u" if "u \<in> set (map fst new)" for u
      using t(2) sub that by blast
    from srt have "sorted (map (due_at (tmem w)) (map fst (?ev @ new)))"
      using le by (cases "on_timeout (tmem w t)") (simp_all add: sorted_wrt_map)
    moreover have "distinct (map fst (?ev @ new))" using w'(6) sub by (auto split: option.split)
    moreover have "set (map fst (?ev @ new)) \<subseteq> due w" using sub t(1) by (auto split: option.split)
    moreover have "pd_timers_run (run_script prog) w = Some (Inr w')" using t(3) w1(1) w'(1) by simp
    ultimately show ?thesis
      using w'(3,4) w1(3) stays_ok_trans [OF w1(2) w'(2)]
      by (intro exI [of _ w'] exI [of _ "?ev @ new"]) simp
  qed
qed

text \<open>Timers whose callbacks leave the timers alone: what one round and the whole run do.\<close>

definition expired :: "uint64 \<Rightarrow> pd_timer \<Rightarrow> pd_timer" where
  "expired n r = (if interval r \<noteq> 0 then r\<lparr>timeout := n + interval r\<rparr> else r\<lparr>active := False\<rparr>)"

lemma timer_fire_idle_script:
  assumes ok: "timers_ok w" and act: "active (tmem w t)"
  shows "\<exists>w'. timer_fire (run_script (\<lambda>_ _. [])) t w = Inr w' \<and>
    tmem w' = (tmem w)(t := expired (now (io w)) (tmem w t))"
proof -
  from pd_timer_stop_ok [OF assms] obtain w1 h mem where w1: "pd_timer_stop t w = Inr w1"
    "timers_ok w1" "w1 = w\<lparr>tmem := (tmem w)(t := (tmem w t)\<lparr>active := False\<rparr>),
      io := (io w)\<lparr>refs := refs (io w) - 1, timers := h\<rparr>, hnodes := mem\<rparr>" .
  let ?w2 = "case on_timeout (tmem w t) of None \<Rightarrow> w1 | Some cb \<Rightarrow> w1\<lparr>fired := fired w1 @ [(t, cb)]\<rparr>"
  have m2: "tmem ?w2 = tmem w1" "now (io ?w2) = now (io w)" "\<not> active (tmem ?w2 t)"
    using w1(3) by (simp_all split: option.split)
  have "active_timers ?w2 = active_timers w1" using m2 by (simp add: active_timers_def)
  then have ok2: "timers_ok ?w2" using w1(2) by (simp add: timers_ok_def split: option.split)
  have call: "(case on_timeout (tmem w1 t) of None \<Rightarrow> Inr w1
      | Some cb \<Rightarrow> run_script (\<lambda>_ _. []) cb t w1) = Inr ?w2"
    using w1(3) by (simp add: run_script_def split: option.split)
  show ?thesis
  proof (cases "interval (tmem w t) = 0")
    case True
    then have "interval (tmem ?w2 t) = 0" using m2(1) w1(3) by simp
    then have "timer_fire (run_script (\<lambda>_ _. [])) t w = Inr ?w2"
      using w1(1) call by (simp add: timer_fire_def)
    then show ?thesis using True m2(1) w1(3) by (simp add: expired_def)
  next
    case False
    from pd_timer_start_ok [OF ok2 m2(3)] obtain w3 h mem where
      w3: "pd_timer_start t (on_timeout (tmem ?w2 t)) (interval (tmem ?w2 t)) ?w2 = Inr w3"
      "w3 = ?w2\<lparr>tmem := (tmem ?w2)(t := (tmem ?w2 t)\<lparr>active := True,
        timeout := now (io ?w2) + interval (tmem ?w2 t), on_timeout := on_timeout (tmem ?w2 t)\<rparr>),
        io := (io ?w2)\<lparr>refs := refs (io ?w2) + 1, timers := h\<rparr>, hnodes := mem\<rparr>" .
    have i2: "interval (tmem ?w2 t) \<noteq> 0" using False m2(1) w1(3) by simp
    have "timer_fire (run_script (\<lambda>_ _. [])) t w = Inr w3"
      using w1(1) call w3(1) i2 by (simp add: timer_fire_def)
    moreover have "tmem w3 = (tmem w)(t := expired (now (io w)) (tmem w t))"
      unfolding w3(2) using False act m2 w1(3) by (cases "tmem w t") (simp add: expired_def)
    ultimately show ?thesis by blast
  qed
qed

lemma pd_timers_run_idle_script:
  assumes "timers_ok w" "periods_later w"
  shows "\<exists>w' new. pd_timers_run (run_script (\<lambda>_ _. [])) w = Some (Inr w') \<and>
    fired w' = fired w @ new \<and>
    set new = {(t, cb). t \<in> due w \<and> on_timeout (tmem w t) = Some cb} \<and>
    tmem w' = (\<lambda>t. if t \<in> due w then expired (now (io w)) (tmem w t) else tmem w t)"
  using assms
proof (induction "card (due w)" arbitrary: w rule: less_induct)
  case less
  show ?case
  proof (cases "due w = {}")
    case True
    with pd_timers_run_done [OF less.prems(1) True] show ?thesis
      by (intro exI [of _ w] exI [of _ "[]"]) simp
  next
    case False
    from less.prems(1) False obtain t where t: "t \<in> due w"
      "\<And>k. pd_timers_run k w = (case timer_fire k t w of Inl e \<Rightarrow> Some (Inl e)
        | Inr w \<Rightarrow> pd_timers_run k w)" by (rule pd_timers_run_step) blast
    let ?ev = "case on_timeout (tmem w t) of None \<Rightarrow> [] | Some cb \<Rightarrow> [(t, cb)]"
    have act: "active (tmem w t)" using t(1) by (simp add: due_def)
    obtain w1 where w1: "timer_fire (run_script (\<lambda>_ _. [])) t w = Inr w1" "stays_ok w w1"
      "fired w1 = fired w @ ?ev" "settles w w1" "due w1 \<subseteq> due w - {t}"
      using timer_fire_stays [OF less.prems(1), of "\<lambda>_ _. []" t] less.prems(2) by auto
    have tm: "tmem w1 = (tmem w)(t := expired (now (io w)) (tmem w t))"
      using timer_fire_idle_script [OF less.prems(1) act] w1(1) by auto
    have now1: "timers_ok w1" "now (io w1) = now (io w)" using w1(2) by (simp_all add: stays_ok_def)
    have due1: "due w1 = due w - {t}"
      using w1(5) tm now1(2) by (auto simp: due_def)
    have "card (due w1) < card (due w)" using due1 t(1) by (intro psubset_card_mono) auto
    moreover have "periods_later w1" using w1(4) by (simp add: settles_def)
    ultimately obtain w' new where w': "pd_timers_run (run_script (\<lambda>_ _. [])) w1 = Some (Inr w')"
      "fired w' = fired w1 @ new" "set new = {(t, cb). t \<in> due w1 \<and> on_timeout (tmem w1 t) = Some cb}"
      "tmem w' = (\<lambda>t. if t \<in> due w1 then expired (now (io w1)) (tmem w1 t) else tmem w1 t)"
      using less.hyps [of w1] now1(1) by auto
    have "tmem w' u = (if u \<in> due w then expired (now (io w)) (tmem w u) else tmem w u)" for u
      using w'(4) tm due1 now1(2) t(1) by auto
    moreover have "set (?ev @ new) = {(t, cb). t \<in> due w \<and> on_timeout (tmem w t) = Some cb}"
      using w'(3) tm due1 t(1) by (auto split: option.splits)
    moreover have "pd_timers_run (run_script (\<lambda>_ _. [])) w = Some (Inr w')"
      using t(2) w1(1) w'(1) by simp
    ultimately show ?thesis
      using w'(2) w1(3) by (intro exI [of _ w'] exI [of _ "?ev @ new"]) (auto intro: ext)
  qed
qed

text \<open>Whatever the delays, a run that comes to an end does so without a fault.\<close>

lemma pd_timers_run_returns:
  assumes "pd_timers_run (run_script prog) w = Some r" "timers_ok w"
  shows "\<exists>w'. r = Inr w' \<and> stays_ok w w' \<and> due w' = {}"
proof -
  have "k = run_script prog \<longrightarrow> timers_ok w \<longrightarrow> (\<exists>w'. r = Inr w' \<and> stays_ok w w' \<and> due w' = {})"
    if "pd_timers_run k w = Some r" for k
  proof (rule pd_timers_run.raw_induct [OF _ that], intro impI)
    fix run k w r
    assume IH: "\<And>w k r. run w k = Some r \<Longrightarrow> w = run_script prog \<longrightarrow> timers_ok k \<longrightarrow>
        (\<exists>w'. r = Inr w' \<and> stays_ok k w' \<and> due w' = {})"
      and body: "(case heap_peek (timers (io w)) of None \<Rightarrow> Some (Inr w)
        | Some t \<Rightarrow> if now (io w) < due_at (tmem w) t then Some (Inr w)
          else case timer_fire k t w of Inl e \<Rightarrow> Some (Inl e) | Inr w \<Rightarrow> run k w) = Some r"
      and k: "k = run_script prog" and ok: "timers_ok w"
    show "\<exists>w'. r = Inr w' \<and> stays_ok w w' \<and> due w' = {}"
    proof (cases "due w = {}")
      case True
      then have "now (io w) < due_at (tmem w) t" if "heap_peek (timers (io w)) = Some t" for t
        using peek_due(2) [OF ok that] by (force simp: due_def not_le [symmetric])
      then have "r = Inr w" using body by (auto split: option.splits)
      then show ?thesis using True stays_ok_refl [OF ok] by blast
    next
      case False
      from ok False obtain t where t: "heap_peek (timers (io w)) = Some t" "t \<in> due w"
        by (rule pd_timers_run_step)
      obtain w1 where w1: "timer_fire (run_script prog) t w = Inr w1" "stays_ok w w1"
        using timer_fire_stays [OF ok, of prog t] by blast
      have "run k w1 = Some r" using body t w1(1) k by (simp add: due_def not_less [symmetric])
      then obtain w' where "r = Inr w'" "stays_ok w1 w'" "due w' = {}"
        using IH k w1(2) unfolding stays_ok_def by blast
      with stays_ok_trans [OF w1(2)] show ?thesis by blast
    qed
  qed
  then show ?thesis using assms by blast
qed

end
