(* ===== verification/Timer_Properties.thy ===== *)
theory Timer_Properties
  imports Timers
begin

text \<open>
  What the timers promise: no program of timer operations can break the heap or the count of
  references, a run calls each due timer once, earliest deadline first, and comes to an end when
  the delays lie in the future, and the time to the next deadline is the exact distance to the
  earliest one. Two theorems show the limits: a repeating timer cannot stop itself from its own
  callback, and a timer restarted with no delay keeps the run from ending.
\<close>

section \<open>A sample state for the witnesses\<close>

text \<open>Two timers at time 8: number 1 was due at 5, number 2, which repeats every 10, was due at 7.\<close>

definition sample_timers :: timer_mem where
  "sample_timers t =
     (if t = 1 then \<lparr>timeout = 5, interval = 0, active = True, user_data = 0, on_timeout = Some 3\<rparr>
      else if t = 2 then \<lparr>timeout = 7, interval = 10, active = True, user_data = 0, on_timeout = Some 4\<rparr>
      else \<lparr>timeout = 0, interval = 0, active = False, user_data = 0, on_timeout = None\<rparr>)"

definition sample_world :: timer_world where
  "sample_world =
     \<lparr>io = \<lparr>poll_fd = 3, now = 8, refs = 2,
        timers = \<lparr>root = Some 1, heap_size = 2, comparator = pd_timers_comparator\<rparr>,
        pending_closes = \<lparr>q_head = None, q_tail = None\<rparr>,
        finished_tasks = \<lparr>q_head = None, q_tail = None\<rparr>, task_signal = None, after_tick = None,
        task_signaled = False\<rparr>,
      tmem = sample_timers,
      hnodes = (\<lambda>t. if t = 1 then \<lparr>left = Some 2, right = None, parent = None\<rparr>
        else \<lparr>left = None, right = None, parent = Some 1\<rparr>),
      qnodes = (\<lambda>_. \<lparr>qnext = None, qprev = None\<rparr>), fired = []\<rparr>"

lemma sample_active: "active_timers sample_world = {1, 2}"
  by (auto simp: active_timers_def sample_world_def sample_timers_def)

lemma sample_due: "due sample_world = {1, 2}"
  by (auto simp: due_def sample_world_def sample_timers_def split: if_splits)

lemma sample_ok: "timers_ok sample_world"
proof -
  have rep: "heap_rep (timers (io sample_world)) (hnodes sample_world) [1, 2]" by code_simp
  have ord: "heap_ordered (due_at (tmem sample_world)) [1, 2]" by code_simp
  have "comparator (timers (io sample_world)) = pd_timers_comparator" by (simp add: sample_world_def)
  with rep ord show ?thesis unfolding timers_ok_def heap_holds_def sample_active
    by (intro conjI exI [of _ "[1, 2]"]) simp_all
qed

lemma sample_later: "periods_later sample_world"
  by (simp add: periods_later_def sample_world_def sample_timers_def later_def)

section \<open>Properties\<close>

text \<open>
  C5. Whatever a client does with timers - starting, repeating and stopping any of them, twice,
  while armed or not, in any order - no operation follows a \<open>NULL\<close> pointer or fails to return, the
  heap holds exactly the active timers in order of their deadlines, and \<^verbatim>\<open>ctx->refs\<close> changes by
  exactly the change in the number of active timers.
\<close>

theorem timer_commands_sound:
  assumes "timers_ok w"
  shows "\<exists>w'. exec_cmds cs w = Inr w' \<and> timers_ok w' \<and> now (io w') = now (io w) \<and>
    refs (io w') - of_nat (card (active_timers w')) = refs (io w) - of_nat (card (active_timers w))"
  using exec_cmds_stays [OF assms, of cs] by (auto simp: stays_ok_def refs_track_def)

theorem timer_commands_sound_witness:
  "\<exists>w'. exec_cmds [Start 1 None 4, Stop 2, Stop 2, Repeat 9 (Some 1) 0, Start 2 None 1] sample_world
      = Inr w' \<and> timers_ok w' \<and> now (io w') = now (io sample_world) \<and>
    refs (io w') - of_nat (card (active_timers w')) =
      refs (io sample_world) - of_nat (card (active_timers sample_world))"
  by (rule timer_commands_sound [OF sample_ok])

text \<open>
  C6. Running the due timers terminates for every client program whose delays lie in the future
  (not 0, no wrap-around), although callbacks may start, repeat and stop any timer: the callbacks
  called are those of timers that were due when the run began, each timer at most once, in order of
  their deadlines; afterwards no timer is due, the heap is intact, and the references are exact.
\<close>

theorem timers_run_in_order:
  assumes "timers_ok w" "periods_later w" "\<forall>cb u. \<forall>c \<in> set (prog cb u). cmd_later (now (io w)) c"
  shows "\<exists>w' new. pd_timers_run (run_script prog) w = Some (Inr w') \<and> timers_ok w' \<and>
    due w' = {} \<and> fired w' = fired w @ new \<and> set (map fst new) \<subseteq> due w \<and> distinct (map fst new) \<and>
    sorted (map (due_at (tmem w)) (map fst new)) \<and>
    refs (io w') - of_nat (card (active_timers w')) = refs (io w) - of_nat (card (active_timers w))"
  using pd_timers_run_drains [OF assms] unfolding stays_ok_def refs_track_def by blast

theorem timers_run_in_order_witness:
  "\<exists>w' new. pd_timers_run (run_script (\<lambda>cb t. [Stop 2, Start t (Some cb) 4])) sample_world = Some (Inr w') \<and>
    timers_ok w' \<and> due w' = {} \<and> fired w' = fired sample_world @ new \<and>
    set (map fst new) \<subseteq> due sample_world \<and> distinct (map fst new) \<and>
    sorted (map (due_at (tmem sample_world)) (map fst new)) \<and>
    refs (io w') - of_nat (card (active_timers w')) =
      refs (io sample_world) - of_nat (card (active_timers sample_world))"
  by (rule timers_run_in_order [OF sample_ok sample_later])
    (simp add: later_def sample_world_def)

text \<open>
  C7. When the callbacks leave the timers alone, a run calls exactly the callbacks of the due timers;
  afterwards each due timer with a period is armed again for one period from now, each other due
  timer is idle, and every timer that was not due is unchanged.
\<close>

theorem timers_run_exact:
  assumes "timers_ok w" "periods_later w"
  shows "\<exists>w' new. pd_timers_run (run_script (\<lambda>_ _. [])) w = Some (Inr w') \<and>
    fired w' = fired w @ new \<and> set new = {(t, cb). t \<in> due w \<and> on_timeout (tmem w t) = Some cb} \<and>
    tmem w' = (\<lambda>t. if t \<in> due w then expired (now (io w)) (tmem w t) else tmem w t)"
  by (rule pd_timers_run_idle_script [OF assms])

theorem timers_run_exact_witness:
  "\<exists>w' new. pd_timers_run (run_script (\<lambda>_ _. [])) sample_world = Some (Inr w') \<and>
    fired w' = fired sample_world @ new \<and>
    set new = {(t, cb). t \<in> due sample_world \<and> on_timeout (tmem sample_world t) = Some cb} \<and>
    tmem w' = (\<lambda>t. if t \<in> due sample_world then expired (now (io sample_world)) (tmem sample_world t)
      else tmem sample_world t)"
  by (rule timers_run_exact [OF sample_ok sample_later])

text \<open>
  C8. Whatever the delays, a run of the timers never faults: it either returns with an intact heap and
  no timer left due, or it does not return (\<open>None\<close>, see C11).
\<close>

theorem timers_run_never_faults:
  assumes "timers_ok w"
  shows "pd_timers_run (run_script prog) w = None \<or>
    (\<exists>w'. pd_timers_run (run_script prog) w = Some (Inr w') \<and> timers_ok w' \<and> due w' = {})"
  using pd_timers_run_returns [OF _ assms, of prog] unfolding stays_ok_def
  by (cases "pd_timers_run (run_script prog) w") auto

theorem timers_run_never_faults_witness:
  "pd_timers_run (run_script (\<lambda>cb t. [Start t (Some cb) 0])) sample_world = None \<or>
    (\<exists>w'. pd_timers_run (run_script (\<lambda>cb t. [Start t (Some cb) 0])) sample_world = Some (Inr w') \<and>
      timers_ok w' \<and> due w' = {})"
  by (rule timers_run_never_faults [OF sample_ok])

text \<open>
  C9. The time to sleep: -1 (for ever) exactly when no timer is active; otherwise, when no deadline has
  passed, between 0 and \<open>INT_MAX\<close>, never beyond the deadline of any active timer, and exactly the
  distance to the earliest one unless that distance is clipped to \<open>INT_MAX\<close>.
\<close>

theorem timers_next_exact:
  assumes "timers_ok w" "\<forall>t. active (tmem w t) \<longrightarrow> now (io w) \<le> timeout (tmem w t)"
  shows "(pd_timers_next w = -1 \<and> active_timers w = {}) \<or>
    (0 \<le> pd_timers_next w \<and> pd_timers_next w \<le> INT_MAX \<and>
     (\<forall>t. active (tmem w t) \<longrightarrow> uint (now (io w)) + pd_timers_next w \<le> uint (timeout (tmem w t))) \<and>
     (\<exists>t. active (tmem w t) \<and>
       pd_timers_next w = min INT_MAX (uint (timeout (tmem w t)) - uint (now (io w)))))"
proof (cases "heap_peek (timers (io w))")
  case None
  then show ?thesis using peek_due(1) [OF assms(1)] by (simp add: pd_timers_next_def)
next
  case (Some t)
  note le = peek_due(3) [OF assms(1) Some]
  have t: "active (tmem w t)" by (rule peek_due(2) [OF assms(1) Some])
  define d where "d = uint (timeout (tmem w t)) - uint (now (io w))"
  have n: "now (io w) \<le> timeout (tmem w t)" using assms(2) t by blast
  then have "uint (timeout (tmem w t) - now (io w)) = d" by (simp add: uint_sub_lem [THEN iffD1] word_le_def d_def)
  then have next_d: "pd_timers_next w = min INT_MAX d" using Some by (simp add: pd_timers_next_def)
  have d0: "0 \<le> d" using n by (simp add: d_def word_le_def)
  have imax: "(0::int) \<le> INT_MAX" by (simp add: INT_MAX_def)
  have no_later: "uint (now (io w)) + min INT_MAX d \<le> uint (timeout (tmem w u))"
    if "active (tmem w u)" for u
    using le [OF that] by (simp add: d_def word_le_def)
  have "\<exists>t. active (tmem w t) \<and> min INT_MAX d = min INT_MAX (uint (timeout (tmem w t)) - uint (now (io w)))"
    using t unfolding d_def by blast
  with d0 imax no_later show ?thesis unfolding next_d by simp
qed

theorem timers_next_exact_witness:
  "let w = sample_world\<lparr>io := (io sample_world)\<lparr>now := 4\<rparr>\<rparr> in
    (pd_timers_next w = -1 \<and> active_timers w = {}) \<or>
    (0 \<le> pd_timers_next w \<and> pd_timers_next w \<le> INT_MAX \<and>
     (\<forall>t. active (tmem w t) \<longrightarrow> uint (now (io w)) + pd_timers_next w \<le> uint (timeout (tmem w t))) \<and>
     (\<exists>t. active (tmem w t) \<and>
       pd_timers_next w = min INT_MAX (uint (timeout (tmem w t)) - uint (now (io w)))))"
proof -
  let ?w = "sample_world\<lparr>io := (io sample_world)\<lparr>now := 4\<rparr>\<rparr>"
  have "active_timers ?w = active_timers sample_world" by (simp add: active_timers_def)
  then have "timers_ok ?w" using sample_ok by (simp add: timers_ok_def)
  moreover have "\<forall>t. active (tmem ?w t) \<longrightarrow> now (io ?w) \<le> timeout (tmem ?w t)"
    by (simp add: sample_world_def sample_timers_def)
  ultimately show ?thesis unfolding Let_def by (rule timers_next_exact)
qed

text \<open>
  C10. A repeating timer that stops itself in its own callback is not stopped: the run has already
  marked it idle, so \<open>pd_timer_stop\<close> does nothing, and it is armed again for its next period.
\<close>

theorem self_stop_has_no_effect:
  assumes "timers_ok w" "active (tmem w t)" "interval (tmem w t) \<noteq> 0"
    and "on_timeout (tmem w t) = Some cb" "prog cb t = [Stop t]"
  shows "\<exists>w'. timer_fire (run_script prog) t w = Inr w' \<and> active (tmem w' t) \<and>
    timeout (tmem w' t) = now (io w) + interval (tmem w t)"
proof -
  from pd_timer_stop_ok [OF assms(1,2)] obtain w1 h mem where w1: "pd_timer_stop t w = Inr w1"
    "timers_ok w1" "w1 = w\<lparr>tmem := (tmem w)(t := (tmem w t)\<lparr>active := False\<rparr>),
      io := (io w)\<lparr>refs := refs (io w) - 1, timers := h\<rparr>, hnodes := mem\<rparr>" .
  let ?w2 = "w1\<lparr>fired := fired w1 @ [(t, cb)]\<rparr>"
  have idle: "\<not> active (tmem ?w2 t)" using w1(3) by simp
  have "active_timers ?w2 = active_timers w1" by (simp add: active_timers_def)
  then have ok2: "timers_ok ?w2" using w1(2) by (simp add: timers_ok_def)
  from pd_timer_start_ok [OF ok2 idle, of "on_timeout (tmem ?w2 t)" "interval (tmem ?w2 t)"]
  obtain w3 h mem where w3:
    "pd_timer_start t (on_timeout (tmem ?w2 t)) (interval (tmem ?w2 t)) ?w2 = Inr w3"
    "w3 = ?w2\<lparr>tmem := (tmem ?w2)(t := (tmem ?w2 t)\<lparr>active := True,
        timeout := now (io ?w2) + interval (tmem ?w2 t), on_timeout := on_timeout (tmem ?w2 t)\<rparr>),
      io := (io ?w2)\<lparr>refs := refs (io ?w2) + 1, timers := h\<rparr>, hnodes := mem\<rparr>" .
  have w3': "active (tmem w3 t)" "timeout (tmem w3 t) = now (io ?w2) + interval (tmem ?w2 t)"
    unfolding w3(2) by simp_all
  have same: "on_timeout (tmem w1 t) = Some cb" "interval (tmem ?w2 t) = interval (tmem w t)"
    "now (io ?w2) = now (io w)"
    using w1(3) assms(4) by simp_all
  have "run_script prog cb t w1 = Inr ?w2"
    using idle assms(5) by (simp add: run_script_def)
  then have "timer_fire (run_script prog) t w = Inr w3"
    using w1(1) same w3(1) assms(3) by (simp add: timer_fire_def)
  with w3' same(2,3) show ?thesis by (intro exI [of _ w3]) (simp only: simp_thms)
qed

theorem self_stop_has_no_effect_witness:
  "\<exists>w'. timer_fire (run_script (\<lambda>_ t. [Stop t])) 2 sample_world = Inr w' \<and> active (tmem w' 2) \<and>
    timeout (tmem w' 2) = now (io sample_world) + interval (tmem sample_world 2)"
  by (rule self_stop_has_no_effect [OF sample_ok, where cb = 4])
    (simp_all add: sample_world_def sample_timers_def)

text \<open>
  C11. A callback that starts its timer again with a delay of 0 keeps \<open>pd_timers_run\<close> from returning:
  \<^verbatim>\<open>ctx->now\<close> is read once per turn of the event loop, so the timer is due again at once.
\<close>

abbreviation restart_now :: "callback \<Rightarrow> timer \<Rightarrow> timer_cmd list" where
  "restart_now \<equiv> \<lambda>cb t. [Start t (Some cb) 0]"

lemma timer_fire_restart:
  assumes ok: "timers_ok w" and act: "active (tmem w u)"
  shows "\<exists>w'. timer_fire (run_script restart_now) u w = Inr w' \<and> timers_ok w' \<and>
    now (io w') = now (io w) \<and> (\<forall>t. t \<noteq> u \<longrightarrow> tmem w' t = tmem w t) \<and>
    (\<forall>cb. on_timeout (tmem w u) = Some cb \<longrightarrow> active (tmem w' u) \<and>
      timeout (tmem w' u) = now (io w) \<and> on_timeout (tmem w' u) = Some cb)"
proof -
  obtain w' where w': "timer_fire (run_script restart_now) u w = Inr w'" "stays_ok w w'"
    using timer_fire_stays [OF ok] by blast
  from pd_timer_stop_ok [OF assms] obtain w1 h mem where w1: "pd_timer_stop u w = Inr w1"
    "timers_ok w1" "w1 = w\<lparr>tmem := (tmem w)(u := (tmem w u)\<lparr>active := False\<rparr>),
      io := (io w)\<lparr>refs := refs (io w) - 1, timers := h\<rparr>, hnodes := mem\<rparr>" .
  have w1_tmem: "tmem w1 = (tmem w)(u := (tmem w u)\<lparr>active := False\<rparr>)"
    "now (io w1) = now (io w)" unfolding w1(3) by simp_all
  show ?thesis
  proof (cases "on_timeout (tmem w u)")
    case (Some cb)
    let ?w2 = "w1\<lparr>fired := fired w1 @ [(u, cb)]\<rparr>"
    have idle: "\<not> active (tmem ?w2 u)" using w1_tmem by simp
    have "active_timers ?w2 = active_timers w1" by (simp add: active_timers_def)
    then have ok2: "timers_ok ?w2" using w1(2) by (simp add: timers_ok_def)
    from pd_timer_start_ok [OF ok2 idle, of "Some cb" 0] obtain w3 h mem where w3:
      "pd_timer_start u (Some cb) 0 ?w2 = Inr w3"
      "w3 = ?w2\<lparr>tmem := (tmem ?w2)(u := (tmem ?w2 u)\<lparr>active := True,
          timeout := now (io ?w2) + 0, on_timeout := Some cb\<rparr>),
        io := (io ?w2)\<lparr>refs := refs (io ?w2) + 1, timers := h\<rparr>, hnodes := mem\<rparr>" .
    have w3_tmem: "tmem w3 = (tmem w)(u := (tmem w u)\<lparr>active := True, timeout := now (io w), on_timeout := Some cb\<rparr>)"
      unfolding w3(2) using w1_tmem by simp
    have "run_script restart_now cb u w1 = Inr w3" using w3(1) by (simp add: run_script_def)
    then have "timer_fire (run_script restart_now) u w = Inr w3"
      using w1(1) w1_tmem Some w3_tmem by (simp add: timer_fire_def)
    then show ?thesis using w' w3_tmem Some by (auto simp: stays_ok_def)
  next
    case None
    have "timer_fire (run_script restart_now) u w =
        (if interval (tmem w u) \<noteq> 0 then pd_timer_start u None (interval (tmem w u)) w1 else Inr w1)"
      using w1(1) w1_tmem None by (simp add: timer_fire_def)
    then have "pd_timer_start u None (interval (tmem w u)) w1 = Inr w' \<or> w' = w1"
      using w'(1) by (auto split: if_splits)
    moreover have "\<forall>t. t \<noteq> u \<longrightarrow> tmem w2 t = tmem w t"
      if "pd_timer_start u None d w1 = Inr w2" for d w2
    proof -
      have "\<not> active (tmem w1 u)" using w1_tmem by simp
      from pd_timer_start_ok [OF w1(2) this, of None d] obtain w3 h mem where w3:
        "pd_timer_start u None d w1 = Inr w3"
        "w3 = w1\<lparr>tmem := (tmem w1)(u := (tmem w1 u)\<lparr>active := True, timeout := now (io w1) + d,
            on_timeout := None\<rparr>),
          io := (io w1)\<lparr>refs := refs (io w1) + 1, timers := h\<rparr>, hnodes := mem\<rparr>" .
      then show ?thesis using that w1_tmem by simp
    qed
    moreover have "\<forall>t. t \<noteq> u \<longrightarrow> tmem w1 t = tmem w t" using w1_tmem by simp
    ultimately have "\<forall>t. t \<noteq> u \<longrightarrow> tmem w' t = tmem w t" by blast
    then show ?thesis using w' None by (intro exI [of _ w']) (simp add: stays_ok_def)
  qed
qed

theorem zero_delay_never_returns:
  assumes "timers_ok w" "t \<in> due w" "on_timeout (tmem w t) \<noteq> None"
  shows "pd_timers_run (run_script restart_now) w = None"
proof -
  have "k = run_script restart_now \<longrightarrow> timers_ok w \<longrightarrow>
      \<not> (\<exists>t. t \<in> due w \<and> on_timeout (tmem w t) \<noteq> None)"
    if "pd_timers_run k w = Some r" for k r and w :: "'a timer_world_scheme"
  proof (rule pd_timers_run.raw_induct [OF _ that], intro impI notI)
    fix run k r and w :: "'a timer_world_scheme"
    assume IH: "\<And>w k r. run w k = Some r \<Longrightarrow> w = run_script restart_now \<longrightarrow> timers_ok k \<longrightarrow>
        \<not> (\<exists>t. t \<in> due k \<and> on_timeout (tmem k t) \<noteq> None)"
      and body: "(case heap_peek (timers (io w)) of None \<Rightarrow> Some (Inr w)
        | Some t \<Rightarrow> if now (io w) < due_at (tmem w) t then Some (Inr w)
          else case timer_fire k t w of Inl e \<Rightarrow> Some (Inl e) | Inr w \<Rightarrow> run k w) = Some r"
      and k: "k = run_script restart_now" and ok: "timers_ok w"
      and t: "\<exists>t. t \<in> due w \<and> on_timeout (tmem w t) \<noteq> None"
    obtain t where t: "t \<in> due w" "on_timeout (tmem w t) \<noteq> None" using t by blast
    from ok t(1) obtain u where u: "heap_peek (timers (io w)) = Some u" "u \<in> due w"
      by (metis empty_iff pd_timers_run_step)
    then have act: "active (tmem w u)" by (simp add: due_def)
    obtain w1 where w1: "timer_fire (run_script restart_now) u w = Inr w1" "timers_ok w1"
      "now (io w1) = now (io w)" "\<forall>t. t \<noteq> u \<longrightarrow> tmem w1 t = tmem w t"
      "\<forall>cb. on_timeout (tmem w u) = Some cb \<longrightarrow> active (tmem w1 u) \<and>
        timeout (tmem w1 u) = now (io w) \<and> on_timeout (tmem w1 u) = Some cb"
      using timer_fire_restart [OF ok act] by blast
    have "run k w1 = Some r" using body u w1(1) k by (simp add: due_def not_less [symmetric])
    moreover have "t \<in> due w1" "on_timeout (tmem w1 t) \<noteq> None"
      using t w1(3-5) by (cases "t = u"; auto simp: due_def)+
    ultimately show False using IH k w1(2) by blast
  qed
  then show ?thesis using assms by (cases "pd_timers_run (run_script restart_now) w") blast+
qed

theorem zero_delay_never_returns_witness:
  "pd_timers_run (run_script restart_now) sample_world = None"
  by (rule zero_delay_never_returns [OF sample_ok, of 1], simp add: sample_due)
    (simp add: sample_world_def sample_timers_def)

end
