(* ===== verification/Errors.thy ===== *)
theory Errors
  imports Pandio_Prelude
begin

text \<open>
  Error codes: the macros and the two tables of \<^verbatim>\<open>include/pandio/err.h\<close>, and \<open>pd_errname\<close>,
  \<open>pd_errstr\<close> and \<open>pd_errmap\<close> of \<^verbatim>\<open>src/internal.c\<close>. What \<^verbatim>\<open>errno.h\<close> of the platform defines is
  the parameter \<open>sys\<close> (\<open>None\<close> where a name is not defined), and what \<^verbatim>\<open>windows.h\<close> defines is
  \<open>win\<close>. A \<^verbatim>\<open>switch\<close> over a table is a search for the first entry with the code; a table with two
  entries of one code does not compile, which \<open>distinct\<close> expresses.
\<close>

section \<open>The macros\<close>

text \<open>The value of \<^verbatim>\<open>PD_X\<close> where \<^verbatim>\<open>errno.h\<close> does not define \<^verbatim>\<open>X\<close>.\<close>

definition pd_fallback_1 :: "(string \<times> int) list" where
  "pd_fallback_1 =
    [(''EPERM'', -3001), (''ENOENT'', -3002), (''ESRCH'', -3003), (''EINTR'', -3004),
     (''EIO'', -3005), (''ENXIO'', -3006), (''E2BIG'', -3007), (''ENOEXEC'', -3008),
     (''EBADF'', -3009), (''ECHILD'', -3010), (''EAGAIN'', -3011), (''ENOMEM'', -3012),
     (''EACCES'', -3013), (''EFAULT'', -3014), (''ENOTBLK'', -3015), (''EBUSY'', -3016),
     (''EEXIST'', -3017), (''EXDEV'', -3018), (''ENODEV'', -3019), (''ENOTDIR'', -3020),
     (''EISDIR'', -3021), (''EINVAL'', -3022), (''ENFILE'', -3023)]"

definition pd_fallback_2 :: "(string \<times> int) list" where
  "pd_fallback_2 =
    [(''EMFILE'', -3024), (''ENOTTY'', -3025), (''ETXTBSY'', -3026), (''EFBIG'', -3027),
     (''ENOSPC'', -3028), (''ESPIPE'', -3029), (''EROFS'', -3030), (''EMLINK'', -3031),
     (''EPIPE'', -3032), (''EDOM'', -3033), (''ERANGE'', -3034), (''EDEADLK'', -3035),
     (''ENAMETOOLONG'', -3036), (''ENOLCK'', -3037), (''ENOSYS'', -3038), (''ENOTEMPTY'', -3039),
     (''ELOOP'', -3040), (''EWOULDBLOCK'', -3011), (''ENOMSG'', -3042), (''EIDRM'', -3043),
     (''ECHRNG'', -3044), (''EL2NSYNC'', -3045), (''EL3HLT'', -3046)]"

definition pd_fallback_3 :: "(string \<times> int) list" where
  "pd_fallback_3 =
    [(''EL3RST'', -3047), (''ELNRNG'', -3048), (''EUNATCH'', -3049), (''ENOCSI'', -3050),
     (''EL2HLT'', -3051), (''EBADE'', -3052), (''EBADR'', -3053), (''EXFULL'', -3054),
     (''ENOANO'', -3055), (''EBADRQC'', -3056), (''EBADSLT'', -3057), (''EDEADLOCK'', -3035),
     (''EBFONT'', -3059), (''ENOSTR'', -3060), (''ENODATA'', -3061), (''ETIME'', -3062),
     (''ENOSR'', -3063), (''ENONET'', -3064), (''ENOPKG'', -3065), (''EREMOTE'', -3066),
     (''ENOLINK'', -3067), (''EADV'', -3068), (''ESRMNT'', -3069)]"

definition pd_fallback_4 :: "(string \<times> int) list" where
  "pd_fallback_4 =
    [(''ECOMM'', -3070), (''EPROTO'', -3071), (''EMULTIHOP'', -3072), (''EDOTDOT'', -3073),
     (''EBADMSG'', -3074), (''EOVERFLOW'', -3075), (''ENOTUNIQ'', -3076), (''EBADFD'', -3077),
     (''EREMCHG'', -3078), (''ELIBACC'', -3079), (''ELIBBAD'', -3080), (''ELIBSCN'', -3081),
     (''ELIBMAX'', -3082), (''ELIBEXEC'', -3083), (''EILSEQ'', -3084), (''ERESTART'', -3085),
     (''ESTRPIPE'', -3086), (''EUSERS'', -3087), (''ENOTSOCK'', -3088),
     (''EDESTADDRREQ'', -3089), (''EMSGSIZE'', -3090), (''EPROTOTYPE'', -3091),
     (''ENOPROTOOPT'', -3092)]"

definition pd_fallback_5 :: "(string \<times> int) list" where
  "pd_fallback_5 =
    [(''EPROTONOSUPPORT'', -3093), (''ESOCKTNOSUPPORT'', -3094), (''EOPNOTSUPP'', -3095),
     (''ENOTSUP'', -3095), (''EPFNOSUPPORT'', -3096), (''EAFNOSUPPORT'', -3097),
     (''EADDRINUSE'', -3098), (''EADDRNOTAVAIL'', -3099), (''ENETDOWN'', -3100),
     (''ENETUNREACH'', -3101), (''ENETRESET'', -3102), (''ECONNABORTED'', -3103),
     (''ECONNRESET'', -3104), (''ENOBUFS'', -3105), (''EISCONN'', -3106), (''ENOTCONN'', -3107),
     (''ESHUTDOWN'', -3108), (''ETOOMANYREFS'', -3109), (''ETIMEDOUT'', -3110),
     (''ECONNREFUSED'', -3111), (''EHOSTDOWN'', -3112), (''EHOSTUNREACH'', -3113),
     (''EALREADY'', -3114)]"

definition pd_fallback_6 :: "(string \<times> int) list" where
  "pd_fallback_6 =
    [(''EINPROGRESS'', -3115), (''ESTALE'', -3116), (''EUCLEAN'', -3117), (''ENOTNAM'', -3118),
     (''ENAVAIL'', -3119), (''EISNAM'', -3120), (''EREMOTEIO'', -3121), (''EDQUOT'', -3122),
     (''ENOMEDIUM'', -3123), (''EMEDIUMTYPE'', -3124), (''ECANCELED'', -3125),
     (''ENOKEY'', -3126), (''EKEYEXPIRED'', -3127), (''EKEYREVOKED'', -3128),
     (''EKEYREJECTED'', -3129), (''EOWNERDEAD'', -3130), (''ENOTRECOVERABLE'', -3131),
     (''ERFKILL'', -3132), (''EHWPOISON'', -3133)]"

definition pd_fallback :: "(string \<times> int) list" where
  "pd_fallback = pd_fallback_1 @ pd_fallback_2 @ pd_fallback_3 @ pd_fallback_4 @ pd_fallback_5 @ pd_fallback_6"

text \<open>The library's own codes.\<close>

definition pd_custom :: "(string \<times> int) list" where
  "pd_custom = [(''OK'', 0), (''UNKNOWN'', -7000), (''EOF'', -7002)]"

text \<open>The value of the macro \<^verbatim>\<open>PD_\<close>\<open>n\<close>, \<open>None\<close> if there is no such macro.\<close>

definition pd_macro :: "(string \<Rightarrow> int option) \<Rightarrow> string \<Rightarrow> int option" where
  "pd_macro sys n =
     (case map_of pd_custom n of
        Some c \<Rightarrow> Some c
      | None \<Rightarrow>
          (case map_of pd_fallback n of
             None \<Rightarrow> None
           | Some c \<Rightarrow> Some (case sys n of Some e \<Rightarrow> - e | None \<Rightarrow> c)))"

section \<open>The tables\<close>

definition pd_err_name_mapping :: "(string \<times> string) list" where
  "pd_err_name_mapping =
    [(''EPERM'', ''EPERM''), (''ENOENT'', ''ENOENT''), (''ESRCH'', ''ESRCH''),
     (''EINTR'', ''EINTR''), (''EIO'', ''EIO''), (''ENXIO'', ''ENXIO''), (''E2BIG'', ''E2BIG''),
     (''ENOEXEC'', ''ENOEXEC''), (''EBADF'', ''EBADF''), (''ECHILD'', ''ECHILD''),
     (''EAGAIN'', ''EAGAIN''), (''ENOMEM'', ''ENOMEM''), (''EACCES'', ''EACCES''),
     (''EFAULT'', ''EFAULT''), (''ENOTBLK'', ''ENOTBLK''), (''EBUSY'', ''EBUSY''),
     (''EEXIST'', ''EEXIST''), (''EXDEV'', ''EXDEV''), (''ENODEV'', ''ENODEV''),
     (''ENOTDIR'', ''ENOTDIR''), (''EISDIR'', ''EISDIR''), (''EINVAL'', ''EINVAL''),
     (''ENFILE'', ''ENFILE''), (''EMFILE'', ''EMFILE''), (''ENOTTY'', ''ENOTTY''),
     (''ETXTBSY'', ''ETXTBSY''), (''EFBIG'', ''EFBIG''), (''ENOSPC'', ''ENOSPC''),
     (''ESPIPE'', ''ESPIPE''), (''EROFS'', ''EROFS''), (''EMLINK'', ''EMLINK''),
     (''EPIPE'', ''EPIPE''), (''EDOM'', ''EDOM''), (''ERANGE'', ''ERANGE''),
     (''EDEADLK'', ''EDEADLK''), (''ENAMETOOLONG'', ''ENAMETOOLONG''), (''ENOLCK'', ''ENOLCK''),
     (''ENOSYS'', ''ENOSYS''), (''ENOTEMPTY'', ''ENOTEMPTY''), (''ELOOP'', ''ELOOP''),
     (''ENOMSG'', ''ENOMSG''), (''EIDRM'', ''EIDRM''), (''ECHRNG'', ''ECHRNG''),
     (''EL2NSYNC'', ''EL2NSYNC''), (''EL3HLT'', ''EL3HLT''), (''EL3RST'', ''EL3RST''),
     (''ELNRNG'', ''ELNRNG''), (''EUNATCH'', ''EUNATCH''), (''ENOCSI'', ''ENOCSI''),
     (''EL2HLT'', ''EL2HLT''), (''EBADE'', ''EBADE''), (''EBADR'', ''EBADR''),
     (''EXFULL'', ''EXFULL''), (''ENOANO'', ''ENOANO''), (''EBADRQC'', ''EBADRQC''),
     (''EBADSLT'', ''EBADSLT''), (''EBFONT'', ''EBFONT''), (''ENOSTR'', ''ENOSTR''),
     (''ENODATA'', ''ENODATA''), (''ETIME'', ''ETIME''), (''ENOSR'', ''ENOSR''),
     (''ENONET'', ''ENONET''), (''ENOPKG'', ''ENOPKG''), (''EREMOTE'', ''EREMOTE''),
     (''ENOLINK'', ''ENOLINK''), (''EADV'', ''EADV''), (''ESRMNT'', ''ESRMNT''),
     (''ECOMM'', ''ECOMM''), (''EPROTO'', ''EPROTO''), (''EMULTIHOP'', ''EMULTIHOP''),
     (''EDOTDOT'', ''EDOTDOT''), (''EBADMSG'', ''EBADMSG''), (''EOVERFLOW'', ''EOVERFLOW''),
     (''ENOTUNIQ'', ''ENOTUNIQ''), (''EBADFD'', ''EBADFD''), (''EREMCHG'', ''EREMCHG''),
     (''ELIBACC'', ''ELIBACC''), (''ELIBBAD'', ''ELIBBAD''), (''ELIBSCN'', ''ELIBSCN''),
     (''ELIBMAX'', ''ELIBMAX''), (''ELIBEXEC'', ''ELIBEXEC''), (''EILSEQ'', ''EILSEQ''),
     (''ERESTART'', ''ERESTART''), (''ESTRPIPE'', ''ESTRPIPE''), (''EUSERS'', ''EUSERS''),
     (''ENOTSOCK'', ''ENOTSOCK''), (''EDESTADDRREQ'', ''EDESTADDRREQ''),
     (''EMSGSIZE'', ''EMSGSIZE''), (''EPROTOTYPE'', ''EPROTOTYPE''),
     (''ENOPROTOOPT'', ''ENOPROTOOPT''), (''EPROTONOSUPPORT'', ''EPROTONOSUPPORT''),
     (''ESOCKTNOSUPPORT'', ''ESOCKTNOSUPPORT''), (''EOPNOTSUPP'', ''EOPNOTSUPP''),
     (''EPFNOSUPPORT'', ''EPFNOSUPPORT''), (''EAFNOSUPPORT'', ''EAFNOSUPPORT''),
     (''EADDRINUSE'', ''EADDRINUSE''), (''EADDRNOTAVAIL'', ''EADDRNOTAVAIL''),
     (''ENETDOWN'', ''ENETDOWN''), (''ENETUNREACH'', ''ENETUNREACH''),
     (''ENETRESET'', ''ENETRESET''), (''ECONNABORTED'', ''ECONNABORTED''),
     (''ECONNRESET'', ''ECONNRESET''), (''ENOBUFS'', ''ENOBUFS''), (''EISCONN'', ''EISCONN''),
     (''ENOTCONN'', ''ENOTCONN''), (''ESHUTDOWN'', ''ESHUTDOWN''),
     (''ETOOMANYREFS'', ''ETOOMANYREFS''), (''ETIMEDOUT'', ''ETIMEDOUT''),
     (''ECONNREFUSED'', ''ECONNREFUSED''), (''EHOSTDOWN'', ''EHOSTDOWN''),
     (''EHOSTUNREACH'', ''EHOSTUNREACH''), (''EALREADY'', ''EALREADY''),
     (''EINPROGRESS'', ''EINPROGRESS''), (''ESTALE'', ''ESTALE''), (''EUCLEAN'', ''EUCLEAN''),
     (''ENOTNAM'', ''ENOTNAM''), (''ENAVAIL'', ''ENAVAIL''), (''EISNAM'', ''EISNAM''),
     (''EREMOTEIO'', ''EREMOTEIO''), (''EDQUOT'', ''EDQUOT''), (''ENOMEDIUM'', ''ENOMEDIUM''),
     (''EMEDIUMTYPE'', ''EMEDIUMTYPE''), (''ECANCELED'', ''ECANCELED''),
     (''ENOKEY'', ''ENOKEY''), (''EKEYEXPIRED'', ''EKEYEXPIRED''),
     (''EKEYREVOKED'', ''EKEYREVOKED''), (''EKEYREJECTED'', ''EKEYREJECTED''),
     (''EOWNERDEAD'', ''EOWNERDEAD''), (''ENOTRECOVERABLE'', ''ENOTRECOVERABLE''),
     (''ERFKILL'', ''ERFKILL''), (''EHWPOISON'', ''EHWPOISON''), (''OK'', ''OK''),
     (''UNKNOWN'', ''UNKNOWN''), (''EOF'', ''EOF'')]"

definition pd_err_str_mapping :: "(string \<times> string) list" where
  "pd_err_str_mapping =
    [(''EPERM'', ''Operation not permitted''), (''ENOENT'', ''No such file or directory''),
     (''ESRCH'', ''No such process''), (''EINTR'', ''Interrupted system call''),
     (''EIO'', ''I/O error''), (''ENXIO'', ''No such device or address''),
     (''E2BIG'', ''Argument list too long''), (''ENOEXEC'', ''Exec format error''),
     (''EBADF'', ''Bad file descriptor''), (''ECHILD'', ''No child processes''),
     (''EAGAIN'', ''Try again''), (''ENOMEM'', ''Out of memory''),
     (''EACCES'', ''Permission denied''), (''EFAULT'', ''Bad address''),
     (''ENOTBLK'', ''Block device required''), (''EBUSY'', ''Device or resource busy''),
     (''EEXIST'', ''File exists''), (''EXDEV'', ''Cross-device link''),
     (''ENODEV'', ''No such device''), (''ENOTDIR'', ''Not a directory''),
     (''EISDIR'', ''Is a directory''), (''EINVAL'', ''Invalid argument''),
     (''ENFILE'', ''File table overflow''), (''EMFILE'', ''Too many open files''),
     (''ENOTTY'', ''Not a typewriter''), (''ETXTBSY'', ''Text file busy''),
     (''EFBIG'', ''File too large''), (''ENOSPC'', ''No space left on device''),
     (''ESPIPE'', ''Illegal seek''), (''EROFS'', ''Read-only file system''),
     (''EMLINK'', ''Too many links''), (''EPIPE'', ''Broken pipe''),
     (''EDOM'', ''Math argument out of domain of func''),
     (''ERANGE'', ''Math result not representable''),
     (''EDEADLK'', ''Resource deadlock would occur''),
     (''ENAMETOOLONG'', ''File name too long''), (''ENOLCK'', ''No record locks available''),
     (''ENOSYS'', ''Function not implemented''), (''ENOTEMPTY'', ''Directory not empty''),
     (''ELOOP'', ''Too many symbolic links encountered''),
     (''ENOMSG'', ''No message of desired type''), (''EIDRM'', ''Identifier removed''),
     (''ECHRNG'', ''Channel number out of range''), (''EL2NSYNC'', ''Level 2 not synchronized''),
     (''EL3HLT'', ''Level 3 halted''), (''EL3RST'', ''Level 3 reset''),
     (''ELNRNG'', ''Link number out of range''), (''EUNATCH'', ''Protocol driver not attached''),
     (''ENOCSI'', ''No CSI structure available''), (''EL2HLT'', ''Level 2 halted''),
     (''EBADE'', ''Invalid exchange''), (''EBADR'', ''Invalid request descriptor''),
     (''EXFULL'', ''Exchange full''), (''ENOANO'', ''No anode''),
     (''EBADRQC'', ''Invalid request code''), (''EBADSLT'', ''Invalid slot''),
     (''EBFONT'', ''Bad font file format''), (''ENOSTR'', ''Device not a stream''),
     (''ENODATA'', ''No data available''), (''ETIME'', ''Timer expired''),
     (''ENOSR'', ''Out of streams resources''), (''ENONET'', ''Machine is not on the network''),
     (''ENOPKG'', ''Package not installed''), (''EREMOTE'', ''Object is remote''),
     (''ENOLINK'', ''Link has been severed''), (''EADV'', ''Advertise error''),
     (''ESRMNT'', ''Srmount error''), (''ECOMM'', ''Communication error on send''),
     (''EPROTO'', ''Protocol error''), (''EMULTIHOP'', ''Multihop attempted''),
     (''EDOTDOT'', ''RFS specific error''), (''EBADMSG'', ''Not a data message''),
     (''EOVERFLOW'', ''Value too large for defined data type''),
     (''ENOTUNIQ'', ''Name not unique on network''),
     (''EBADFD'', ''File descriptor in bad state''), (''EREMCHG'', ''Remote address changed''),
     (''ELIBACC'', ''Can not access a needed shared library''),
     (''ELIBBAD'', ''Accessing a corrupted shared library''),
     (''ELIBSCN'', ''.lib section in a.out corrupted''),
     (''ELIBMAX'', ''Attempting to link in too many shared libraries''),
     (''ELIBEXEC'', ''Cannot exec a shared library directly''),
     (''EILSEQ'', ''Illegal byte sequence''),
     (''ERESTART'', ''Interrupted system call should be restarted''),
     (''ESTRPIPE'', ''Streams pipe error''), (''EUSERS'', ''Too many users''),
     (''ENOTSOCK'', ''Socket operation on non-socket''),
     (''EDESTADDRREQ'', ''Destination address required''), (''EMSGSIZE'', ''Message too long''),
     (''EPROTOTYPE'', ''Protocol wrong type for socket''),
     (''ENOPROTOOPT'', ''Protocol not available''),
     (''EPROTONOSUPPORT'', ''Protocol not supported''),
     (''ESOCKTNOSUPPORT'', ''Socket type not supported''),
     (''EOPNOTSUPP'', ''Operation not supported on transport endpoint''),
     (''EPFNOSUPPORT'', ''Protocol family not supported''),
     (''EAFNOSUPPORT'', ''Address family not supported by protocol''),
     (''EADDRINUSE'', ''Address already in use''),
     (''EADDRNOTAVAIL'', ''Cannot assign requested address''),
     (''ENETDOWN'', ''Network is down''), (''ENETUNREACH'', ''Network is unreachable''),
     (''ENETRESET'', ''Network dropped connection because of reset''),
     (''ECONNABORTED'', ''Software caused connection abort''),
     (''ECONNRESET'', ''Connection reset by peer''),
     (''ENOBUFS'', ''No buffer space available''),
     (''EISCONN'', ''Transport endpoint is already connected''),
     (''ENOTCONN'', ''Transport endpoint is not connected''),
     (''ESHUTDOWN'', ''Cannot send after transport endpoint shutdown''),
     (''ETOOMANYREFS'', ''Too many references: cannot splice''),
     (''ETIMEDOUT'', ''Connection timed out''), (''ECONNREFUSED'', ''Connection refused''),
     (''EHOSTDOWN'', ''Host is down''), (''EHOSTUNREACH'', ''No route to host''),
     (''EALREADY'', ''Operation already in progress''),
     (''EINPROGRESS'', ''Operation now in progress''), (''ESTALE'', ''Stale file handle''),
     (''EUCLEAN'', ''Structure needs cleaning''), (''ENOTNAM'', ''Not a XENIX named type file''),
     (''ENAVAIL'', ''No XENIX semaphores available''), (''EISNAM'', ''Is a named type file''),
     (''EREMOTEIO'', ''Remote I/O error''), (''EDQUOT'', ''Quota exceeded''),
     (''ENOMEDIUM'', ''No medium found''), (''EMEDIUMTYPE'', ''Wrong medium type''),
     (''ECANCELED'', ''Operation Canceled''), (''ENOKEY'', ''Required key not available''),
     (''EKEYEXPIRED'', ''Key has expired''), (''EKEYREVOKED'', ''Key has been revoked''),
     (''EKEYREJECTED'', ''Key was rejected by service''), (''EOWNERDEAD'', ''Owner died''),
     (''ENOTRECOVERABLE'', ''State not recoverable''),
     (''ERFKILL'', ''Operation not possible due to RF-kill''),
     (''EHWPOISON'', ''Memory page has hardware error''), (''OK'', ''Success''),
     (''UNKNOWN'', ''Unknown error''), (''EOF'', ''End of the stream'')]"

text \<open>The map of Windows error codes (\<^verbatim>\<open>PD__ERRNO_MAPPING\<close>).\<close>

definition pd_errno_mapping :: "(string \<times> string) list" where
  "pd_errno_mapping =
    [(''ERROR_ACCESS_DENIED'', ''EACCES''), (''ERROR_ALREADY_EXISTS'', ''EEXIST''),
     (''ERROR_BAD_COMMAND'', ''EACCES''), (''ERROR_BAD_EXE_FORMAT'', ''ENOEXEC''),
     (''ERROR_BAD_LENGTH'', ''EACCES''), (''ERROR_BAD_NETPATH'', ''ENOENT''),
     (''ERROR_BAD_NET_NAME'', ''ENOENT''), (''ERROR_BAD_NET_RESP'', ''ENETDOWN''),
     (''ERROR_BAD_PATHNAME'', ''ENOENT''), (''ERROR_BROKEN_PIPE'', ''EPIPE''),
     (''ERROR_CANNOT_MAKE'', ''EACCES''), (''ERROR_COMMITMENT_LIMIT'', ''ENOMEM''),
     (''ERROR_CONNECTION_ABORTED'', ''ECONNABORTED''),
     (''ERROR_CONNECTION_ACTIVE'', ''EISCONN''),
     (''ERROR_CONNECTION_REFUSED'', ''ECONNREFUSED''), (''ERROR_CRC'', ''EACCES''),
     (''ERROR_DIR_NOT_EMPTY'', ''ENOTEMPTY''), (''ERROR_DISK_FULL'', ''ENOSPC''),
     (''ERROR_DUP_NAME'', ''EADDRINUSE''), (''ERROR_FILENAME_EXCED_RANGE'', ''ENOENT''),
     (''ERROR_FILE_NOT_FOUND'', ''ENOENT''), (''ERROR_GEN_FAILURE'', ''EACCES''),
     (''ERROR_GRACEFUL_DISCONNECT'', ''EPIPE''), (''ERROR_HOST_DOWN'', ''EHOSTUNREACH''),
     (''ERROR_HOST_UNREACHABLE'', ''EHOSTUNREACH''), (''ERROR_INSUFFICIENT_BUFFER'', ''EFAULT''),
     (''ERROR_INVALID_ADDRESS'', ''EADDRNOTAVAIL''), (''ERROR_INVALID_FUNCTION'', ''EINVAL''),
     (''ERROR_INVALID_HANDLE'', ''EBADF''), (''ERROR_INVALID_NETNAME'', ''EADDRNOTAVAIL''),
     (''ERROR_INVALID_PARAMETER'', ''EINVAL''), (''ERROR_INVALID_USER_BUFFER'', ''EMSGSIZE''),
     (''ERROR_IO_PENDING'', ''EINPROGRESS''), (''ERROR_LOCK_VIOLATION'', ''EACCES''),
     (''ERROR_MORE_DATA'', ''EMSGSIZE''), (''ERROR_NETNAME_DELETED'', ''ECONNABORTED''),
     (''ERROR_NETWORK_ACCESS_DENIED'', ''EACCES''), (''ERROR_NETWORK_BUSY'', ''ENETDOWN''),
     (''ERROR_NETWORK_UNREACHABLE'', ''ENETUNREACH''), (''ERROR_NOACCESS'', ''EFAULT''),
     (''ERROR_NONPAGED_SYSTEM_RESOURCES'', ''ENOMEM''),
     (''ERROR_NOT_ENOUGH_MEMORY'', ''ENOMEM''), (''ERROR_NOT_ENOUGH_QUOTA'', ''ENOMEM''),
     (''ERROR_NOT_FOUND'', ''ENOENT''), (''ERROR_NOT_LOCKED'', ''EACCES''),
     (''ERROR_NOT_READY'', ''EACCES''), (''ERROR_NOT_SAME_DEVICE'', ''EXDEV''),
     (''ERROR_NOT_SUPPORTED'', ''ENOTSUP''), (''ERROR_NO_MORE_FILES'', ''ENOENT''),
     (''ERROR_NO_SYSTEM_RESOURCES'', ''ENOMEM''), (''ERROR_OPERATION_ABORTED'', ''EINTR''),
     (''ERROR_OUT_OF_PAPER'', ''EACCES''), (''ERROR_PAGED_SYSTEM_RESOURCES'', ''ENOMEM''),
     (''ERROR_PAGEFILE_QUOTA'', ''ENOMEM''), (''ERROR_PATH_NOT_FOUND'', ''ENOENT''),
     (''ERROR_PIPE_NOT_CONNECTED'', ''EPIPE''), (''ERROR_PORT_UNREACHABLE'', ''ECONNRESET''),
     (''ERROR_PROTOCOL_UNREACHABLE'', ''ENETUNREACH''),
     (''ERROR_REM_NOT_LIST'', ''ECONNREFUSED''), (''ERROR_REQUEST_ABORTED'', ''EINTR''),
     (''ERROR_REQ_NOT_ACCEP'', ''EWOULDBLOCK''), (''ERROR_SECTOR_NOT_FOUND'', ''EACCES''),
     (''ERROR_SEM_TIMEOUT'', ''ETIMEDOUT''), (''ERROR_SHARING_VIOLATION'', ''EACCES''),
     (''ERROR_TOO_MANY_NAMES'', ''ENOMEM''), (''ERROR_TOO_MANY_OPEN_FILES'', ''EMFILE''),
     (''ERROR_UNEXP_NET_ERR'', ''ECONNABORTED''), (''ERROR_WAIT_NO_CHILDREN'', ''ECHILD''),
     (''ERROR_WORKING_SET_QUOTA'', ''ENOMEM''), (''ERROR_WRITE_PROTECT'', ''EACCES''),
     (''ERROR_WRONG_DISK'', ''EACCES''), (''WSAEACCES'', ''EACCES''),
     (''WSAEADDRINUSE'', ''EADDRINUSE''), (''WSAEADDRNOTAVAIL'', ''EADDRNOTAVAIL''),
     (''WSAEAFNOSUPPORT'', ''EAFNOSUPPORT''), (''WSAECONNABORTED'', ''ECONNABORTED''),
     (''WSAECONNREFUSED'', ''ECONNREFUSED''), (''WSAECONNRESET'', ''ECONNRESET''),
     (''WSAEDISCON'', ''EPIPE''), (''WSAEFAULT'', ''EFAULT''),
     (''WSAEHOSTDOWN'', ''EHOSTUNREACH''), (''WSAEHOSTUNREACH'', ''EHOSTUNREACH''),
     (''WSAEINPROGRESS'', ''EBUSY''), (''WSAEINTR'', ''EINTR''), (''WSAEINVAL'', ''EINVAL''),
     (''WSAEISCONN'', ''EISCONN''), (''WSAEMSGSIZE'', ''EMSGSIZE''),
     (''WSAENETDOWN'', ''ENETDOWN''), (''WSAENETRESET'', ''EHOSTUNREACH''),
     (''WSAENETUNREACH'', ''ENETUNREACH''), (''WSAENOBUFS'', ''ENOMEM''),
     (''WSAENOTCONN'', ''ENOTCONN''), (''WSAENOTSOCK'', ''ENOTSOCK''),
     (''WSAEOPNOTSUPP'', ''EOPNOTSUPP''), (''WSAEPROCLIM'', ''ENOMEM''),
     (''WSAESHUTDOWN'', ''EPIPE''), (''WSAETIMEDOUT'', ''ETIMEDOUT''),
     (''WSAEWOULDBLOCK'', ''EWOULDBLOCK''), (''WSANOTINITIALISED'', ''ENETDOWN''),
     (''WSASYSNOTREADY'', ''ENETDOWN''), (''WSAVERNOTSUPPORTED'', ''ENOSYS'')]"
section \<open>The functions\<close>

definition switch_table :: "(string \<Rightarrow> int option) \<Rightarrow> (string \<times> 'a) list \<Rightarrow> (int \<times> 'a) list" where
  "switch_table sys tab =
     List.map_filter (\<lambda>(n, msg). map_option (\<lambda>c. (c, msg)) (pd_macro sys n)) tab"

definition pd_errstr :: "(string \<Rightarrow> int option) \<Rightarrow> int \<Rightarrow> string" where
  "pd_errstr sys errcode =
     (case map_of (switch_table sys pd_err_str_mapping) errcode of
        Some msg \<Rightarrow> msg
      | None \<Rightarrow> ''Unknown error'')"

definition pd_errname :: "(string \<Rightarrow> int option) \<Rightarrow> int \<Rightarrow> string" where
  "pd_errname sys errcode =
     (case map_of (switch_table sys pd_err_name_mapping) errcode of
        Some msg \<Rightarrow> msg
      | None \<Rightarrow> ''UNKNOWN'')"

definition pd_errmap :: "int \<Rightarrow> int" where
  "pd_errmap err = (if err \<le> 0 then err else - err)"

text \<open>On Windows the system error is an unsigned \<^verbatim>\<open>DWORD\<close>.\<close>

definition pd_errmap_win ::
  "(string \<Rightarrow> int option) \<Rightarrow> (string \<Rightarrow> uint32) \<Rightarrow> uint32 \<Rightarrow> int" where
  "pd_errmap_win sys win err =
     (if err \<le> 0 then uint err
      else
        (case map_of (map (\<lambda>(sys_err, pd_err). (win sys_err, pd_err)) pd_errno_mapping) err of
           None \<Rightarrow> -7000
         | Some pd_err \<Rightarrow> (case pd_macro sys pd_err of Some c \<Rightarrow> c | None \<Rightarrow> -7000)))"

section \<open>Facts about the tables\<close>

lemma map_of_unique:
  "(k, v) \<in> set xs \<Longrightarrow> (\<And>v'. (k, v') \<in> set xs \<Longrightarrow> v' = v) \<Longrightarrow> map_of xs k = Some v"
  by (metis map_of_SomeD option.exhaust map_of_eq_None_iff fst_conv image_eqI)

lemma name_is_text: "\<forall>(n, msg) \<in> set pd_err_name_mapping. msg = n"
  by code_simp

lemma same_names: "map fst pd_err_str_mapping = map fst pd_err_name_mapping"
  by code_simp

text \<open>Every macro has an entry, in the order of the definitions, except three that share a code.\<close>

definition shared_codes :: "string list" where
  "shared_codes = [''EWOULDBLOCK'', ''EDEADLOCK'', ''ENOTSUP'']"

lemma listed_names:
  "map fst pd_err_name_mapping =
    filter (\<lambda>n. n \<notin> set shared_codes) (map fst pd_fallback) @ map fst pd_custom"
  by code_simp

lemma pd_macro_defined: "pd_macro sys n \<noteq> None \<longleftrightarrow> n \<in> fst ` set pd_fallback \<or> n \<in> fst ` set pd_custom"
proof -
  have "pd_macro sys n = None \<longleftrightarrow> map_of pd_fallback n = None \<and> map_of pd_custom n = None"
    by (auto simp: pd_macro_def split: option.splits)
  then show ?thesis by (simp only: map_of_eq_None_iff) blast
qed

lemma listed_defined:
  assumes "(n, msg) \<in> set pd_err_name_mapping"
  shows "pd_macro sys n \<noteq> None"
proof -
  have "n \<in> set (map fst pd_err_name_mapping)" using assms by force
  then have "n \<in> fst ` set pd_fallback \<or> n \<in> fst ` set pd_custom" unfolding listed_names by auto
  then show ?thesis by (simp only: pd_macro_defined)
qed

lemma fallback_range: "\<forall>(n, c) \<in> set pd_fallback. -3133 \<le> c \<and> c \<le> -3001"
  by code_simp

lemma fallback_no_custom: "''OK'' \<notin> fst ` set pd_fallback"
  by code_simp

lemma wouldblock_fallback: "map_of pd_fallback ''EWOULDBLOCK'' = Some (-3011)"
  by code_simp

lemma errno_mapping_known: "\<forall>(n, p) \<in> set pd_errno_mapping. p \<in> fst ` set pd_fallback"
proof -
  have "\<forall>(n, p) \<in> set (take 50 pd_errno_mapping). p \<in> fst ` set pd_fallback" by code_simp
  moreover have "\<forall>(n, p) \<in> set (drop 50 pd_errno_mapping). p \<in> fst ` set pd_fallback" by code_simp
  ultimately have "\<forall>(n, p) \<in> set (take 50 pd_errno_mapping @ drop 50 pd_errno_mapping).
      p \<in> fst ` set pd_fallback"
    unfolding set_append ball_Un by (rule conjI)
  then show ?thesis by (simp only: append_take_drop_id)
qed

lemma pd_macro_sign:
  assumes "pd_macro sys n = Some c" "\<And>m e. sys m = Some e \<Longrightarrow> 0 < e"
  shows "c < 0 \<or> c = 0 \<and> n = ''OK''"
proof (cases "map_of pd_custom n")
  case (Some d)
  then have "c = d" using assms(1) by (simp add: pd_macro_def)
  then show ?thesis using Some by (auto simp: pd_custom_def split: if_splits)
next
  case None
  then obtain d where d: "map_of pd_fallback n = Some d" "c = (case sys n of Some e \<Rightarrow> - e | None \<Rightarrow> d)"
    using assms(1) by (auto simp: pd_macro_def split: option.splits)
  then have "d < 0" using fallback_range by (auto dest!: map_of_SomeD)
  then show ?thesis using d(2) assms(2) by (auto split: option.splits)
qed

lemma switch_table_iff:
  "(c, msg) \<in> set (switch_table sys tab) \<longleftrightarrow> (\<exists>n. (n, msg) \<in> set tab \<and> pd_macro sys n = Some c)"
  by (force simp: switch_table_def List.map_filter_def)

lemma errname_listed:
  assumes "c \<in> fst ` set (switch_table sys pd_err_name_mapping)"
  shows "pd_macro sys (pd_errname sys c) = Some c"
proof -
  obtain msg where msg: "map_of (switch_table sys pd_err_name_mapping) c = Some msg"
    using assms by (metis map_of_eq_None_iff option.exhaust)
  then have "(c, msg) \<in> set (switch_table sys pd_err_name_mapping)" by (rule map_of_SomeD)
  then obtain n where n: "(n, msg) \<in> set pd_err_name_mapping" "pd_macro sys n = Some c"
    by (auto simp: switch_table_iff)
  then have "msg = n" using name_is_text by auto
  then show ?thesis using msg n(2) by (simp add: pd_errname_def)
qed

lemma win_lookup:
  assumes "(src, dst) \<in> set tab" "\<And>s p. (s, p) \<in> set tab \<Longrightarrow> win s = win src \<Longrightarrow> p = dst"
  shows "map_of (map (\<lambda>(sys_err, pd_err). (win sys_err, pd_err)) tab) (win src) = Some dst"
proof (rule map_of_unique)
  show "(win src, dst) \<in> set (map (\<lambda>(sys_err, pd_err). (win sys_err, pd_err)) tab)"
    using assms(1) by (auto intro: rev_image_eqI)
  fix p assume "(win src, p) \<in> set (map (\<lambda>(sys_err, pd_err). (win sys_err, pd_err)) tab)"
  then obtain s where "(s, p) \<in> set tab" "win s = win src" by auto
  then show "p = dst" by (rule assms(2))
qed

text \<open>Which numbers are codes of listed macros, and what the functions do on the others.\<close>

lemma code_listed:
  "c \<in> fst ` set (switch_table sys pd_err_name_mapping) \<longleftrightarrow>
    (\<exists>n \<in> fst ` set pd_err_name_mapping. pd_macro sys n = Some c)"
proof
  assume "c \<in> fst ` set (switch_table sys pd_err_name_mapping)"
  then obtain msg where "(c, msg) \<in> set (switch_table sys pd_err_name_mapping)" by auto
  then show "\<exists>n \<in> fst ` set pd_err_name_mapping. pd_macro sys n = Some c"
    unfolding switch_table_iff by force
next
  assume "\<exists>n \<in> fst ` set pd_err_name_mapping. pd_macro sys n = Some c"
  then obtain n msg where "(n, msg) \<in> set pd_err_name_mapping" "pd_macro sys n = Some c" by auto
  then have "(c, msg) \<in> set (switch_table sys pd_err_name_mapping)" unfolding switch_table_iff by blast
  then show "c \<in> fst ` set (switch_table sys pd_err_name_mapping)" by force
qed

lemma errname_unlisted:
  "c \<notin> fst ` set (switch_table sys pd_err_name_mapping) \<Longrightarrow> pd_errname sys c = ''UNKNOWN''"
  by (simp add: pd_errname_def map_of_eq_None_iff [symmetric])

lemma pd_macro_errno:
  assumes "0 < e" "e < 3000"
  shows "pd_macro sys n = Some (- e) \<longleftrightarrow>
    pd_macro sys n \<noteq> None \<and> n \<notin> fst ` set pd_custom \<and> sys n = Some e"
proof (cases "map_of pd_custom n")
  case (Some d)
  then have "n \<in> fst ` set pd_custom" "d \<noteq> - e"
    using assms by (auto simp: pd_custom_def split: if_splits)
  then show ?thesis using Some by (simp add: pd_macro_def)
next
  case None
  moreover have "d \<noteq> - e" if "map_of pd_fallback n = Some d" for d
    using that assms fallback_range by (auto dest!: map_of_SomeD)
  ultimately show ?thesis
    by (auto simp: pd_macro_def map_of_eq_None_iff [symmetric] split: option.splits)
qed

lemma errmap_win_unlisted:
  "err \<noteq> 0 \<Longrightarrow> err \<notin> win ` fst ` set pd_errno_mapping \<Longrightarrow> pd_errmap_win sys win err = -7000"
  by (auto simp: pd_errmap_win_def word_gt_0 image_image case_prod_beta dest!: map_of_SomeD split: option.splits)

lemma errmap_win_listed:
  assumes "(src, dst) \<in> set pd_errno_mapping" "err \<noteq> 0" "err = win src"
    "\<And>s p. (s, p) \<in> set pd_errno_mapping \<Longrightarrow> win s = win src \<Longrightarrow> p = dst"
  shows "pd_macro sys dst = Some (pd_errmap_win sys win err)"
proof -
  have "dst \<in> fst ` set pd_fallback" using errno_mapping_known assms(1) by auto
  then obtain c where c: "pd_macro sys dst = Some c" using pd_macro_defined [of sys dst] by blast
  have "map_of (map (\<lambda>(sys_err, pd_err). (win sys_err, pd_err)) pd_errno_mapping) (win src) = Some dst"
    by (rule win_lookup [OF assms(1,4)])
  then show ?thesis using assms(2,3) c by (simp add: pd_errmap_win_def word_gt_0)
qed

lemma errmap_win_negative:
  assumes "err \<noteq> 0" "\<And>m e. sys m = Some e \<Longrightarrow> 0 < e"
  shows "pd_errmap_win sys win err < 0"
proof (cases "map_of (map (\<lambda>(sys_err, pd_err). (win sys_err, pd_err)) pd_errno_mapping) err")
  case None
  then show ?thesis using assms(1) by (simp add: pd_errmap_win_def word_gt_0)
next
  case (Some dst)
  then obtain src where "(src, dst) \<in> set pd_errno_mapping" by (auto dest!: map_of_SomeD)
  then have dst: "dst \<in> fst ` set pd_fallback" using errno_mapping_known by auto
  then obtain c where c: "pd_macro sys dst = Some c" using pd_macro_defined [of sys dst] by blast
  have "dst \<noteq> ''OK''" using dst fallback_no_custom by blast
  then have "c < 0" using pd_macro_sign [OF c] assms(2) by blast
  then show ?thesis using Some c assms(1) by (simp add: pd_errmap_win_def word_gt_0)
qed

lemma errmap_win_zero [simp]: "pd_errmap_win sys win 0 = 0"
  by (simp add: pd_errmap_win_def)

section \<open>Properties\<close>

text \<open>
  C12. Names of errors can be read back, on every platform: for the code of any macro in the table,
  \<open>pd_errname\<close> returns a name whose macro has that same code, and for any other number it returns
  \<^verbatim>\<open>"UNKNOWN"\<close>.
\<close>

theorem errname_roundtrip:
  "(c \<in> fst ` set (switch_table sys pd_err_name_mapping) \<longrightarrow> pd_macro sys (pd_errname sys c) = Some c) \<and>
   (c \<notin> fst ` set (switch_table sys pd_err_name_mapping) \<longrightarrow> pd_errname sys c = ''UNKNOWN'')"
  using errname_listed [of c sys] by (auto simp: pd_errname_def map_of_eq_None_iff [symmetric])

theorem errname_roundtrip_witness:
  "pd_macro [''ENOENT'' \<mapsto> 2, ''EIO'' \<mapsto> 5] (pd_errname [''ENOENT'' \<mapsto> 2, ''EIO'' \<mapsto> 5] (-5)) = Some (-5)"
proof -
  let ?sys = "[''ENOENT'' \<mapsto> 2, ''EIO'' \<mapsto> 5] :: string \<Rightarrow> int option"
  have "(''EIO'', ''EIO'') \<in> set pd_err_name_mapping" by (simp add: pd_err_name_mapping_def)
  moreover have "pd_macro ?sys ''EIO'' = Some (-5)" by code_simp
  ultimately have "(-5, ''EIO'') \<in> set (switch_table ?sys pd_err_name_mapping)"
    unfolding switch_table_iff by blast
  then have "-5 \<in> fst ` set (switch_table ?sys pd_err_name_mapping)" by force
  then show ?thesis using errname_roundtrip [of "-5" ?sys] by blast
qed



text \<open>
  C14. On Windows, too, an error never looks like success: \<open>pd_errmap\<close> gives 0 for
  \<^verbatim>\<open>ERROR_SUCCESS\<close> and for nothing else, and a negative code for every other \<^verbatim>\<open>DWORD\<close>. A system
  error that the table lists is mapped to the code of the macro the table gives, and one that it
  does not list to \<^verbatim>\<open>PD_UNKNOWN\<close>.
\<close>

theorem errmap_win_sound:
  assumes "\<And>m e. sys m = Some e \<Longrightarrow> 0 < e"
  shows "(pd_errmap_win sys win err = 0 \<longleftrightarrow> err = 0) \<and>
    (err \<noteq> 0 \<longrightarrow> pd_errmap_win sys win err < 0) \<and>
    (err \<noteq> 0 \<and> err \<notin> win ` fst ` set pd_errno_mapping \<longrightarrow>
      pd_macro sys ''UNKNOWN'' = Some (pd_errmap_win sys win err)) \<and>
    (\<forall>(src, dst) \<in> set pd_errno_mapping. err \<noteq> 0 \<and> err = win src \<and>
      (\<forall>(s, p) \<in> set pd_errno_mapping. win s = err \<longrightarrow> p = dst) \<longrightarrow>
        pd_macro sys dst = Some (pd_errmap_win sys win err))"
proof -
  have neg: "pd_errmap_win sys win err < 0" if "err \<noteq> 0"
    using errmap_win_negative [OF that] assms by blast
  have "pd_macro sys ''UNKNOWN'' = Some (pd_errmap_win sys win err)"
    if "err \<noteq> 0" "err \<notin> win ` fst ` set pd_errno_mapping"
    using errmap_win_unlisted [OF that] by (simp add: pd_macro_def pd_custom_def)
  moreover have "pd_macro sys dst = Some (pd_errmap_win sys win err)"
    if "(src, dst) \<in> set pd_errno_mapping" "err \<noteq> 0" "err = win src"
      "\<forall>(s, p) \<in> set pd_errno_mapping. win s = err \<longrightarrow> p = dst" for src dst
    using errmap_win_listed [OF that(1)] that by blast
  moreover have "pd_errmap_win sys win err = 0 \<longleftrightarrow> err = 0" using neg by (cases "err = 0") auto
  ultimately show ?thesis using neg by blast
qed

theorem errmap_win_sound_witness:
  "let sys = [''ENOENT'' \<mapsto> 2]; win = (\<lambda>s. if s = ''ERROR_FILE_NOT_FOUND'' then 2 else 0) in
    (pd_errmap_win sys win 2 = 0 \<longleftrightarrow> (2::uint32) = 0) \<and>
    ((2::uint32) \<noteq> 0 \<longrightarrow> pd_errmap_win sys win 2 < 0) \<and>
    ((2::uint32) \<noteq> 0 \<and> 2 \<notin> win ` fst ` set pd_errno_mapping \<longrightarrow>
      pd_macro sys ''UNKNOWN'' = Some (pd_errmap_win sys win 2)) \<and>
    (\<forall>(src, dst) \<in> set pd_errno_mapping. (2::uint32) \<noteq> 0 \<and> 2 = win src \<and>
      (\<forall>(s, p) \<in> set pd_errno_mapping. win s = 2 \<longrightarrow> p = dst) \<longrightarrow>
        pd_macro sys dst = Some (pd_errmap_win sys win 2))"
  unfolding Let_def by (rule errmap_win_sound) (auto split: if_splits)

text \<open>
  On Windows \<^verbatim>\<open>errno.h\<close> gives \<^verbatim>\<open>EWOULDBLOCK\<close> a code of its own, and the table of names has no entry
  for it: the error every non-blocking socket call can report has no name, although
  \<open>pd_errmap\<close> maps \<^verbatim>\<open>WSAEWOULDBLOCK\<close> to it.
\<close>

theorem wouldblock_has_no_name:
  assumes "sys ''EWOULDBLOCK'' = Some e" "0 < e" "e < 3000"
    and "\<And>n msg. (n, msg) \<in> set pd_err_name_mapping \<Longrightarrow> sys n \<noteq> Some e"
    and "\<And>s p. (s, p) \<in> set pd_errno_mapping \<Longrightarrow> win s = win ''WSAEWOULDBLOCK'' \<Longrightarrow> p = ''EWOULDBLOCK''"
    and "0 < win ''WSAEWOULDBLOCK''"
  shows "pd_errname sys (pd_errmap_win sys win (win ''WSAEWOULDBLOCK'')) = ''UNKNOWN''"
proof -
  have e: "pd_macro sys ''EWOULDBLOCK'' = Some (- e)"
    using assms(1) by (simp add: pd_macro_def pd_custom_def wouldblock_fallback)
  have in_tab: "(''WSAEWOULDBLOCK'', ''EWOULDBLOCK'') \<in> set pd_errno_mapping"
    by (simp add: pd_errno_mapping_def)
  have "map_of (map (\<lambda>(sys_err, pd_err). (win sys_err, pd_err)) pd_errno_mapping)
      (win ''WSAEWOULDBLOCK'') = Some ''EWOULDBLOCK''"
    by (rule win_lookup [OF in_tab assms(5)])
  then have "pd_errmap_win sys win (win ''WSAEWOULDBLOCK'') = - e"
    using assms(6) e by (auto simp: pd_errmap_win_def word_gt_0)
  moreover have "- e \<notin> fst ` set (switch_table sys pd_err_name_mapping)"
  proof
    assume "- e \<in> fst ` set (switch_table sys pd_err_name_mapping)"
    then obtain n msg where n: "(n, msg) \<in> set pd_err_name_mapping" "pd_macro sys n = Some (- e)"
      by (force simp: switch_table_iff)
    have "map_of pd_custom n \<noteq> Some (- e)" using assms(2,3) by (auto simp: pd_custom_def)
    then obtain d where d: "map_of pd_fallback n = Some d" "(case sys n of Some e \<Rightarrow> - e | None \<Rightarrow> d) = - e"
      using n(2) by (auto simp: pd_macro_def split: option.splits)
    have "d \<le> -3001" using d(1) fallback_range by (auto dest!: map_of_SomeD)
    then show False using d(2) assms(3) assms(4) [OF n(1)] by (auto split: option.splits)
  qed
  ultimately show ?thesis by (auto simp: pd_errname_def map_of_eq_None_iff [symmetric])
qed

theorem wouldblock_has_no_name_witness:
  "pd_errname [''EWOULDBLOCK'' \<mapsto> 140, ''EAGAIN'' \<mapsto> 11]
    (pd_errmap_win [''EWOULDBLOCK'' \<mapsto> 140, ''EAGAIN'' \<mapsto> 11]
      (\<lambda>s. if s = ''WSAEWOULDBLOCK'' then 10035 else 0)
      ((\<lambda>s. if s = ''WSAEWOULDBLOCK'' then 10035 else 0) ''WSAEWOULDBLOCK'')) = ''UNKNOWN''"
  by (rule wouldblock_has_no_name)
    (auto simp: pd_err_name_mapping_def pd_errno_mapping_def split: if_splits)

end
