(* ===== verification/Kernel.thy ===== *)
theory Kernel
  imports Io_Core
begin

text \<open>
  The operating system as the Unix sources see it, and the memory of the TCP structures.

  The kernel is a parameter: a function from the history of all system calls so far and the next call
  to its result, so every behaviour of an operating system is an instance of it. A result \<open>r \<ge> 0\<close> is
  what the call returns; \<open>r < 0\<close> stands for the return value -1 with \<^verbatim>\<open>errno\<close> set to \<open>- r\<close>. What a
  \<^verbatim>\<open>read\<close> or \<^verbatim>\<open>accept\<close> stores in the caller's buffers is not modelled: the sources only pass these
  buffers on. The numbers of the error codes and of the \<^verbatim>\<open>epoll\<close> flags are those of Linux.
\<close>

unbundle bit_operations_syntax

definition EINTR :: int where "EINTR = 4"
definition EAGAIN :: int where "EAGAIN = 11"
definition EWOULDBLOCK :: int where "EWOULDBLOCK = EAGAIN"
definition EINPROGRESS :: int where "EINPROGRESS = 115"
definition PD_ENOMEM :: int where "PD_ENOMEM = -12"
definition PD_ECANCELED :: int where "PD_ECANCELED = -125"

lemmas errno_consts = EINTR_def EAGAIN_def EWOULDBLOCK_def EINPROGRESS_def

type_synonym byte = "8 word"
type_synonym sid = nat
type_synonym wid = nat

text \<open>The filters of a \<^verbatim>\<open>kqueue\<close>, and the flags the sources use to change them.\<close>

datatype kfilter = EVFILT_READ | EVFILT_WRITE

datatype kaction = Ev_add_enable | Ev_delete

datatype epoll_op = Epoll_add | Epoll_mod | Epoll_del

text \<open>The structure an event is embedded in, which \<^verbatim>\<open>epoll\<close> hands back with each report.\<close>

datatype event_ref = Stream_event sid | Server_event nat | Notifier_event nat

datatype sockopt = So_reuseaddr | Tcp_nodelay | So_keepalive | Tcp_keepidle | Tcp_keepcnt | Tcp_keepintvl

datatype syscall =
    Sys_socket
  | Sys_setsockopt int sockopt int
  | Sys_getsockopt_error int
  | Sys_bind int int
  | Sys_listen int
  | Sys_accept int
  | Sys_connect int string int
  | Sys_fcntl_getfl int
  | Sys_fcntl_setfl int int
  | Sys_read int nat
  | Sys_write int "byte list"
  | Sys_shutdown_wr int
  | Sys_close int
  | Sys_epoll_ctl int epoll_op int "(uint32 \<times> event_ref) option"
  | Sys_epoll_create
  | Sys_epoll_wait int int int
  | Sys_kqueue
  | Sys_kevent_changes int "(int \<times> kfilter \<times> kaction \<times> event_ref) list"
  | Sys_kevent_wait int int "(int \<times> int) option"
  | Sys_eventfd
  | Sys_pipe
  | Sys_clock_gettime
  | Sys_open "string option" int int
  | Sys_fstat int
  | Sys_nanosleep "int \<times> int"

type_synonym history = "(syscall \<times> int) list"
type_synonym kernel = "history \<Rightarrow> syscall \<Rightarrow> int"

section \<open>The structures of \<^verbatim>\<open>include/pandio/tcp.h\<close> and \<^verbatim>\<open>core.h\<close>\<close>

datatype pd_tcp_status = PD_TCP_NONE | PD_TCP_ACTIVE | PD_TCP_SHUTDOWN | PD_TCP_CLOSED

text \<open>The functions of the library an event can be handled by.\<close>

datatype event_handler = Tcp_client_io | Tcp_connect_io | Tcp_listener_io | Notifier_io

record pd_event =
  flags :: uint32
  handler :: "event_handler option"

record pd_tcp =
  fd :: int
  writes :: "qnode queue"
  event :: pd_event
  allocator :: callback
  on_data :: "callback option"
  on_close :: "callback option"
  on_connect :: "callback option"
  status :: pd_tcp_status
  stream_flags :: uint32
  writes_size :: size_t

record pd_tcp_server =
  server_fd :: int
  on_connection :: "callback option"
  server_status :: pd_tcp_status
  server_event :: pd_event

text \<open>\<open>data\<close> is the buffer \<^verbatim>\<open>data.buf\<close> of length \<^verbatim>\<open>data.len\<close>.\<close>

record pd_write =
  data :: "byte list"
  written :: nat
  cb :: "callback option"

text \<open>
  A notifier: its descriptor, and the function it calls in the loop when something was sent to it. On BSD and
  macOS it has two descriptors, the ends of a pipe: \<open>notifier_fd\<close> is the one that is read, \<^verbatim>\<open>fd[0]\<close>, and
  \<open>notifier_send_fd\<close> the other, \<^verbatim>\<open>fd[1]\<close>, which Linux does not use.
\<close>

datatype notifier_handler = Task_done | Notify_client callback

record pd_notifier =
  notifier_fd :: int
  notifier_send_fd :: int
  notifier_handler :: "notifier_handler option"
  notifier_event :: pd_event

record tcp_world = io_world +
  streams :: "sid \<Rightarrow> pd_tcp"
  servers :: "nat \<Rightarrow> pd_tcp_server"
  notifiers :: "nat \<Rightarrow> pd_notifier"
  ops :: "wid \<Rightarrow> pd_write"
  hist :: history
  errno :: int

abbreviation set_stream ::
  "sid \<Rightarrow> (pd_tcp \<Rightarrow> pd_tcp) \<Rightarrow> 'x tcp_world_scheme \<Rightarrow> 'x tcp_world_scheme" where
  "set_stream s f w \<equiv> w\<lparr>streams := (streams w)(s := f (streams w s))\<rparr>"

abbreviation set_server ::
  "nat \<Rightarrow> (pd_tcp_server \<Rightarrow> pd_tcp_server) \<Rightarrow> 'x tcp_world_scheme \<Rightarrow> 'x tcp_world_scheme" where
  "set_server v f w \<equiv> w\<lparr>servers := (servers w)(v := f (servers w v))\<rparr>"

abbreviation set_notifier ::
  "nat \<Rightarrow> (pd_notifier \<Rightarrow> pd_notifier) \<Rightarrow> 'x tcp_world_scheme \<Rightarrow> 'x tcp_world_scheme" where
  "set_notifier n f w \<equiv> w\<lparr>notifiers := (notifiers w)(n := f (notifiers w n))\<rparr>"

abbreviation set_op ::
  "wid \<Rightarrow> (pd_write \<Rightarrow> pd_write) \<Rightarrow> 'x tcp_world_scheme \<Rightarrow> 'x tcp_world_scheme" where
  "set_op a f w \<equiv> w\<lparr>ops := (ops w)(a := f (ops w a))\<rparr>"

section \<open>System calls\<close>

text \<open>One call; and a call repeated while it is interrupted by a signal (\<^verbatim>\<open>do ... while (EINTR)\<close>).\<close>

definition sys :: "kernel \<Rightarrow> syscall \<Rightarrow> 'x tcp_world_scheme \<Rightarrow> int \<times> 'x tcp_world_scheme" where
  "sys kern c w =
     (let r = kern (hist w) c;
          w = w\<lparr>hist := hist w @ [(c, r)]\<rparr>
      in if r < 0 then (-1, w\<lparr>errno := - r\<rparr>) else (r, w))"

partial_function (option) sys_retry ::
  "kernel \<Rightarrow> syscall \<Rightarrow> 'x tcp_world_scheme \<Rightarrow> (int \<times> 'x tcp_world_scheme) option" where
  "sys_retry kern c w =
     (case sys kern c w of (r, w) \<Rightarrow>
        if r = -1 \<and> errno w = EINTR then sys_retry kern c w else Some (r, w))"

definition pd_errno :: "'x tcp_world_scheme \<Rightarrow> int" where
  "pd_errno w = (if errno w \<le> 0 then errno w else - errno w)"

definition O_NONBLOCK :: int where "O_NONBLOCK = 2048"

definition pd_set_nonblocking :: "kernel \<Rightarrow> int \<Rightarrow> 'x tcp_world_scheme \<Rightarrow> int \<times> 'x tcp_world_scheme" where
  "pd_set_nonblocking kern f w =
     (case sys kern (Sys_fcntl_getfl f) w of (fl, w) \<Rightarrow>
        if fl = -1 then (-1, w)
        else
          (case sys kern (Sys_fcntl_setfl f (fl OR O_NONBLOCK)) w of (r, w) \<Rightarrow>
             if r = -1 then (-1, w) else (0, w)))"

section \<open>Events (\<^verbatim>\<open>src/sys/event_epoll.c\<close>)\<close>

definition PD_POLLIN :: uint32 where "PD_POLLIN = push_bit 0 1"
definition PD_POLLOUT :: uint32 where "PD_POLLOUT = push_bit 1 1"
definition PD_POLLHUP :: uint32 where "PD_POLLHUP = push_bit 2 1"
definition PD_POLLRDHUP :: uint32 where "PD_POLLRDHUP = push_bit 3 1"
definition PD_POLLERR :: uint32 where "PD_POLLERR = push_bit 4 1"
definition PD_CLOSE :: uint32 where "PD_CLOSE = push_bit 5 1"

lemmas pd_flags = PD_POLLIN_def PD_POLLOUT_def PD_POLLHUP_def PD_POLLRDHUP_def PD_POLLERR_def PD_CLOSE_def

definition EPOLLIN :: uint32 where "EPOLLIN = 0x001"
definition EPOLLOUT :: uint32 where "EPOLLOUT = 0x004"
definition EPOLLERR :: uint32 where "EPOLLERR = 0x008"
definition EPOLLHUP :: uint32 where "EPOLLHUP = 0x010"
definition EPOLLRDHUP :: uint32 where "EPOLLRDHUP = 0x2000"

lemmas epoll_flags = EPOLLIN_def EPOLLOUT_def EPOLLERR_def EPOLLHUP_def EPOLLRDHUP_def

definition pd_event_init :: "pd_event" where
  "pd_event_init = \<lparr>flags = 0, handler = None\<rparr>"

definition epoll_mask :: "pd_event \<Rightarrow> uint32" where
  "epoll_mask ev =
     (let fl = 0;
          fl = (if flags ev AND PD_POLLIN \<noteq> 0 then fl OR EPOLLIN else fl);
          fl = (if flags ev AND PD_POLLOUT \<noteq> 0 then fl OR EPOLLOUT else fl)
      in fl)"

definition pd_event_set ::
  "kernel \<Rightarrow> event_ref \<Rightarrow> pd_event \<Rightarrow> int \<Rightarrow> 'x tcp_world_scheme \<Rightarrow> int \<times> 'x tcp_world_scheme" where
  "pd_event_set kern e ev f w = sys kern (Sys_epoll_ctl (poll_fd (io w)) Epoll_mod f (Some (epoll_mask ev, e))) w"

definition pd_event_add ::
  "kernel \<Rightarrow> event_ref \<Rightarrow> pd_event \<Rightarrow> int \<Rightarrow> 'x tcp_world_scheme \<Rightarrow> int \<times> 'x tcp_world_scheme" where
  "pd_event_add kern e ev f w = sys kern (Sys_epoll_ctl (poll_fd (io w)) Epoll_add f (Some (epoll_mask ev, e))) w"

definition pd_event_del :: "kernel \<Rightarrow> int \<Rightarrow> 'x tcp_world_scheme \<Rightarrow> int \<times> 'x tcp_world_scheme" where
  "pd_event_del kern f w = sys kern (Sys_epoll_ctl (poll_fd (io w)) Epoll_del f None) w"

text \<open>The translation of a report of \<^verbatim>\<open>epoll_wait\<close> in \<^verbatim>\<open>pd_io_run\<close>.\<close>

definition epoll_pevents :: "uint32 \<Rightarrow> uint32" where
  "epoll_pevents ev =
     (let p = 0;
          p = (if ev AND EPOLLIN \<noteq> 0 then p OR PD_POLLIN else p);
          p = (if ev AND EPOLLOUT \<noteq> 0 then p OR PD_POLLOUT else p)
      in if ev AND (EPOLLERR OR EPOLLHUP OR EPOLLRDHUP) \<noteq> 0 then
           let p = p OR PD_CLOSE;
               p = (if ev AND EPOLLERR \<noteq> 0 then p OR PD_POLLERR else p);
               p = (if ev AND EPOLLHUP \<noteq> 0 then p OR PD_POLLHUP else p);
               p = (if ev AND EPOLLRDHUP \<noteq> 0 then p OR PD_POLLRDHUP else p)
           in p
         else p)"

end
