(* ===== verification/Tcp_Unix.thy ===== *)
theory Tcp_Unix
  imports Kernel
begin

text \<open>
  TCP streams and listeners of \<^verbatim>\<open>src/sys/tcp_unix.c\<close>, one definition per function. The function
  pointers of a client are called through \<open>k\<close>, which takes the call and the state and returns the
  state the client leaves; it may call any of these operations again. A call through a \<^verbatim>\<open>NULL\<close>
  function pointer is the fault \<open>Null_deref\<close>. Loops that could run for ever, because of the kernel or of
  the client, are \<open>partial_function\<close>s, and \<open>Diverged\<close> where they do.
\<close>

section \<open>Calls of the client\<close>

text \<open>
  The arguments of the calls: the function pointer, the structure it is called for, and the rest. The
  buffer of \<open>On_data\<close> is the one the allocator returned. The last three are the calls the event loop makes
  for timers, notifiers and at the end of a turn.
\<close>

datatype call =
    On_data callback sid "nat option" size_t
  | On_close callback sid
  | On_connect callback sid int
  | On_connection callback nat int int
  | Write_cb callback wid int
  | On_timer callback timer
  | On_notify notifier_handler nat
  | After_tick callback

record 'w client =
  call :: "call \<Rightarrow> 'w \<Rightarrow> 'w res"
  alloc :: "callback \<Rightarrow> sid \<Rightarrow> nat \<Rightarrow> 'w \<Rightarrow> nat option"

definition call_ptr :: "'w client \<Rightarrow> callback option \<Rightarrow> (callback \<Rightarrow> call) \<Rightarrow> 'w \<Rightarrow> 'w res" where
  "call_ptr k f c w = (case f of None \<Rightarrow> Inl Null_deref | Some g \<Rightarrow> call k (c g) w)"

definition call_opt :: "'w client \<Rightarrow> callback option \<Rightarrow> (callback \<Rightarrow> call) \<Rightarrow> 'w \<Rightarrow> 'w res" where
  "call_opt k f c w = (case f of None \<Rightarrow> Inr w | Some g \<Rightarrow> call k (c g) w)"

definition run_loop :: "'w res option \<Rightarrow> 'w res" where
  "run_loop r = (case r of None \<Rightarrow> Inl Diverged | Some r \<Rightarrow> r)"

section \<open>Streams\<close>

definition pd_default_allocator :: callback where
  "pd_default_allocator = 0"

definition pd_tcp_init :: "sid \<Rightarrow> 'x tcp_world_scheme \<Rightarrow> 'x tcp_world_scheme" where
  "pd_tcp_init s = set_stream s (\<lambda>t. t\<lparr>fd := -1, status := PD_TCP_NONE, allocator := pd_default_allocator,
     on_close := None, on_data := None, stream_flags := 0, writes_size := 0,
     writes := queue_init (writes t), event := pd_event_init\<rparr>)"

definition pd_closesocket :: "kernel \<Rightarrow> int \<Rightarrow> 'x tcp_world_scheme \<Rightarrow> (int \<times> 'x tcp_world_scheme) res" where
  "pd_closesocket kern f w = loop_res (sys_retry kern (Sys_close f) w)"

text \<open>The loop of \<open>pd_tcp_close\<close> that cancels the pending writes.\<close>

partial_function (option) cancel_writes ::
  "'x tcp_world_scheme client \<Rightarrow> sid \<Rightarrow> 'x tcp_world_scheme \<Rightarrow> 'x tcp_world_scheme res option" where
  "cancel_writes k s w =
     (if queue_empty (writes (streams w s)) then Some (Inr w)
      else
        (case queue_pop (writes (streams w s)) (qnodes w) of
           Inr (Some (Write_node a), q, mem) \<Rightarrow>
             (let w = set_stream s (\<lambda>t. t\<lparr>writes := q\<rparr>) (w\<lparr>qnodes := mem\<rparr>)
              in case call_ptr k (cb (ops w a)) (\<lambda>f. Write_cb f a PD_ECANCELED) w of
                   Inl e \<Rightarrow> Some (Inl e)
                 | Inr w \<Rightarrow> cancel_writes k s w)
         | _ \<Rightarrow> Some (Inl Null_deref)))"

definition pd_tcp_close ::
  "'x tcp_world_scheme client \<Rightarrow> kernel \<Rightarrow> sid \<Rightarrow> 'x tcp_world_scheme \<Rightarrow> 'x tcp_world_scheme res" where
  "pd_tcp_close k kern s w =
     (if status (streams w s) = PD_TCP_CLOSED then Inr w
      else
        let w = set_stream s (\<lambda>t. t\<lparr>status := PD_TCP_CLOSED\<rparr>) w;
            (_, w) = pd_event_del kern (fd (streams w s)) w
        in bind_res (pd_closesocket kern (fd (streams w s)) w) (\<lambda>(_, w).
           bind_res (run_loop (cancel_writes k s w)) (\<lambda>w.
             let w = w\<lparr>qnodes := queue_init_node (qnodes w) (Close_node s)\<rparr>
             in bind_res (queue_push (pending_closes (io w)) (qnodes w) (Close_node s)) (\<lambda>(q, mem).
                  Inr (set_io (\<lambda>c. c\<lparr>pending_closes := q\<rparr>) (w\<lparr>qnodes := mem\<rparr>))))))"

definition pd_tcp_shutdown :: "kernel \<Rightarrow> sid \<Rightarrow> 'x tcp_world_scheme \<Rightarrow> 'x tcp_world_scheme" where
  "pd_tcp_shutdown kern s w =
     (if status (streams w s) \<noteq> PD_TCP_ACTIVE then w
      else
        let w = set_stream s (\<lambda>t. t\<lparr>status := PD_TCP_SHUTDOWN\<rparr>) w
        in if queue_empty (writes (streams w s))
           then snd (sys kern (Sys_shutdown_wr (fd (streams w s))) w)
           else
             let w = set_stream s (\<lambda>t. t\<lparr>event := (event t)\<lparr>flags := flags (event t) OR PD_POLLOUT\<rparr>\<rparr>) w
             in snd (pd_event_set kern (Stream_event s) (event (streams w s)) (fd (streams w s)) w))"

text \<open>
  When the allocator returns \<^verbatim>\<open>NULL\<close> the code reports \<^verbatim>\<open>PD_ENOMEM\<close> and, having no \<^verbatim>\<open>return\<close> there,
  goes on to read into the \<^verbatim>\<open>NULL\<close> buffer.
\<close>

definition pd_tcp_read ::
  "'x tcp_world_scheme client \<Rightarrow> kernel \<Rightarrow> sid \<Rightarrow> 'x tcp_world_scheme \<Rightarrow> 'x tcp_world_scheme res" where
  "pd_tcp_read k kern s w =
     (if on_data (streams w s) = None then Inr w
      else
        let read_size = 6 * 1024;
            buf = alloc k (allocator (streams w s)) s read_size w
        in bind_res
          (if buf = None
           then call_ptr k (on_data (streams w s)) (\<lambda>f. On_data f s buf (word_of_int PD_ENOMEM)) w
           else Inr w) (\<lambda>w.
           bind_res (loop_res (sys_retry kern (Sys_read (fd (streams w s)) read_size) w)) (\<lambda>(nread, w).
             if nread = 0 then
               bind_res (call_ptr k (on_data (streams w s)) (\<lambda>f. On_data f s buf 0) w) (\<lambda>w.
                 pd_tcp_close k kern s w)
             else if nread < 0 then
               (if errno w = EAGAIN \<or> errno w = EWOULDBLOCK
                then call_ptr k (on_data (streams w s)) (\<lambda>f. On_data f s buf 0) w
                else call_ptr k (on_data (streams w s)) (\<lambda>f. On_data f s buf (word_of_int (pd_errno w))) w)
             else call_ptr k (on_data (streams w s)) (\<lambda>f. On_data f s buf (word_of_int nread)) w)))"

text \<open>
  The loop of \<^verbatim>\<open>pd__tcp_write\<close>. \<open>flush_writes\<close> returns whether the function returned from inside
  the loop.
\<close>

partial_function (option) flush_writes ::
  "'x tcp_world_scheme client \<Rightarrow> kernel \<Rightarrow> sid \<Rightarrow> 'x tcp_world_scheme \<Rightarrow>
    (bool \<times> 'x tcp_world_scheme) res option" where
  "flush_writes k kern s w =
     (if queue_empty (writes (streams w s)) then Some (Inr (False, w))
      else
        (case queue_peek (writes (streams w s)) of
           Some (Write_node a) \<Rightarrow>
             (let buf = drop (written (ops w a)) (data (ops w a))
              in case sys_retry kern (Sys_write (fd (streams w s)) buf) w of
                   None \<Rightarrow> Some (Inl Diverged)
                 | Some (n, w) \<Rightarrow>
                     if n < 0 then
                       (if errno w = EAGAIN \<or> errno w = EWOULDBLOCK then Some (Inr (True, w))
                        else
                          Some (bind_res (queue_pop (writes (streams w s)) (qnodes w)) (\<lambda>(_, q, mem).
                            let w = set_stream s (\<lambda>t. t\<lparr>writes := q\<rparr>) (w\<lparr>qnodes := mem\<rparr>)
                            in bind_res (call_ptr k (cb (ops w a)) (\<lambda>f. Write_cb f a (pd_errno w)) w)
                                 (\<lambda>w. Inr (True, w)))))
                     else
                       let w = set_op a (\<lambda>op. op\<lparr>written := written op + nat n\<rparr>) w
                       in if written (ops w a) = length (data (ops w a)) then
                            (case queue_pop (writes (streams w s)) (qnodes w) of
                               Inl e \<Rightarrow> Some (Inl e)
                             | Inr (_, q, mem) \<Rightarrow>
                                 (let w = set_stream s (\<lambda>t. t\<lparr>writes := q\<rparr>) (w\<lparr>qnodes := mem\<rparr>)
                                  in case call_opt k (cb (ops w a)) (\<lambda>f. Write_cb f a 0) w of
                                       Inl e \<Rightarrow> Some (Inl e)
                                     | Inr w \<Rightarrow> flush_writes k kern s w))
                          else flush_writes k kern s w)
         | _ \<Rightarrow> Some (Inl Null_deref)))"

definition pd__tcp_write ::
  "'x tcp_world_scheme client \<Rightarrow> kernel \<Rightarrow> sid \<Rightarrow> 'x tcp_world_scheme \<Rightarrow> 'x tcp_world_scheme res" where
  "pd__tcp_write k kern s w =
     (if status (streams w s) = PD_TCP_CLOSED then Inr w
      else
        bind_res (run_loop (flush_writes k kern s w)) (\<lambda>(returned, w).
          if returned then Inr w
          else if queue_empty (writes (streams w s)) then
            let w = set_stream s (\<lambda>t. t\<lparr>event := (event t)\<lparr>flags := flags (event t) AND NOT PD_POLLOUT\<rparr>\<rparr>) w;
                (_, w) = pd_event_set kern (Stream_event s) (event (streams w s)) (fd (streams w s)) w
            in if status (streams w s) = PD_TCP_SHUTDOWN
               then Inr (snd (sys kern (Sys_shutdown_wr (fd (streams w s))) w))
               else Inr w
          else Inr w))"

definition pd_tcp_client_io ::
  "'x tcp_world_scheme client \<Rightarrow> kernel \<Rightarrow> sid \<Rightarrow> uint32 \<Rightarrow> 'x tcp_world_scheme \<Rightarrow>
    'x tcp_world_scheme res" where
  "pd_tcp_client_io k kern s events w =
     bind_res (if events AND PD_POLLIN \<noteq> 0 then pd_tcp_read k kern s w else Inr w) (\<lambda>w.
       if events AND PD_CLOSE \<noteq> 0 then pd_tcp_close k kern s w
       else if events AND PD_POLLOUT \<noteq> 0 then pd__tcp_write k kern s w
       else Inr w)"

definition pd_tcp_accept :: "kernel \<Rightarrow> sid \<Rightarrow> int \<Rightarrow> 'x tcp_world_scheme \<Rightarrow> 'x tcp_world_scheme" where
  "pd_tcp_accept kern s f w =
     (let w = set_stream s (\<lambda>t. t\<lparr>fd := f, status := PD_TCP_ACTIVE,
            event := (event t)\<lparr>handler := Some Tcp_client_io, flags := flags (event t) OR PD_POLLIN\<rparr>\<rparr>) w;
          (_, w) = pd_event_add kern (Stream_event s) (event (streams w s)) f w
      in inc_refs w)"

definition pd_tcp_connect_io ::
  "'x tcp_world_scheme client \<Rightarrow> kernel \<Rightarrow> sid \<Rightarrow> uint32 \<Rightarrow> 'x tcp_world_scheme \<Rightarrow>
    'x tcp_world_scheme res" where
  "pd_tcp_connect_io k kern s events w =
     (if status (streams w s) = PD_TCP_CLOSED then Inr w
      else if events AND PD_CLOSE \<noteq> 0 then
        (case sys kern (Sys_getsockopt_error (fd (streams w s))) w of (r, w) \<Rightarrow>
           let err = (if r < 0 then 0 else r)
           in call_opt k (on_connect (streams w s)) (\<lambda>f. On_connect f s (if err \<le> 0 then err else - err)) w)
      else if events AND PD_POLLOUT \<noteq> 0 then
        let w = set_stream s (\<lambda>t. t\<lparr>status := PD_TCP_ACTIVE,
              event := (event t)\<lparr>handler := Some Tcp_client_io, flags := flags (event t) AND NOT PD_POLLOUT\<rparr>\<rparr>) w;
            (_, w) = pd_event_set kern (Stream_event s) (event (streams w s)) (fd (streams w s)) w
        in call_opt k (on_connect (streams w s)) (\<lambda>f. On_connect f s 0) w
      else Inr w)"

text \<open>\<open>inet_pton\<close> is a parameter: what the C library returns for the host name.\<close>

definition pd_tcp_connect ::
  "kernel \<Rightarrow> (string \<Rightarrow> int) \<Rightarrow> sid \<Rightarrow> string \<Rightarrow> int \<Rightarrow> callback option \<Rightarrow> 'x tcp_world_scheme \<Rightarrow>
    (int \<times> 'x tcp_world_scheme) res" where
  "pd_tcp_connect kern inet_pton s host port connect_cb w =
     (case sys kern Sys_socket w of (f, w) \<Rightarrow>
      if f < 0 then Inr (pd_errno w, w)
      else
        (case pd_set_nonblocking kern f w of (r, w) \<Rightarrow>
         if r < 0 then
           bind_res (pd_closesocket kern f w) (\<lambda>(_, w). Inr (pd_errno w, w))
         else if inet_pton host \<le> 0 then
           bind_res (pd_closesocket kern f w) (\<lambda>(_, w). Inr (pd_errno w, w))
         else
           let w = set_stream s (\<lambda>t. t\<lparr>fd := f, on_connect := connect_cb,
                 event := (event t)\<lparr>handler := Some Tcp_connect_io, flags := PD_POLLOUT OR PD_POLLIN\<rparr>\<rparr>) w
           in (case sys kern (Sys_connect f host port) w of (r, w) \<Rightarrow>
                if r < 0 \<and> errno w \<noteq> EINPROGRESS then
                  bind_res (pd_closesocket kern f w) (\<lambda>(_, w). Inr (pd_errno w, w))
                else
                  let (_, w) = pd_event_add kern (Stream_event s) (event (streams w s)) f w
                  in Inr (0, inc_refs w))))"

definition pd_tcp_pause :: "kernel \<Rightarrow> sid \<Rightarrow> 'x tcp_world_scheme \<Rightarrow> 'x tcp_world_scheme" where
  "pd_tcp_pause kern s w =
     (let w = set_stream s (\<lambda>t. t\<lparr>event := (event t)\<lparr>flags := flags (event t) AND NOT PD_POLLIN\<rparr>\<rparr>) w
      in snd (pd_event_set kern (Stream_event s) (event (streams w s)) (fd (streams w s)) w))"

definition pd_tcp_resume :: "kernel \<Rightarrow> sid \<Rightarrow> 'x tcp_world_scheme \<Rightarrow> 'x tcp_world_scheme" where
  "pd_tcp_resume kern s w =
     (let w = set_stream s (\<lambda>t. t\<lparr>event := (event t)\<lparr>flags := flags (event t) OR PD_POLLIN\<rparr>\<rparr>) w
      in snd (pd_event_set kern (Stream_event s) (event (streams w s)) (fd (streams w s)) w))"

section \<open>Writing\<close>

definition pd_write_init ::
  "wid \<Rightarrow> byte list \<Rightarrow> callback option \<Rightarrow> 'x tcp_world_scheme \<Rightarrow> 'x tcp_world_scheme" where
  "pd_write_init a buf f w =
     (let w = set_op a (\<lambda>op. op\<lparr>data := buf, written := 0, cb := f\<rparr>) w
      in w\<lparr>qnodes := queue_init_node (qnodes w) (Write_node a)\<rparr>)"

definition pd_tcp_write_async ::
  "'x tcp_world_scheme client \<Rightarrow> kernel \<Rightarrow> sid \<Rightarrow> wid \<Rightarrow> 'x tcp_world_scheme \<Rightarrow>
    'x tcp_world_scheme res" where
  "pd_tcp_write_async k kern s a w =
     (if status (streams w s) \<noteq> PD_TCP_ACTIVE then
        call_ptr k (cb (ops w a)) (\<lambda>f. Write_cb f a PD_ECANCELED) w
      else
        let w = w\<lparr>qnodes := queue_init_node (qnodes w) (Write_node a)\<rparr>
        in bind_res (queue_push (writes (streams w s)) (qnodes w) (Write_node a)) (\<lambda>(q, mem).
             let w = set_stream s (\<lambda>t. t\<lparr>writes := q\<rparr>) (w\<lparr>qnodes := mem\<rparr>)
             in if flags (event (streams w s)) AND PD_POLLOUT = 0 then
                  let w = set_stream s (\<lambda>t. t\<lparr>event := (event t)\<lparr>flags := flags (event t) OR PD_POLLOUT\<rparr>\<rparr>) w
                  in Inr (snd (pd_event_set kern (Stream_event s) (event (streams w s)) (fd (streams w s)) w))
                else Inr w))"

definition pd_tcp_write ::
  "'x tcp_world_scheme client \<Rightarrow> kernel \<Rightarrow> sid \<Rightarrow> wid \<Rightarrow> 'x tcp_world_scheme \<Rightarrow>
    'x tcp_world_scheme res" where
  "pd_tcp_write k kern s a w =
     (if status (streams w s) \<noteq> PD_TCP_ACTIVE then
        call_ptr k (cb (ops w a)) (\<lambda>f. Write_cb f a PD_ECANCELED) w
      else if queue_empty (writes (streams w s)) then
        bind_res (loop_res (sys_retry kern (Sys_write (fd (streams w s)) (data (ops w a))) w)) (\<lambda>(n, w).
          if n < 0 then
            (if errno w = EAGAIN \<or> errno w = EWOULDBLOCK
             then pd_tcp_write_async k kern s a w
             else call_ptr k (cb (ops w a)) (\<lambda>f. Write_cb f a (pd_errno w)) w)
          else if nat n < length (data (ops w a)) then
            pd_tcp_write_async k kern s a (set_op a (\<lambda>op. op\<lparr>written := written op + nat n\<rparr>) w)
          else call_ptr k (cb (ops w a)) (\<lambda>f. Write_cb f a 0) w)
      else pd_tcp_write_async k kern s a w)"

section \<open>Closing at the end of a turn (\<^verbatim>\<open>src/internal.c\<close>)\<close>

partial_function (option) pd_tcp_pending_close ::
  "'x tcp_world_scheme client \<Rightarrow> 'x tcp_world_scheme \<Rightarrow> 'x tcp_world_scheme res option" where
  "pd_tcp_pending_close k w =
     (if queue_empty (pending_closes (io w)) then Some (Inr w)
      else
        (case queue_pop (pending_closes (io w)) (qnodes w) of
           Inr (Some (Close_node s), q, mem) \<Rightarrow>
             (let w = set_io (\<lambda>c. c\<lparr>pending_closes := q\<rparr>) (w\<lparr>qnodes := mem\<rparr>)
              in case call_opt k (on_close (streams w s)) (\<lambda>f. On_close f s) w of
                   Inl e \<Rightarrow> Some (Inl e)
                 | Inr w \<Rightarrow> pd_tcp_pending_close k (dec_refs w))
         | _ \<Rightarrow> Some (Inl Null_deref)))"

end
