(* ===== verification/Tcp_Listener.thy ===== *)
theory Tcp_Listener
  imports Tcp_Unix
begin

text \<open>
  Listeners and socket options of \<^verbatim>\<open>src/sys/tcp_unix.c\<close>. The address a connection comes from is stored
  in a local variable the code never reads, and is not modelled.
\<close>

section \<open>Listeners\<close>

definition pd_tcp_server_init :: "nat \<Rightarrow> 'x tcp_world_scheme \<Rightarrow> 'x tcp_world_scheme" where
  "pd_tcp_server_init v = set_server v (\<lambda>_. \<lparr>server_fd = -1, on_connection = None,
     server_status = PD_TCP_NONE, server_event = pd_event_init\<rparr>)"

definition pd_tcp_server_close ::
  "kernel \<Rightarrow> nat \<Rightarrow> 'x tcp_world_scheme \<Rightarrow> (int \<times> 'x tcp_world_scheme) res" where
  "pd_tcp_server_close kern v w =
     (case pd_event_del kern (server_fd (servers w v)) w of (st, w) \<Rightarrow>
        if st < 0 then Inr (st, w)
        else bind_res (pd_closesocket kern (server_fd (servers w v)) w) (\<lambda>(st, w).
          if st < 0 then Inr (st, w) else Inr (0, dec_refs w)))"

definition pd_tcp_listener_io ::
  "'x tcp_world_scheme client \<Rightarrow> kernel \<Rightarrow> nat \<Rightarrow> uint32 \<Rightarrow> 'x tcp_world_scheme \<Rightarrow>
    'x tcp_world_scheme res" where
  "pd_tcp_listener_io k kern v events w =
     (if events AND PD_POLLIN = 0 then Inl Assert_failed
      else if server_status (servers w v) \<noteq> PD_TCP_ACTIVE then Inr w
      else
        (case sys kern (Sys_accept (server_fd (servers w v))) w of (peer, w) \<Rightarrow>
           if peer < 0 then Inr w
           else
             (case pd_set_nonblocking kern peer w of (r, w) \<Rightarrow>
                if r < 0 then bind_res (pd_closesocket kern peer w) (\<lambda>(_, w). Inr w)
                else
                  (case on_connection (servers w v) of
                     Some f \<Rightarrow> call k (On_connection f v peer 0) w
                   | None \<Rightarrow> bind_res (pd_closesocket kern peer w) (\<lambda>(_, w). Inr w)))))"

text \<open>The result of a failing step of \<open>pd_tcp_listen\<close>: the socket is closed first, then \<open>errno\<close> read.\<close>

definition listen_fail ::
  "kernel \<Rightarrow> int \<Rightarrow> 'x tcp_world_scheme \<Rightarrow> (int \<times> 'x tcp_world_scheme) res" where
  "listen_fail kern f w = bind_res (pd_closesocket kern f w) (\<lambda>(_, w). Inr (pd_errno w, w))"

definition pd_tcp_listen ::
  "kernel \<Rightarrow> nat \<Rightarrow> int \<Rightarrow> callback option \<Rightarrow> 'x tcp_world_scheme \<Rightarrow>
    (int \<times> 'x tcp_world_scheme) res" where
  "pd_tcp_listen kern v port conn_cb w =
     (case sys kern Sys_socket w of (lfd, w) \<Rightarrow>
      if lfd \<le> 0 then Inr (pd_errno w, w)
      else
      (case sys kern (Sys_setsockopt lfd So_reuseaddr 1) w of (r, w) \<Rightarrow>
      if r < 0 then listen_fail kern lfd w
      else
      (case sys kern (Sys_bind lfd port) w of (r, w) \<Rightarrow>
      if r < 0 then listen_fail kern lfd w
      else
      (case pd_set_nonblocking kern lfd w of (r, w) \<Rightarrow>
      if r < 0 then listen_fail kern lfd w
      else
      (case sys kern (Sys_listen lfd) w of (r, w) \<Rightarrow>
      if r < 0 then listen_fail kern lfd w
      else
        let w = set_server v (\<lambda>t. t\<lparr>server_fd := lfd,
              server_event := (server_event t)\<lparr>handler := Some Tcp_listener_io\<rparr>,
              server_status := PD_TCP_ACTIVE, on_connection := conn_cb\<rparr>) w
        in if \<not> 0 < server_fd (servers w v) then Inl Assert_failed
           else
             let w = set_server v (\<lambda>t. t\<lparr>server_event :=
                   (server_event t)\<lparr>flags := flags (server_event t) OR PD_POLLIN\<rparr>\<rparr>) w;
                 (_, w) = pd_event_add kern (Server_event v) (server_event (servers w v)) lfd w
             in Inr (0, inc_refs w))))))"

section \<open>Socket options\<close>

definition pd_tcp_nodelay ::
  "kernel \<Rightarrow> sid \<Rightarrow> int \<Rightarrow> 'x tcp_world_scheme \<Rightarrow> int \<times> 'x tcp_world_scheme" where
  "pd_tcp_nodelay kern s enable w =
     (case sys kern (Sys_setsockopt (fd (streams w s)) Tcp_nodelay enable) w of (r, w) \<Rightarrow>
        if r < 0 then (pd_errno w, w) else (0, w))"

text \<open>As compiled on Linux, where \<^verbatim>\<open>TCP_KEEPIDLE\<close>, \<^verbatim>\<open>TCP_KEEPCNT\<close> and \<^verbatim>\<open>TCP_KEEPINTVL\<close> are defined.\<close>

definition pd_tcp_keepalive ::
  "kernel \<Rightarrow> sid \<Rightarrow> int \<Rightarrow> int \<Rightarrow> 'x tcp_world_scheme \<Rightarrow> int \<times> 'x tcp_world_scheme" where
  "pd_tcp_keepalive kern s enable delay w =
     (case sys kern (Sys_setsockopt (fd (streams w s)) So_keepalive enable) w of (r, w) \<Rightarrow>
      if r < 0 then (pd_errno w, w)
      else if enable = 0 then (0, w)
      else
      (case sys kern (Sys_setsockopt (fd (streams w s)) Tcp_keepidle delay) w of (r, w) \<Rightarrow>
      if r < 0 then (pd_errno w, w)
      else
      (case sys kern (Sys_setsockopt (fd (streams w s)) Tcp_keepcnt 10) w of (r, w) \<Rightarrow>
      if r < 0 then (pd_errno w, w)
      else
      (case sys kern (Sys_setsockopt (fd (streams w s)) Tcp_keepintvl 1) w of (r, w) \<Rightarrow>
      if r < 0 then (pd_errno w, w) else (0, w)))))"

end
