(* ===== verification/Tcp_Invariant.thy ===== *)
theory Tcp_Invariant
  imports Tcp_Unix Timers
begin

text \<open>
  Clients of the streams as programs, and the invariant of the writes: which operation is queued where,
  whose callback has been called, and what has reached the wire.

  A client reacts to every call with a list of commands, chosen from the call and from all calls
  before it (\<open>reaction\<close>); a write command allocates a fresh \<^verbatim>\<open>pd_write_t\<close>, as the samples do. Calls
  nest - a command may call back at once - and \<open>reply\<close> bounds the depth of the nesting by its fuel,
  with \<open>Diverged\<close> beyond it; every statement holds for every amount of fuel.
\<close>

section \<open>Client programs\<close>

datatype tcp_cmd =
    Write sid "byte list" callback
  | Close sid
  | Shutdown sid
  | Pause sid
  | Resume sid
  | Timer timer_cmd
  | Accept sid callback callback

text \<open>
  The ghost state of a client: the next operation, the stream each was written to, and the calls so far; the
  connections it was offered and has not accepted, and where in the history each stream was attached to its socket.
\<close>

record client_world = tcp_world +
  next_op :: wid
  owner :: "wid \<Rightarrow> sid"
  calls :: "call list"
  offered :: "int list"
  attached_at :: "sid \<Rightarrow> nat"

type_synonym reaction = "call \<Rightarrow> call list \<Rightarrow> tcp_cmd list"

definition new_op ::
  "sid \<Rightarrow> byte list \<Rightarrow> callback \<Rightarrow> 'x client_world_scheme \<Rightarrow> 'x client_world_scheme" where
  "new_op s buf f w =
     pd_write_init (next_op w) buf (Some f)
       (w\<lparr>next_op := next_op w + 1, owner := (owner w)(next_op w := s)\<rparr>)"

text \<open>
  A stream is attached when it has a socket. A client accepts the connection it was offered last into a stream that has
  not been used yet, which it initialises and gives its callbacks, as \<^verbatim>\<open>samples/server.c\<close> does.
\<close>

definition attached :: "'x tcp_world_scheme \<Rightarrow> sid \<Rightarrow> bool" where
  "attached w s \<longleftrightarrow> 0 \<le> fd (streams w s)"

definition accept_as ::
  "kernel \<Rightarrow> sid \<Rightarrow> callback \<Rightarrow> callback \<Rightarrow> 'x client_world_scheme \<Rightarrow> 'x client_world_scheme" where
  "accept_as kern s f g w =
     (case offered w of
        [] \<Rightarrow> w
      | p # ps \<Rightarrow>
          if attached w s \<or> status (streams w s) \<noteq> PD_TCP_NONE then w
          else
            let w = w\<lparr>offered := ps, attached_at := (attached_at w)(s := length (hist w))\<rparr>;
                w = set_stream s (\<lambda>t. t\<lparr>on_data := Some f, on_close := Some g\<rparr>) (pd_tcp_init s w)
            in pd_tcp_accept kern s p w)"

fun exec_tcp ::
  "'x client_world_scheme client \<Rightarrow> kernel \<Rightarrow> tcp_cmd \<Rightarrow> 'x client_world_scheme \<Rightarrow>
    'x client_world_scheme res" where
  "exec_tcp k kern (Write s buf f) w = pd_tcp_write k kern s (next_op w) (new_op s buf f w)"
| "exec_tcp k kern (Close s) w = pd_tcp_close k kern s w"
| "exec_tcp k kern (Shutdown s) w = Inr (pd_tcp_shutdown kern s w)"
| "exec_tcp k kern (Pause s) w = Inr (pd_tcp_pause kern s w)"
| "exec_tcp k kern (Resume s) w = Inr (pd_tcp_resume kern s w)"
| "exec_tcp k kern (Timer c) w = exec_cmd c w"
| "exec_tcp k kern (Accept s f g) w = Inr (accept_as kern s f g w)"

fun exec_tcps ::
  "'x client_world_scheme client \<Rightarrow> kernel \<Rightarrow> tcp_cmd list \<Rightarrow> 'x client_world_scheme \<Rightarrow>
    'x client_world_scheme res" where
  "exec_tcps k kern [] w = Inr w"
| "exec_tcps k kern (c # cs) w = bind_res (exec_tcp k kern c w) (exec_tcps k kern cs)"

fun connection :: "call \<Rightarrow> int list" where
  "connection (On_connection f v p st) = [p]"
| "connection _ = []"

definition log_call :: "call \<Rightarrow> 'x client_world_scheme \<Rightarrow> 'x client_world_scheme" where
  "log_call c w = w\<lparr>calls := calls w @ [c], offered := connection c @ offered w\<rparr>"

type_synonym 'w allocators = "callback \<Rightarrow> sid \<Rightarrow> nat \<Rightarrow> 'w \<Rightarrow> nat option"

fun reply ::
  "reaction \<Rightarrow> 'x client_world_scheme allocators \<Rightarrow> kernel \<Rightarrow> nat \<Rightarrow> call \<Rightarrow>
    'x client_world_scheme \<Rightarrow> 'x client_world_scheme res" where
  "reply prog al kern 0 c w = Inl Diverged"
| "reply prog al kern (Suc n) c w =
     exec_tcps \<lparr>call = reply prog al kern n, alloc = al\<rparr> kern (prog c (calls w)) (log_call c w)"

definition script ::
  "reaction \<Rightarrow> 'x client_world_scheme allocators \<Rightarrow> kernel \<Rightarrow> nat \<Rightarrow> 'x client_world_scheme client" where
  "script prog al kern n = \<lparr>call = reply prog al kern n, alloc = al\<rparr>"

section \<open>What has been called and what is on the wire\<close>

fun done_op :: "call \<Rightarrow> wid option" where
  "done_op (Write_cb f a st) = Some a"
| "done_op _ = None"

definition done_ops :: "'x client_world_scheme \<Rightarrow> wid list" where
  "done_ops w = List.map_filter done_op (calls w)"

definition succeeded :: "'x client_world_scheme \<Rightarrow> wid \<Rightarrow> bool" where
  "succeeded w a \<longleftrightarrow> (\<exists>f. Write_cb f a 0 \<in> set (calls w))"

text \<open>The bytes of an operation that have been handed to the kernel.\<close>

definition progress :: "'x client_world_scheme \<Rightarrow> wid \<Rightarrow> byte list" where
  "progress w a = (if succeeded w a then data (ops w a) else take (written (ops w a)) (data (ops w a)))"

definition ops_of :: "'x client_world_scheme \<Rightarrow> sid \<Rightarrow> wid list" where
  "ops_of w s = filter (\<lambda>a. owner w a = s) [0..<next_op w]"

fun sent :: "int \<Rightarrow> syscall \<times> int \<Rightarrow> byte list" where
  "sent f (Sys_write g bs, n) = (if g = f then take (nat n) bs else [])"
| "sent f _ = []"

text \<open>
  Descriptors are used again: the bytes of a stream are those written to its descriptor from the call that attached it
  to the first that closes the descriptor, and the stream holds its descriptor until then.
\<close>

definition closes :: "int \<Rightarrow> syscall \<times> int \<Rightarrow> bool" where
  "closes f x \<longleftrightarrow> fst x = Sys_close f"

definition sent_in :: "int \<Rightarrow> history \<Rightarrow> byte list" where
  "sent_in f h = concat (map (sent f) (takeWhile (\<lambda>x. \<not> closes f x) h))"

definition wire :: "sid \<Rightarrow> 'x client_world_scheme \<Rightarrow> byte list" where
  "wire s w = (if attached w s then sent_in (fd (streams w s)) (drop (attached_at w s) (hist w)) else [])"

definition holds_fd :: "'x client_world_scheme \<Rightarrow> sid \<Rightarrow> bool" where
  "holds_fd w s \<longleftrightarrow> attached w s \<and> (\<forall>x \<in> set (drop (attached_at w s) (hist w)). \<not> closes (fd (streams w s)) x)"

text \<open>The descriptors of sockets that are open after the calls \<open>h\<close>, and the events that were registered.\<close>

fun opens :: "syscall \<times> int \<Rightarrow> int set \<Rightarrow> int set" where
  "opens (Sys_accept l, r) F = (if 0 \<le> r then insert r F else F)"
| "opens (Sys_socket, r) F = (if 0 \<le> r then insert r F else F)"
| "opens (Sys_close f, r) F = F - {f}"
| "opens _ F = F"

definition open_fds :: "history \<Rightarrow> int set" where
  "open_fds h = fold opens h {}"

fun adds :: "syscall \<Rightarrow> event_ref set" where
  "adds (Sys_epoll_ctl q Epoll_add f (Some (m, e))) = {e}"
| "adds _ = {}"

definition registered :: "history \<Rightarrow> event_ref set" where
  "registered h = (\<Union>x \<in> set h. adds (fst x))"

text \<open>
  The kernel never claims to have taken more bytes than it was given, and a new socket gets a descriptor that is not
  in use.
\<close>

definition honest :: "kernel \<Rightarrow> bool" where
  "honest kern \<longleftrightarrow> (\<forall>h. (\<forall>f bs. kern h (Sys_write f bs) \<le> int (length bs)) \<and>
     (\<forall>l. kern h (Sys_accept l) \<notin> open_fds h) \<and> kern h Sys_socket \<notin> open_fds h)"

section \<open>The invariant\<close>

text \<open>
  \<open>Q s\<close> are the operations queued on stream \<open>s\<close>, \<open>cl\<close> the streams whose close callback is scheduled,
  \<open>fl\<close> is an operation that is neither queued nor done (in flight inside the library). The heap of timers is intact.
\<close>

definition queues_ok ::
  "'x client_world_scheme \<Rightarrow> (sid \<Rightarrow> wid list) \<Rightarrow> sid list \<Rightarrow> bool" where
  "queues_ok w Q cl \<longleftrightarrow>
     (\<forall>s. queue_rep (writes (streams w s)) (qnodes w) (map Write_node (Q s))) \<and>
     queue_rep (pending_closes (io w)) (qnodes w) (map Close_node cl) \<and>
     (\<forall>s. \<forall>a \<in> set (Q s). a < next_op w \<and> owner w a = s) \<and>
     (\<forall>s. sorted_wrt (<) (Q s)) \<and>
     (\<forall>s \<in> set cl. status (streams w s) = PD_TCP_CLOSED)"

definition calls_ok :: "wid option \<Rightarrow> 'x client_world_scheme \<Rightarrow> (sid \<Rightarrow> wid list) \<Rightarrow> bool" where
  "calls_ok fl w Q \<longleftrightarrow>
     (\<forall>a. count_list (done_ops w) a =
       (if a < next_op w \<and> a \<notin> set (Q (owner w a)) \<and> fl \<noteq> Some a then 1 else 0)) \<and>
     (\<forall>a < next_op w. cb (ops w a) \<noteq> None)"

definition wire_ok :: "'x client_world_scheme \<Rightarrow> (sid \<Rightarrow> wid list) \<Rightarrow> bool" where
  "wire_ok w Q \<longleftrightarrow>
     (\<forall>s. \<not> attached w s \<longrightarrow> Q s = [] \<and> status (streams w s) \<in> {PD_TCP_NONE, PD_TCP_CLOSED}) \<and>
     (\<forall>a < next_op w. written (ops w a) \<le> length (data (ops w a))) \<and>
     (\<forall>s. wire s w = concat (map (progress w) (ops_of w s))) \<and>
     (\<forall>s. \<forall>a \<in> set (Q s). \<forall>b < next_op w. a < b \<and> owner w b = s \<longrightarrow> progress w b = [])"

text \<open>
  No two streams hold the same descriptor, a stream that is not closed holds its own, and the connections offered to the
  client are open and nobody's; the loop knows no stream that is not attached.
\<close>

definition sockets_ok :: "'x client_world_scheme \<Rightarrow> bool" where
  "sockets_ok w \<longleftrightarrow>
     (\<forall>s t. holds_fd w s \<and> holds_fd w t \<and> fd (streams w s) = fd (streams w t) \<longrightarrow> s = t) \<and>
     (\<forall>s. attached w s \<longrightarrow> attached_at w s \<le> length (hist w) \<and>
       handler (event (streams w s)) = Some Tcp_client_io \<and>
       (status (streams w s) \<noteq> PD_TCP_CLOSED \<longrightarrow> holds_fd w s)) \<and>
     (\<forall>s. holds_fd w s \<longrightarrow> fd (streams w s) \<in> open_fds (hist w) \<and> fd (streams w s) \<notin> set (offered w)) \<and>
     distinct (offered w) \<and> set (offered w) \<subseteq> open_fds (hist w) \<and>
     (\<forall>s. Stream_event s \<in> registered (hist w) \<longrightarrow> attached w s)"

definition tcp_inv ::
  "wid option \<Rightarrow> 'x client_world_scheme \<Rightarrow> (sid \<Rightarrow> wid list) \<Rightarrow> sid list \<Rightarrow> bool" where
  "tcp_inv fl w Q cl \<longleftrightarrow> queues_ok w Q cl \<and> calls_ok fl w Q \<and> wire_ok w Q \<and> sockets_ok w \<and> timers_ok w"

text \<open>
  What a call may not undo: a closed stream stays closed and is not scheduled twice, an attached one keeps its
  descriptor, a stream that is closed when the call returns has no writes left, and the log and the set of operations
  only grow.
\<close>

definition settled :: "'x tcp_world_scheme \<Rightarrow> sid \<Rightarrow> bool" where
  "settled w s \<longleftrightarrow> (status (streams w s) = PD_TCP_CLOSED \<longrightarrow> queue_empty (writes (streams w s)))"

definition grows ::
  "'x client_world_scheme \<Rightarrow> sid list \<Rightarrow> 'x client_world_scheme \<Rightarrow> sid list \<Rightarrow> bool" where
  "grows w cl w' cl' \<longleftrightarrow>
     (\<forall>s. status (streams w s) = PD_TCP_CLOSED \<longrightarrow>
       status (streams w' s) = PD_TCP_CLOSED \<and> (s \<notin> set cl \<longrightarrow> s \<notin> set cl')) \<and>
     (\<forall>s. attached w s \<longrightarrow> fd (streams w' s) = fd (streams w s)) \<and>
     (\<forall>s. on_data (streams w s) \<noteq> None \<longrightarrow> on_data (streams w' s) \<noteq> None) \<and>
     servers w' = servers w \<and> notifiers w' = notifiers w \<and>
     next_op w \<le> next_op w' \<and> (\<exists>cs. calls w' = calls w @ cs)"

definition evolves ::
  "'x client_world_scheme \<Rightarrow> sid list \<Rightarrow> 'x client_world_scheme \<Rightarrow> sid list \<Rightarrow> bool" where
  "evolves w cl w' cl' \<longleftrightarrow> grows w cl w' cl' \<and> (\<forall>s. settled w s \<longrightarrow> settled w' s)"

definition ok_after ::
  "'x client_world_scheme \<Rightarrow> sid list \<Rightarrow> 'x client_world_scheme res \<Rightarrow> bool" where
  "ok_after w cl r \<longleftrightarrow>
     (case r of
        Inl e \<Rightarrow> e = Diverged
      | Inr w' \<Rightarrow> \<exists>Q' cl'. tcp_inv None w' Q' cl' \<and> evolves w cl w' cl')"

lemma grows_refl [simp]: "grows w cl w cl"
  by (simp add: grows_def)

lemma evolves_refl [simp]: "evolves w cl w cl"
  by (simp add: evolves_def)

lemma grows_trans: "grows w cl w' cl' \<Longrightarrow> grows w' cl' w'' cl'' \<Longrightarrow> grows w cl w'' cl''"
proof -
  assume 1: "grows w cl w' cl'" and 2: "grows w' cl' w'' cl''"
  note D1 = 1 [unfolded grows_def] and D2 = 2 [unfolded grows_def]
  have "attached w' s" if "attached w s" for s using D1 that by (auto simp: attached_def)
  then have "fd (streams w'' s) = fd (streams w s)" if "attached w s" for s using D1 D2 that by metis
  moreover have "\<exists>cs. calls w'' = calls w @ cs" using D1 D2 by (metis append.assoc)
  moreover have "next_op w \<le> next_op w''" using D1 D2 le_trans by blast
  ultimately show ?thesis using D1 D2 unfolding grows_def by (intro conjI) (blast | metis)+
qed

lemma evolves_trans: "evolves w cl w' cl' \<Longrightarrow> evolves w' cl' w'' cl'' \<Longrightarrow> evolves w cl w'' cl''"
  unfolding evolves_def using grows_trans by blast

lemma ok_after_Inl [simp]: "ok_after w cl (Inl e) \<longleftrightarrow> e = Diverged"
  by (simp add: ok_after_def)

lemma ok_afterI: "tcp_inv None w' Q' cl' \<Longrightarrow> evolves w cl w' cl' \<Longrightarrow> ok_after w cl (Inr w')"
  unfolding ok_after_def by auto

lemma ok_afterE:
  assumes "ok_after w cl r"
  obtains "r = Inl Diverged"
  | w' Q' cl' where "r = Inr w'" "tcp_inv None w' Q' cl'" "evolves w cl w' cl'"
  using assms unfolding ok_after_def by (cases r) auto

lemma ok_after_weaken: "ok_after w' cl' r \<Longrightarrow> evolves w cl w' cl' \<Longrightarrow> ok_after w cl r"
  unfolding ok_after_def using evolves_trans by (fastforce split: sum.splits)

section \<open>Taking the invariant apart and putting it together\<close>

lemma tcp_invD:
  assumes "tcp_inv fl w Q cl"
  shows "queue_rep (writes (streams w s)) (qnodes w) (map Write_node (Q s))"
    and "queue_rep (pending_closes (io w)) (qnodes w) (map Close_node cl)"
    and "a \<in> set (Q s) \<Longrightarrow> a < next_op w" and "a \<in> set (Q s) \<Longrightarrow> owner w a = s"
    and "sorted_wrt (<) (Q s)" and "s \<in> set cl \<Longrightarrow> status (streams w s) = PD_TCP_CLOSED"
    and "count_list (done_ops w) a =
      (if a < next_op w \<and> a \<notin> set (Q (owner w a)) \<and> fl \<noteq> Some a then 1 else 0)"
    and "a < next_op w \<Longrightarrow> \<exists>f. cb (ops w a) = Some f"
    and "sockets_ok w" and "\<not> attached w s \<Longrightarrow> Q s = []"
    and "\<not> attached w s \<Longrightarrow> status (streams w s) \<in> {PD_TCP_NONE, PD_TCP_CLOSED}"
    and "a < next_op w \<Longrightarrow> written (ops w a) \<le> length (data (ops w a))"
    and "wire s w = concat (map (progress w) (ops_of w s))"
    and "a \<in> set (Q s) \<Longrightarrow> b < next_op w \<Longrightarrow> a < b \<Longrightarrow> owner w b = s \<Longrightarrow> progress w b = []"
    and "timers_ok w"
  using assms unfolding tcp_inv_def queues_ok_def calls_ok_def wire_ok_def by auto

lemma tcp_invI:
  assumes "\<And>s. queue_rep (writes (streams w s)) (qnodes w) (map Write_node (Q s))"
    and "queue_rep (pending_closes (io w)) (qnodes w) (map Close_node cl)"
    and "\<And>s a. a \<in> set (Q s) \<Longrightarrow> a < next_op w \<and> owner w a = s"
    and "\<And>s. sorted_wrt (<) (Q s)" and "\<And>s. s \<in> set cl \<Longrightarrow> status (streams w s) = PD_TCP_CLOSED"
    and "\<And>a. count_list (done_ops w) a =
      (if a < next_op w \<and> a \<notin> set (Q (owner w a)) \<and> fl \<noteq> Some a then 1 else 0)"
    and "\<And>a. a < next_op w \<Longrightarrow> \<exists>f. cb (ops w a) = Some f"
    and "sockets_ok w" and "\<And>s. \<not> attached w s \<Longrightarrow> Q s = []"
    and "\<And>s. \<not> attached w s \<Longrightarrow> status (streams w s) \<in> {PD_TCP_NONE, PD_TCP_CLOSED}"
    and "\<And>a. a < next_op w \<Longrightarrow> written (ops w a) \<le> length (data (ops w a))"
    and "\<And>s. wire s w = concat (map (progress w) (ops_of w s))"
    and "\<And>s a b. a \<in> set (Q s) \<Longrightarrow> b < next_op w \<Longrightarrow> a < b \<Longrightarrow> owner w b = s \<Longrightarrow> progress w b = []"
    and "timers_ok w"
  shows "tcp_inv fl w Q cl"
  using assms unfolding tcp_inv_def queues_ok_def calls_ok_def wire_ok_def by auto

lemma sockets_okD:
  assumes "sockets_ok w"
  shows "holds_fd w s \<Longrightarrow> holds_fd w t \<Longrightarrow> fd (streams w s) = fd (streams w t) \<Longrightarrow> s = t"
    and "attached w s \<Longrightarrow> attached_at w s \<le> length (hist w)"
    and "attached w s \<Longrightarrow> handler (event (streams w s)) = Some Tcp_client_io"
    and "attached w s \<Longrightarrow> status (streams w s) \<noteq> PD_TCP_CLOSED \<Longrightarrow> holds_fd w s"
    and "holds_fd w s \<Longrightarrow> fd (streams w s) \<in> open_fds (hist w)"
    and "holds_fd w s \<Longrightarrow> fd (streams w s) \<notin> set (offered w)"
    and "distinct (offered w)" and "p \<in> set (offered w) \<Longrightarrow> p \<in> open_fds (hist w)"
    and "Stream_event s \<in> registered (hist w) \<Longrightarrow> attached w s"
  using assms unfolding sockets_ok_def by blast+

lemma sockets_okI:
  assumes "\<And>s t. holds_fd w s \<Longrightarrow> holds_fd w t \<Longrightarrow> fd (streams w s) = fd (streams w t) \<Longrightarrow> s = t"
    and "\<And>s. attached w s \<Longrightarrow> attached_at w s \<le> length (hist w)"
    and "\<And>s. attached w s \<Longrightarrow> handler (event (streams w s)) = Some Tcp_client_io"
    and "\<And>s. attached w s \<Longrightarrow> status (streams w s) \<noteq> PD_TCP_CLOSED \<Longrightarrow> holds_fd w s"
    and "\<And>s. holds_fd w s \<Longrightarrow> fd (streams w s) \<in> open_fds (hist w)"
    and "\<And>s. holds_fd w s \<Longrightarrow> fd (streams w s) \<notin> set (offered w)"
    and "distinct (offered w)" and "\<And>p. p \<in> set (offered w) \<Longrightarrow> p \<in> open_fds (hist w)"
    and "\<And>s. Stream_event s \<in> registered (hist w) \<Longrightarrow> attached w s"
  shows "sockets_ok w"
  using assms unfolding sockets_ok_def by blast

text \<open>Steps that change neither the history nor a socket.\<close>

lemma sockets_cong:
  assumes "\<And>s. fd (streams w' s) = fd (streams w s)" "\<And>s. handler (event (streams w' s)) = handler (event (streams w s))"
    and "\<And>s. status (streams w' s) \<noteq> PD_TCP_CLOSED \<Longrightarrow> status (streams w s) \<noteq> PD_TCP_CLOSED"
    and "hist w' = hist w" "offered w' = offered w" "attached_at w' = attached_at w" "sockets_ok w"
  shows "sockets_ok w'"
proof -
  have "attached w' s = attached w s" "holds_fd w' s = holds_fd w s" for s
    by (simp_all add: attached_def holds_fd_def assms)
  then show ?thesis using assms(3,7) unfolding sockets_ok_def assms(1,2,4,5,6) by meson
qed

lemma wire_cong:
  "fd (streams w' s) = fd (streams w s) \<Longrightarrow> hist w' = hist w \<Longrightarrow> attached_at w' s = attached_at w s \<Longrightarrow> wire s w' = wire s w"
  by (simp add: wire_def attached_def)

text \<open>The heap of timers lies in fields of its own.\<close>

lemma timers_ok_fields:
  "timers (io w') = timers (io w) \<Longrightarrow> tmem w' = tmem w \<Longrightarrow> hnodes w' = hnodes w \<Longrightarrow> timers_ok w' \<longleftrightarrow> timers_ok w"
  by (simp add: timers_ok_def active_timers_def)

section \<open>The history grows\<close>

lemma open_fds_append: "open_fds (h @ [x]) = opens x (open_fds h)"
  by (simp add: open_fds_def)

lemma open_fds_nonneg: "f \<in> open_fds h \<Longrightarrow> 0 \<le> f"
proof (induction h rule: rev_induct)
  case (snoc x h)
  then show ?case by (cases "(x, open_fds h)" rule: opens.cases) (auto simp: open_fds_append split: if_splits)
qed (simp add: open_fds_def)

lemma open_fds_keep:
  "f \<in> open_fds h \<Longrightarrow> \<forall>x \<in> set h'. \<not> closes f x \<Longrightarrow> f \<in> open_fds (h @ h')"
proof (induction h' rule: rev_induct)
  case (snoc x h')
  then have "f \<in> open_fds (h @ h')" by simp
  then have "f \<in> opens x (open_fds (h @ h'))"
    using snoc.prems(2) by (cases "(x, open_fds (h @ h'))" rule: opens.cases) (auto simp: closes_def)
  then show ?case using open_fds_append [of "h @ h'" x] by simp
qed simp

lemma registered_append [simp]: "registered (h @ h') = registered h \<union> registered h'"
  by (simp add: registered_def)

lemma sent_in_append:
  "sent_in f (h @ h') = sent_in f h @ (if \<forall>x \<in> set h. \<not> closes f x then sent_in f h' else [])"
proof (cases "\<forall>x \<in> set h. \<not> closes f x")
  case True
  then have "takeWhile (\<lambda>x. \<not> closes f x) h = h" by (simp add: takeWhile_eq_all_conv)
  with True show ?thesis by (simp add: sent_in_def del: takeWhile_eq_all_conv)
next
  case False
  then obtain x where "x \<in> set h" "closes f x" by blast
  then show ?thesis by (auto simp: sent_in_def takeWhile_append1 [of x])
qed

lemma sent_in_Nil [simp]: "sent_in f [] = []"
  by (simp add: sent_in_def)

text \<open>The parts of the state the invariant reads, but for the history.\<close>

definition same_memory :: "'x client_world_scheme \<Rightarrow> 'x client_world_scheme \<Rightarrow> bool" where
  "same_memory w w' \<longleftrightarrow>
     (\<forall>s. writes (streams w' s) = writes (streams w s) \<and> fd (streams w' s) = fd (streams w s) \<and>
       status (streams w' s) = status (streams w s) \<and> on_data (streams w' s) = on_data (streams w s) \<and>
       handler (event (streams w' s)) = handler (event (streams w s))) \<and>
     servers w' = servers w \<and> notifiers w' = notifiers w \<and>
     timers (io w') = timers (io w) \<and> tmem w' = tmem w \<and> hnodes w' = hnodes w \<and>
     pending_closes (io w') = pending_closes (io w) \<and> qnodes w' = qnodes w \<and> ops w' = ops w \<and>
     next_op w' = next_op w \<and> owner w' = owner w \<and> calls w' = calls w \<and>
     offered w' = offered w \<and> attached_at w' = attached_at w"

lemma evolves_memory: "same_memory w w' \<Longrightarrow> evolves w cl w' cl"
  by (simp add: same_memory_def evolves_def grows_def settled_def)

lemma same_memory_trans: "same_memory w w' \<Longrightarrow> same_memory w' w'' \<Longrightarrow> same_memory w w''"
  by (simp add: same_memory_def)

lemma wire_grow:
  assumes "sockets_ok w" "hist w' = hist w @ h" "attached_at w' s = attached_at w s" "fd (streams w' s) = fd (streams w s)"
  shows "wire s w' = wire s w @ (if holds_fd w s then sent_in (fd (streams w s)) h else [])"
proof (cases "attached w s")
  case True
  then have "attached_at w s \<le> length (hist w)" using assms(1) by (simp add: sockets_ok_def)
  then show ?thesis using True assms by (simp add: wire_def attached_def holds_fd_def sent_in_append)
next
  case False
  then show ?thesis using assms(4) by (simp add: wire_def attached_def holds_fd_def)
qed

lemma holds_fd_grow:
  assumes "sockets_ok w" "hist w' = hist w @ h" "attached_at w' s = attached_at w s" "fd (streams w' s) = fd (streams w s)"
  shows "holds_fd w' s \<longleftrightarrow> holds_fd w s \<and> (\<forall>x \<in> set h. \<not> closes (fd (streams w s)) x)"
proof (cases "attached w s")
  case True
  then have "attached_at w s \<le> length (hist w)" using assms(1) by (simp add: sockets_ok_def)
  then show ?thesis using True assms by (auto simp: attached_def holds_fd_def)
next
  case False
  then show ?thesis using assms(4) by (simp add: attached_def holds_fd_def)
qed

lemma sockets_ok_grow:
  assumes ok: "sockets_ok w" and m: "same_memory w w'" and h: "hist w' = hist w @ h"
    and adds: "\<forall>x \<in> set h. adds (fst x) = {}"
    and cl: "\<And>f. \<exists>x \<in> set h. closes f x \<Longrightarrow>
      f \<notin> set (offered w) \<and> (\<forall>s. holds_fd w s \<and> fd (streams w s) = f \<longrightarrow> status (streams w s) = PD_TCP_CLOSED)"
  shows "sockets_ok w'"
proof -
  have v: "\<And>s. fd (streams w' s) = fd (streams w s)" "\<And>s. status (streams w' s) = status (streams w s)"
    "\<And>s. handler (event (streams w' s)) = handler (event (streams w s))" "offered w' = offered w"
    "attached_at w' = attached_at w" "\<And>s. attached w' s = attached w s"
    using m by (simp_all add: same_memory_def attached_def)
  have holds: "holds_fd w' s \<longleftrightarrow> holds_fd w s \<and> (\<forall>x \<in> set h. \<not> closes (fd (streams w s)) x)" for s
    by (rule holds_fd_grow [OF ok h]) (simp_all add: v)
  have reg: "registered h = {}" using adds by (auto simp: registered_def)
  note D = sockets_okD [OF ok]
  show ?thesis
  proof (rule sockets_okI, unfold v h holds)
    fix s assume "attached w s" "status (streams w s) \<noteq> PD_TCP_CLOSED"
    then show "holds_fd w s \<and> (\<forall>x \<in> set h. \<not> closes (fd (streams w s)) x)" using D(4) cl by blast
  next
    fix p assume "p \<in> set (offered w)"
    then show "p \<in> open_fds (hist w @ h)" using D(8) cl by (intro open_fds_keep) blast+
  next
    fix s assume "holds_fd w s \<and> (\<forall>x \<in> set h. \<not> closes (fd (streams w s)) x)"
    then show "fd (streams w s) \<in> open_fds (hist w @ h)" using D(5) by (intro open_fds_keep) blast+
  next
    fix s assume "Stream_event s \<in> registered (hist w @ h)"
    then show "attached w s" using D(9) reg by simp
  next
    fix s assume "attached w s"
    then show "attached_at w s \<le> length (hist w @ h)" using D(2) by (simp add: trans_le_add1)
  qed (use D(1,3,6,7) in blast)+
qed

lemma tcp_inv_grow:
  assumes inv: "tcp_inv fl w Q cl" and m: "same_memory w w'" and h: "hist w' = hist w @ h"
    and adds: "\<forall>x \<in> set h. adds (fst x) = {}" and sent: "\<And>f. sent_in f h = []"
    and closed: "\<And>f. \<exists>x \<in> set h. closes f x \<Longrightarrow>
      f \<notin> set (offered w) \<and> (\<forall>s. holds_fd w s \<and> fd (streams w s) = f \<longrightarrow> status (streams w s) = PD_TCP_CLOSED)"
  shows "tcp_inv fl w' Q cl"
proof -
  have ok: "sockets_ok w" using inv by (simp add: tcp_inv_def)
  have v: "\<And>s. writes (streams w' s) = writes (streams w s)" "\<And>s. status (streams w' s) = status (streams w s)"
    "\<And>s. attached w' s = attached w s"
    "pending_closes (io w') = pending_closes (io w)" "qnodes w' = qnodes w" "ops w' = ops w"
    "next_op w' = next_op w" "owner w' = owner w" "calls w' = calls w"
    "timers (io w') = timers (io w)" "tmem w' = tmem w" "hnodes w' = hnodes w"
    using m by (simp_all add: same_memory_def attached_def)
  have wire: "wire s w' = wire s w" for s
    using wire_grow [OF ok h, of s] m sent by (simp add: same_memory_def)
  have p: "progress w' = progress w" by (simp add: progress_def succeeded_def v fun_eq_iff)
  have d: "done_ops w' = done_ops w" "ops_of w' = ops_of w" by (simp_all add: done_ops_def ops_of_def v fun_eq_iff)
  note D = tcp_invD [OF inv]
  have so: "sockets_ok w'" by (rule sockets_ok_grow [OF ok m h adds closed])
  have t: "timers_ok w'" using timers_ok_fields [of w' w] m D(15) by (simp add: same_memory_def)
  show ?thesis by (rule tcp_invI, unfold v p wire d) (use D so t in auto)
qed

section \<open>Steps that the invariant does not see\<close>

text \<open>Plain calls neither write, nor close a descriptor, nor register one; \<open>same_view\<close> allows for nothing else.\<close>

fun is_write :: "syscall \<Rightarrow> bool" where
  "is_write (Sys_write f bs) \<longleftrightarrow> True"
| "is_write _ \<longleftrightarrow> False"

definition plain :: "syscall \<Rightarrow> bool" where
  "plain c \<longleftrightarrow> \<not> is_write c \<and> (\<forall>f. c \<noteq> Sys_close f) \<and> adds c = {}"

lemma plain_calls [simp]:
  "plain (Sys_read f n)" "plain (Sys_shutdown_wr f)" "plain (Sys_accept f)" "plain (Sys_getsockopt_error f)"
  "plain (Sys_fcntl_getfl f)" "plain (Sys_fcntl_setfl f fl)" "plain (Sys_epoll_wait f m ms)" "plain (Sys_kevent_wait f m ts)"
  "plain (Sys_epoll_ctl f Epoll_mod g x)" "plain (Sys_epoll_ctl f Epoll_del g x)" "plain Sys_clock_gettime"
  by (simp_all add: plain_def)

lemma sent_other [simp]: "\<not> is_write c \<Longrightarrow> sent f (c, n) = []"
  by (cases c) auto

lemma sent_in_none: "\<forall>x \<in> set h. \<not> is_write (fst x) \<Longrightarrow> sent_in f h = []"
  unfolding sent_in_def by (auto simp: concat_eq_Nil_conv dest!: set_takeWhileD)

definition same_view :: "'x client_world_scheme \<Rightarrow> 'x client_world_scheme \<Rightarrow> bool" where
  "same_view w w' \<longleftrightarrow> same_memory w w' \<and> (\<exists>h. hist w' = hist w @ h \<and> (\<forall>x \<in> set h. plain (fst x)))"

lemma same_view_refl [simp]: "same_view w w"
  by (simp add: same_view_def same_memory_def)

lemma same_view_trans: "same_view w w' \<Longrightarrow> same_view w' w'' \<Longrightarrow> same_view w w''"
  unfolding same_view_def same_memory_def by (force simp: ball_Un)

lemma tcp_inv_view:
  assumes "same_view w w'" "tcp_inv fl w Q cl"
  shows "tcp_inv fl w' Q cl"
proof -
  obtain h where h: "hist w' = hist w @ h" "\<forall>x \<in> set h. plain (fst x)" and m: "same_memory w w'"
    using assms(1) by (auto simp: same_view_def)
  show ?thesis
    by (rule tcp_inv_grow [OF assms(2) m h(1)]) (use h(2) in \<open>auto simp: plain_def closes_def intro!: sent_in_none\<close>)
qed

lemma evolves_view: "same_view w w' \<Longrightarrow> evolves w cl w' cl"
  by (simp add: same_view_def evolves_memory)

lemma same_view_update [simp]:
  "same_view w (w\<lparr>errno := e\<rparr>)"
  "same_view w (set_stream s (\<lambda>t. t\<lparr>event := (event t)\<lparr>flags := f (flags (event t))\<rparr>\<rparr>) w)"
  "same_view w (set_io (\<lambda>c. c\<lparr>refs := r c\<rparr>) w)"
  by (auto simp: same_view_def same_memory_def)

lemma sys_memory: "sys kern c w = (r, w') \<Longrightarrow> same_memory w w' \<and> hist w' = hist w @ [(c, kern (hist w) c)]"
  by (auto simp: sys_def same_memory_def Let_def split: if_splits)

lemma sys_view: "plain c \<Longrightarrow> sys kern c w = (r, w') \<Longrightarrow> same_view w w'"
  by (auto simp: same_view_def dest: sys_memory)

text \<open>A call that is repeated while it is interrupted.\<close>

definition retried ::
  "kernel \<Rightarrow> syscall \<Rightarrow> 'x client_world_scheme \<Rightarrow> int \<Rightarrow> 'x client_world_scheme \<Rightarrow> bool" where
  "retried kern c w r w' \<longleftrightarrow> (\<exists>h n. same_memory w w' \<and> hist w' = hist w @ h @ [(c, n)] \<and>
     (\<forall>x \<in> set h. \<exists>m < 0. x = (c, m)) \<and> n = kern (hist w @ h) c \<and>
     (if n < 0 then r = -1 \<and> 0 < errno w' else r = n))"

lemma sys_retried:
  assumes "sys kern c w = (r, w')"
  shows "retried kern c w r w'"
  unfolding retried_def using assms sys_memory [OF assms]
  by (intro exI [of _ "[]"] exI [of _ "kern (hist w) c"]) (auto simp: sys_def Let_def split: if_splits)

lemma retried_again:
  assumes s: "sys kern c w = (-1, w1)" and r: "retried kern c w1 r w'"
  shows "retried kern c w r w'"
proof -
  have m: "same_memory w w1" and h1: "hist w1 = hist w @ [(c, kern (hist w) c)]" using sys_memory [OF s] by simp_all
  obtain h n where r': "same_memory w1 w'" "hist w' = hist w1 @ h @ [(c, n)]" "\<forall>x \<in> set h. \<exists>m < 0. x = (c, m)"
      "n = kern (hist w1 @ h) c" "if n < 0 then r = -1 \<and> 0 < errno w' else r = n"
    using r unfolding retried_def by (elim exE conjE)
  let ?h = "(c, kern (hist w) c) # h"
  have "kern (hist w) c < 0" using s by (auto simp: sys_def Let_def split: if_splits)
  then have "\<forall>x \<in> set ?h. \<exists>m < 0. x = (c, m)" using r'(3) by simp
  moreover have "hist w' = hist w @ ?h @ [(c, n)]" "n = kern (hist w @ ?h) c" using r'(2,4) h1 by simp_all
  ultimately show ?thesis unfolding retried_def using same_memory_trans [OF m r'(1)] r'(5) by blast
qed

lemma sys_retry_grows:
  assumes "sys_retry kern c w = Some (r, w')"
  shows "retried kern c w r w'"
proof -
  have "retried kern c w (fst rw) (snd rw)" if "sys_retry kern c w = Some rw" for rw
  proof (rule sys_retry.raw_induct [OF _ that])
    fix run kern c and w :: "'a client_world_scheme" and rw
    assume IH: "\<And>kern c w rw. run kern c w = Some rw \<Longrightarrow> retried kern c w (fst rw) (snd rw)"
      and body: "(case sys kern c w of (r, w) \<Rightarrow>
        if r = -1 \<and> errno w = EINTR then run kern c w else Some (r, w)) = Some rw"
    obtain r1 w1 where s: "sys kern c w = (r1, w1)" by fastforce
    show "retried kern c w (fst rw) (snd rw)"
    proof (cases "r1 = -1 \<and> errno w1 = EINTR")
      case True
      then show ?thesis using body s IH by (auto intro: retried_again)
    next
      case False
      then show ?thesis using body s sys_retried [OF s] by auto
    qed
  qed
  then show ?thesis using assms by fastforce
qed

lemma sys_retry_view:
  assumes "sys_retry kern c w = Some (r, w')" "plain c"
  shows "same_view w w'"
  using sys_retry_grows [OF assms(1)] assms(2) by (fastforce simp: same_view_def retried_def)

text \<open>A descriptor that no stream is using is closed.\<close>

definition spare :: "int \<Rightarrow> 'x client_world_scheme \<Rightarrow> bool" where
  "spare f w \<longleftrightarrow> f \<notin> set (offered w) \<and>
     (\<forall>s. holds_fd w s \<and> fd (streams w s) = f \<longrightarrow> status (streams w s) = PD_TCP_CLOSED)"

lemma closed_inv:
  assumes "sys_retry kern (Sys_close f) w = Some (r, w')" "tcp_inv fl w Q cl" "spare f w"
  shows "tcp_inv fl w' Q cl" "evolves w cl w' cl" "same_memory w w'"
proof -
  obtain h where h: "hist w' = hist w @ h" "\<forall>x \<in> set h. fst x = Sys_close f" and m: "same_memory w w'"
    using sys_retry_grows [OF assms(1)] by (fastforce simp: retried_def)
  show "tcp_inv fl w' Q cl"
    by (rule tcp_inv_grow [OF assms(2) m h(1)])
      (use h(2) assms(3) in \<open>auto simp: closes_def spare_def intro!: sent_in_none\<close>)
  show "evolves w cl w' cl" by (rule evolves_memory [OF m])
  show "same_memory w w'" by (rule m)
qed

lemma spare_memory:
  assumes "same_view w w'" "sockets_ok w" "spare f w"
  shows "spare f w'"
proof -
  obtain h where h: "hist w' = hist w @ h" and m: "same_memory w w'" using assms(1) by (auto simp: same_view_def)
  have "holds_fd w' s \<Longrightarrow> holds_fd w s" for s
    using holds_fd_grow [OF assms(2) h, of s] m by (simp add: same_memory_def)
  then show ?thesis using assms(3) m by (auto simp: spare_def same_memory_def)
qed

lemma closing_spare:
  assumes ok: "sockets_ok w" and s: "status (streams w s) \<noteq> PD_TCP_CLOSED"
  shows "spare (fd (streams w s)) (set_stream s (\<lambda>t. t\<lparr>status := PD_TCP_CLOSED\<rparr>) w)"
proof -
  let ?w = "set_stream s (\<lambda>t. t\<lparr>status := PD_TCP_CLOSED\<rparr>) w"
  have holds: "holds_fd ?w u = holds_fd w u" for u by (simp add: holds_fd_def attached_def)
  have "fd (streams w s) \<notin> set (offered w)"
  proof (cases "attached w s")
    case True
    then show ?thesis using sockets_okD(4,6) [OF ok] s by blast
  next
    case False
    then show ?thesis using sockets_okD(8) [OF ok] open_fds_nonneg by (fastforce simp: attached_def)
  qed
  moreover have "u = s" if "holds_fd w u" "fd (streams w u) = fd (streams w s)" for u
  proof -
    have "attached w s" using that by (simp add: holds_fd_def attached_def)
    then show ?thesis using sockets_okD(1,4) [OF ok] s that by blast
  qed
  ultimately show ?thesis unfolding spare_def holds by auto
qed

text \<open>A write hands a prefix of its bytes to the kernel, on its own socket only.\<close>

definition wrote ::
  "int \<Rightarrow> byte list \<Rightarrow> int \<Rightarrow> 'x client_world_scheme \<Rightarrow> 'x client_world_scheme \<Rightarrow> bool" where
  "wrote f bs n w w' \<longleftrightarrow> same_memory w w' \<and> n \<le> int (length bs) \<and> (n < 0 \<longrightarrow> 0 < errno w') \<and>
     (\<exists>h. hist w' = hist w @ h \<and> (\<forall>x \<in> set h. fst x = Sys_write f bs) \<and> sent_in f h = take (nat n) bs)"

lemma sent_elsewhere: "\<forall>x \<in> set h. fst x = Sys_write f bs \<Longrightarrow> g \<noteq> f \<Longrightarrow> sent_in g h = []"
  unfolding sent_in_def by (auto simp: concat_eq_Nil_conv dest!: set_takeWhileD)

lemma sys_retry_wrote:
  assumes "sys_retry kern (Sys_write f bs) w = Some (n, w')" "honest kern"
  shows "wrote f bs n w w'"
proof -
  obtain h m where h: "same_memory w w'" "hist w' = hist w @ h @ [(Sys_write f bs, m)]"
      "\<forall>x \<in> set h. \<exists>m < 0. x = (Sys_write f bs, m)" "m = kern (hist w @ h) (Sys_write f bs)"
      "if m < 0 then n = -1 \<and> 0 < errno w' else n = m"
    using sys_retry_grows [OF assms(1)] unfolding retried_def by (elim exE conjE)
  have "sent_in f h = []" unfolding sent_in_def using h(3) by (fastforce simp: concat_eq_Nil_conv dest!: set_takeWhileD)
  moreover have "\<forall>x \<in> set h. \<not> closes f x" using h(3) by (auto simp: closes_def)
  moreover have "sent_in f [(Sys_write f bs, m)] = take (nat m) bs" by (simp add: sent_in_def closes_def)
  ultimately have "sent_in f (h @ [(Sys_write f bs, m)]) = take (nat n) bs"
    using h(5) by (simp add: sent_in_append split: if_splits)
  moreover have "n \<le> int (length bs)" using assms(2) h(4,5) by (auto simp: honest_def split: if_splits)
  ultimately show ?thesis using h(1,2,3,5) unfolding wrote_def
    by (intro conjI exI [of _ "h @ [(Sys_write f bs, m)]"]) (auto split: if_splits)
qed

lemma wrote_failed:
  assumes "wrote f bs n w w'" "n < 0" "tcp_inv fl w Q cl"
  shows "tcp_inv fl w' Q cl"
proof -
  obtain h where h: "hist w' = hist w @ h" "\<forall>x \<in> set h. fst x = Sys_write f bs" "sent_in f h = []" and m: "same_memory w w'"
    using assms(1,2) by (auto simp: wrote_def)
  have sent: "sent_in g h = []" for g using h(3) sent_elsewhere [OF h(2)] by (cases "g = f") auto
  show ?thesis
    by (rule tcp_inv_grow [OF assms(3) m h(1)]) (use h(2) sent in \<open>auto simp: closes_def\<close>)
qed

lemma timers_ok_frame [simp]:
  "timers_ok (w\<lparr>streams := st\<rparr>) = timers_ok w" "timers_ok (w\<lparr>qnodes := m\<rparr>) = timers_ok w"
  "timers_ok (set_io (\<lambda>c. c\<lparr>pending_closes := q c\<rparr>) w) = timers_ok w"
  "timers_ok (w\<lparr>qnodes := m, io := (io w)\<lparr>pending_closes := cq\<rparr>\<rparr>) = timers_ok w"
  "timers_ok (set_io (\<lambda>c. c\<lparr>refs := r c\<rparr>) w) = timers_ok w" "timers_ok (w\<lparr>ops := p\<rparr>) = timers_ok w"
  "timers_ok (log_call c w) = timers_ok w" "timers_ok (new_op s buf f w) = timers_ok w"
  by (rule timers_ok_fields; simp add: log_call_def new_op_def pd_write_init_def Let_def)+

lemma set_ops_of [simp]: "a \<in> set (ops_of w s) \<longleftrightarrow> a < next_op w \<and> owner w a = s"
  by (auto simp: ops_of_def)

lemma not_done:
  assumes "tcp_inv fl w Q cl" "a \<in> set (Q s) \<or> fl = Some a"
  shows "a \<notin> set (done_ops w)"
proof -
  have "count_list (done_ops w) a = 0" using assms tcp_invD(4,7) [OF assms(1)] by auto
  then show ?thesis by (simp add: count_list_0_iff)
qed

lemma not_succeeded: "a \<notin> set (done_ops w) \<Longrightarrow> \<not> succeeded w a"
  unfolding succeeded_def done_ops_def List.map_filter_def by force

section \<open>Steps of the library\<close>

lemma queue_pop_other:
  assumes "queue_rep q mem (x # xs)" "queue_rep r mem ys" "set ys \<inter> set (x # xs) = {}"
    and "queue_pop q mem = Inr (z, q', mem')"
  shows "queue_rep r mem' ys"
proof -
  from assms(1) obtain q1 mem1 where "queue_pop q mem = Inr (Some x, q1, mem1)"
    "\<And>y. y \<notin> set (x # xs) \<Longrightarrow> mem1 y = mem y" by (rule queue_pop_rep) blast
  with assms(4) have "\<And>y. y \<notin> set (x # xs) \<Longrightarrow> mem' y = mem y" by simp
  then show ?thesis by (intro queue_rep_cong [OF assms(2)]) (use assms(3) in blast)
qed

text \<open>Taking the first operation off the queue of a stream: it is in flight until its callback is called.\<close>

lemma pop_write:
  assumes inv: "tcp_inv None w Q cl" and Q: "Q s = a # q"
  obtains qu mem where "queue_pop (writes (streams w s)) (qnodes w) = Inr (Some (Write_node a), qu, mem)"
    "tcp_inv (Some a) (set_stream s (\<lambda>t. t\<lparr>writes := qu\<rparr>) (w\<lparr>qnodes := mem\<rparr>)) (Q(s := q)) cl"
proof -
  note D = tcp_invD [OF inv]
  have rep: "queue_rep (writes (streams w s)) (qnodes w) (Write_node a # map Write_node q)"
    using D(1) [of s] Q by simp
  then obtain qu mem where pop: "queue_pop (writes (streams w s)) (qnodes w) = Inr (Some (Write_node a), qu, mem)"
    and rep': "queue_rep qu mem (map Write_node q)" by (rule queue_pop_rep)
  have own: "\<And>s b. b \<in> set (Q s) \<Longrightarrow> owner w b = s" by (rule D(4))
  have aq: "a \<notin> set q" "a \<in> set (Q s)" using D(5) [of s] Q by auto
  let ?w = "set_stream s (\<lambda>t. t\<lparr>writes := qu\<rparr>) (w\<lparr>qnodes := mem\<rparr>)"
  have p: "progress ?w = progress w" "done_ops ?w = done_ops w" "ops_of ?w = ops_of w"
    "\<And>u. wire u ?w = wire u w" "\<And>u. attached ?w u = attached w u"
    "\<And>u. status (streams ?w u) = status (streams w u)"
    by (auto simp: progress_def succeeded_def done_ops_def ops_of_def attached_def fun_eq_iff intro!: wire_cong)
  have so: "sockets_ok ?w" by (rule sockets_cong [OF _ _ _ _ _ _ D(9)]) (auto split: if_splits)
  have "tcp_inv (Some a) ?w (Q(s := q)) cl"
  proof (rule tcp_invI, unfold p)
    fix u
    show "queue_rep (writes (streams ?w u)) (qnodes ?w) (map Write_node ((Q(s := q)) u))"
    proof (cases "u = s")
      case False
      have "set (map Write_node (Q u)) \<inter> set (Write_node a # map Write_node q) = {}"
        using own [of _ u] own [of _ s] Q False by fastforce
      from queue_pop_other [OF rep D(1) this pop] False show ?thesis by simp
    qed (use rep' in simp)
  next
    have "set (map Close_node cl) \<inter> set (Write_node a # map Write_node q) = {}" by auto
    from queue_pop_other [OF rep D(2) this pop]
    show "queue_rep (pending_closes (io ?w)) (qnodes ?w) (map Close_node cl)" by simp
  next
    fix b
    show "count_list (done_ops w) b =
      (if b < next_op ?w \<and> b \<notin> set ((Q(s := q)) (owner ?w b)) \<and> Some a \<noteq> Some b then 1 else 0)"
      using D(7) [of b] D(3,4) aq Q by (auto simp: fun_upd_def)
  next
    fix u b c
    assume "b \<in> set ((Q(s := q)) u)" "c < next_op ?w" "b < c" "owner ?w c = u"
    then show "progress w c = []" using D(14) [of b u c] Q by (auto split: if_splits)
  next
    fix u
    show "sorted_wrt (<) ((Q(s := q)) u)" using D(5) [of u] Q by auto
  next
    fix u b
    assume "b \<in> set ((Q(s := q)) u)"
    then show "b < next_op ?w \<and> owner ?w b = u" using D(3,4) [of b u] Q by (auto split: if_splits)
  next
    fix u assume "\<not> attached w u"
    then show "(Q(s := q)) u = []" using D(10) [of u] Q by auto
  qed (use D(6,8,11-13,15) so in auto)
  with pop show thesis by (rule that)
qed

text \<open>Logging the call of the callback of the operation in flight.\<close>

lemma done_ops_log [simp]:
  "done_ops (log_call (Write_cb f a st) w) = done_ops w @ [a]"
  "done_op c = None \<Longrightarrow> done_ops (log_call c w) = done_ops w"
  by (simp_all add: done_ops_def log_call_def List.map_filter_def)

lemma log_call_fields [simp]:
  "streams (log_call c w) = streams w" "io (log_call c w) = io w" "qnodes (log_call c w) = qnodes w"
  "ops (log_call c w) = ops w" "next_op (log_call c w) = next_op w" "owner (log_call c w) = owner w"
  "wire s (log_call c w) = wire s w" "ops_of (log_call c w) = ops_of w" "attached (log_call c w) s = attached w s"
  "hist (log_call c w) = hist w" "attached_at (log_call c w) = attached_at w" "servers (log_call c w) = servers w"
  "notifiers (log_call c w) = notifiers w" "offered (log_call c w) = connection c @ offered w"
  by (simp_all add: log_call_def wire_def ops_of_def attached_def fun_eq_iff)

lemma log_sockets: "connection c = [] \<Longrightarrow> sockets_ok w \<Longrightarrow> sockets_ok (log_call c w)"
  by (rule sockets_cong) auto

lemma progress_log:
  assumes "st \<noteq> 0 \<or> progress w a = data (ops w a)"
  shows "progress (log_call (Write_cb f a st) w) = progress w"
  using assms by (auto simp: progress_def succeeded_def log_call_def fun_eq_iff)

lemma log_done:
  assumes inv: "tcp_inv (Some a) w Q cl" and a: "a < next_op w" "a \<notin> set (Q (owner w a))"
    and st: "st \<noteq> 0 \<or> progress w a = data (ops w a)"
  shows "tcp_inv None (log_call (Write_cb f a st) w) Q cl"
proof -
  note D = tcp_invD [OF inv]
  show ?thesis
  proof (rule tcp_invI, unfold log_call_fields progress_log [OF st])
    fix b
    show "count_list (done_ops (log_call (Write_cb f a st) w)) b =
      (if b < next_op w \<and> b \<notin> set (Q (owner w b)) \<and> None \<noteq> Some b then 1 else 0)"
      using D(7) [of b] a by auto
  qed (use D log_sockets [OF _ D(9)] in auto)
qed

lemma log_other:
  assumes inv: "tcp_inv fl w Q cl" and c: "done_op c = None" "connection c = []"
  shows "tcp_inv fl (log_call c w) Q cl"
proof -
  note D = tcp_invD [OF inv]
  have p: "progress (log_call c w) = progress w"
    using c by (cases c) (auto simp: progress_def succeeded_def log_call_def fun_eq_iff)
  show ?thesis
    by (rule tcp_invI, unfold log_call_fields p done_ops_log(2) [OF c(1)]) (use D log_sockets [OF c(2) D(9)] in auto)
qed

text \<open>More bytes of one operation on the wire.\<close>

lemma concat_extend:
  assumes "sorted_wrt (<) (xs :: 'a::linorder list)" "a \<in> set xs" "\<And>b. b \<in> set xs \<Longrightarrow> a < b \<Longrightarrow> g b = []"
    and "\<And>b. b \<noteq> a \<Longrightarrow> g' b = g b" "g' a = g a @ e"
  shows "concat (map g' xs) = concat (map g xs) @ (e :: 'b list)"
proof -
  obtain ys zs where xs: "xs = ys @ a # zs" using assms(2) by (auto simp: in_set_conv_decomp)
  with assms(1) have lt: "\<And>b. b \<in> set ys \<Longrightarrow> b < a" "\<And>b. b \<in> set zs \<Longrightarrow> a < b"
    by (auto simp: sorted_wrt_append)
  have "map g' ys = map g ys" using lt(1) by (intro map_cong refl assms(4)) fastforce
  moreover have "g b = [] \<and> g' b = []" if "b \<in> set zs" for b
    using lt(2) [OF that] assms(3) [of b] assms(4) [of b] xs that by auto
  then have "map g' zs = map (\<lambda>_. []) zs" "map g zs = map (\<lambda>_. []) zs" by auto
  ultimately show ?thesis using assms(5) by (simp add: xs map_replicate_const del: map_eq_conv)
qed

lemma sorted_ops_of: "sorted_wrt (<) (ops_of w s)"
  unfolding ops_of_def by (intro sorted_wrt_filter) (simp add: sorted_wrt_upt)

lemma wire_step:
  assumes inv: "tcp_inv fl w Q cl" and s: "holds_fd w s" and a: "a < next_op w" "owner w a = s"
    and later: "\<And>b. b < next_op w \<Longrightarrow> a < b \<Longrightarrow> owner w b = s \<Longrightarrow> progress w b = []"
    and first: "\<And>b. b \<in> set (Q s) \<Longrightarrow> a \<le> b"
    and wr: "wrote (fd (streams w s)) bs n w w1" and w': "w' = w1\<lparr>ops := (ops w1)(a := x)\<rparr>"
    and x: "data x = data (ops w a)" "cb x = cb (ops w a)" "written x \<le> length (data x)"
    and e: "progress w' a = progress w a @ take (nat n) bs"
  shows "tcp_inv fl w' Q cl"
proof -
  note D = tcp_invD [OF inv]
  obtain h where h: "hist w1 = hist w @ h" "\<forall>x \<in> set h. fst x = Sys_write (fd (streams w s)) bs"
      "sent_in (fd (streams w s)) h = take (nat n) bs" and m: "same_memory w w1"
    using wr by (auto simp: wrote_def)
  have v: "\<And>u. writes (streams w' u) = writes (streams w u)" "\<And>u. attached w' u = attached w u"
    "\<And>u. status (streams w' u) = status (streams w u)"
    "pending_closes (io w') = pending_closes (io w)" "qnodes w' = qnodes w" "ops w' = (ops w)(a := x)"
    "next_op w' = next_op w" "owner w' = owner w" "calls w' = calls w" "\<And>u. wire u w' = wire u w1"
    using m w' by (simp_all add: same_memory_def wire_def attached_def)
  have p: "progress w' b = progress w b" if "b \<noteq> a" for b
    using that by (simp add: progress_def succeeded_def v)
  have d: "done_ops w' = done_ops w" "ops_of w' = ops_of w"
    by (simp_all add: done_ops_def ops_of_def v fun_eq_iff)
  have t: "timers_ok w'"
    using timers_ok_fields [of w' w] m w' D(15) by (simp add: same_memory_def)
  have wire: "wire u w1 = wire u w @ (if holds_fd w u then sent_in (fd (streams w u)) h else [])" for u
    by (rule wire_grow [OF D(9) h(1)]) (use m in \<open>auto simp: same_memory_def\<close>)
  have "sockets_ok w1"
    by (rule sockets_ok_grow [OF D(9) m h(1)]) (use h(2) in \<open>auto simp: closes_def\<close>)
  then have so: "sockets_ok w'" by (rule sockets_cong [rotated -1]) (simp_all add: w')
  show ?thesis
  proof (rule tcp_invI, unfold v d)
    fix u
    show "wire u w1 = concat (map (progress w') (ops_of w u))"
    proof (cases "u = s")
      case True
      have "concat (map (progress w') (ops_of w s)) = concat (map (progress w) (ops_of w s)) @ take (nat n) bs"
        by (rule concat_extend [OF sorted_ops_of, of a]) (use a later p e in auto)
      then show ?thesis using True wire [of s] h(3) s D(13) [of s] by simp
    next
      case False
      have "map (progress w') (ops_of w u) = map (progress w) (ops_of w u)"
        using a(2) False by (intro map_cong refl p) auto
      moreover have "fd (streams w u) \<noteq> fd (streams w s)" if "holds_fd w u"
        using D(9) that s False unfolding sockets_ok_def by blast
      ultimately show ?thesis using wire [of u] D(13) [of u] sent_elsewhere [OF h(2)] by (simp del: map_eq_conv)
    qed
  next
    fix u b c
    assume b: "b \<in> set (Q u)" "c < next_op w" "b < c" "owner w c = u"
    then have "c \<noteq> a" using first a by force
    then show "progress w' c = []" using D(14) [OF b] p by simp
  next
    fix b assume "b < next_op w"
    then show "written (((ops w)(a := x)) b) \<le> length (data (((ops w)(a := x)) b))"
      using D(12) [of b] x by auto
    from \<open>b < next_op w\<close> show "\<exists>f. cb (((ops w)(a := x)) b) = Some f" using D(8) [of b] D(8) [OF a(1)] x by auto
  qed (use D(1-7,10-11) so t in auto)
qed

text \<open>A new operation is in flight; queueing it, and changing the status of a stream.\<close>

lemma new_op_unqueued: "tcp_inv fl w Q cl \<Longrightarrow> next_op w \<notin> set (Q u)"
  using tcp_invD(3) by blast

lemma new_op_inv:
  assumes inv: "tcp_inv None w Q cl"
  shows "tcp_inv (Some (next_op w)) (new_op s buf f w) Q cl"
proof -
  note D = tcp_invD [OF inv]
  let ?a = "next_op w" and ?w = "new_op s buf f w"
  have a_new: "?a \<notin> set (Q u)" for u using D(3) [of ?a u] by auto
  then have a_done: "?a \<notin> set (done_ops w)" using D(7) [of ?a] by (simp add: count_list_0_iff)
  have v: "\<And>u. writes (streams ?w u) = writes (streams w u)" "\<And>u. fd (streams ?w u) = fd (streams w u)"
    "\<And>u. status (streams ?w u) = status (streams w u)"
    "pending_closes (io ?w) = pending_closes (io w)" "qnodes ?w = queue_init_node (qnodes w) (Write_node ?a)"
    "next_op ?w = next_op w + 1" "owner ?w = (owner w)(?a := s)" "calls ?w = calls w"
    "\<And>u. wire u ?w = wire u w" "\<And>u. attached ?w u = attached w u" "done_ops ?w = done_ops w"
    "\<And>b. b \<noteq> ?a \<Longrightarrow> ops ?w b = ops w b" "cb (ops ?w ?a) = Some f" "written (ops ?w ?a) = 0"
    by (simp_all add: new_op_def pd_write_init_def Let_def wire_def attached_def done_ops_def)
  have so: "sockets_ok ?w"
    by (rule sockets_cong [OF _ _ _ _ _ _ D(9)]) (simp_all add: new_op_def pd_write_init_def Let_def)
  have p: "progress ?w b = (if b = ?a then [] else progress w b)" for b
    using not_succeeded [OF a_done] v by (simp add: progress_def succeeded_def)
  have ops: "ops_of ?w u = ops_of w u @ (if u = s then [?a] else [])" for u
    unfolding ops_of_def v by (auto intro: filter_cong)
  show ?thesis
  proof (rule tcp_invI)
    fix u
    have "Write_node ?a \<notin> set (map Write_node (Q u))" using a_new by auto
    then show "queue_rep (writes (streams ?w u)) (qnodes ?w) (map Write_node (Q u))"
      unfolding v by (rule queue_rep_init_node [OF D(1)])
  next
    show "queue_rep (pending_closes (io ?w)) (qnodes ?w) (map Close_node cl)"
      unfolding v by (rule queue_rep_init_node [OF D(2)]) auto
  next
    fix u b assume "b \<in> set (Q u)"
    then show "b < next_op ?w \<and> owner ?w b = u" using D(3,4) [of b u] unfolding v by auto
  next
    fix b
    show "count_list (done_ops ?w) b =
      (if b < next_op ?w \<and> b \<notin> set (Q (owner ?w b)) \<and> Some ?a \<noteq> Some b then 1 else 0)"
      using D(7) [of b] a_new unfolding v by (cases "b = ?a") auto
  next
    fix b assume "b < next_op ?w"
    then show "\<exists>g. cb (ops ?w b) = Some g" "written (ops ?w b) \<le> length (data (ops ?w b))"
      using D(8,12) [of b] v by (cases "b = ?a"; simp)+
  next
    fix u
    have "map (progress ?w) (ops_of w u) = map (progress w) (ops_of w u)"
      by (rule map_cong) (auto simp: p)
    then show "wire u ?w = concat (map (progress ?w) (ops_of ?w u))"
      using D(13) [of u] by (simp add: ops v p del: map_eq_conv)
  next
    fix u b c
    assume "b \<in> set (Q u)" "c < next_op ?w" "b < c" "owner ?w c = u"
    then show "progress ?w c = []" using D(14) [of b u c] by (auto simp: p v split: if_splits)
  qed (use D(5,6,10,11,15) v so in auto)
qed

lemma push_write_inv:
  assumes inv: "tcp_inv (Some a) w Q cl" and a: "a < next_op w" "owner w a = s" "a \<notin> set (Q s)"
    and lst: "\<And>b. b < next_op w \<Longrightarrow> owner w b = s \<Longrightarrow> b \<le> a"
    and s: "attached w s"
  obtains qu mem where
    "queue_push (writes (streams w s)) (queue_init_node (qnodes w) (Write_node a)) (Write_node a) = Inr (qu, mem)"
    "tcp_inv None (set_stream s (\<lambda>t. t\<lparr>writes := qu\<rparr>) (w\<lparr>qnodes := mem\<rparr>)) (Q(s := Q s @ [a])) cl"
proof -
  note D = tcp_invD [OF inv]
  let ?n = "Write_node a" and ?m = "queue_init_node (qnodes w) (Write_node a)"
  have fresh: "a \<notin> set (Q u)" for u using D(4) [of a u] a by auto
  have rep: "queue_rep (writes (streams w u)) ?m (map Write_node (Q u))" for u
    by (rule queue_rep_init_node [OF D(1)]) (use fresh in auto)
  have repc: "queue_rep (pending_closes (io w)) ?m (map Close_node cl)"
    by (rule queue_rep_init_node [OF D(2)]) auto
  have new: "?n \<notin> set (map Write_node (Q s))" using fresh by auto
  obtain qu mem where push: "queue_push (writes (streams w s)) ?m ?n = Inr (qu, mem)"
    and rep': "queue_rep qu mem (map Write_node (Q s) @ [?n])"
    and same: "\<And>y. y \<notin> set (map Write_node (Q s)) \<Longrightarrow> y \<noteq> ?n \<Longrightarrow> mem y = ?m y"
    using queue_push_rep [OF rep new node_ready_init] by blast
  let ?w = "set_stream s (\<lambda>t. t\<lparr>writes := qu\<rparr>) (w\<lparr>qnodes := mem\<rparr>)"
  have p: "progress ?w = progress w" "done_ops ?w = done_ops w" "ops_of ?w = ops_of w"
    "\<And>u. wire u ?w = wire u w" "\<And>u. attached ?w u = attached w u"
    "\<And>u. status (streams ?w u) = status (streams w u)"
    by (auto simp: progress_def succeeded_def done_ops_def ops_of_def attached_def fun_eq_iff intro!: wire_cong)
  have so: "sockets_ok ?w" by (rule sockets_cong [OF _ _ _ _ _ _ D(9)]) (auto split: if_splits)
  have "tcp_inv None ?w (Q(s := Q s @ [a])) cl"
  proof (rule tcp_invI, unfold p)
    fix u
    show "queue_rep (writes (streams ?w u)) (qnodes ?w) (map Write_node ((Q(s := Q s @ [a])) u))"
    proof (cases "u = s")
      case False
      have "mem y = ?m y" if "y \<in> set (map Write_node (Q u))" for y
        using that D(4) [of _ u] D(4) [of _ s] a(2) False by (intro same) auto
      from queue_rep_cong [OF rep this] False show ?thesis by simp
    qed (use rep' in simp)
  next
    have "mem y = ?m y" if "y \<in> set (map Close_node cl)" for y using that by (intro same) auto
    from queue_rep_cong [OF repc this]
    show "queue_rep (pending_closes (io ?w)) (qnodes ?w) (map Close_node cl)" by simp
  next
    fix b
    show "count_list (done_ops w) b =
      (if b < next_op ?w \<and> b \<notin> set ((Q(s := Q s @ [a])) (owner ?w b)) \<and> None \<noteq> Some b then 1 else 0)"
      using D(7) [of b] a fresh by (auto simp: fun_upd_def)
  next
    fix u b c
    assume b: "b \<in> set ((Q(s := Q s @ [a])) u)" "c < next_op ?w" "b < c" "owner ?w c = u"
    then show "progress w c = []" using D(14) [of b u c] lst [of c] by (auto split: if_splits)
  next
    fix u
    have "b < a" if "b \<in> set (Q s)" for b using lst [of b] D(3,4) [OF that] fresh [of s] that by (cases "b = a") auto
    then show "sorted_wrt (<) ((Q(s := Q s @ [a])) u)" using D(5) [of u] by (auto simp: sorted_wrt_append)
  next
    fix u b
    assume "b \<in> set ((Q(s := Q s @ [a])) u)"
    then show "b < next_op ?w \<and> owner ?w b = u" using D(3,4) [of b u] a by (auto split: if_splits)
  next
    fix u assume "\<not> attached w u"
    then show "(Q(s := Q s @ [a])) u = []" using D(10) [of u] s by auto
  qed (use D(6,8,11-13,15) so in auto)
  with push show thesis by (rule that)
qed

lemma set_status_inv:
  assumes inv: "tcp_inv fl w Q cl" and st: "st = PD_TCP_CLOSED \<or> attached w s \<and> status (streams w s) \<noteq> PD_TCP_CLOSED"
  shows "tcp_inv fl (set_stream s (\<lambda>t. t\<lparr>status := st\<rparr>) w) Q cl"
proof -
  note D = tcp_invD [OF inv]
  let ?w = "set_stream s (\<lambda>t. t\<lparr>status := st\<rparr>) w"
  have p: "progress ?w = progress w" "done_ops ?w = done_ops w" "ops_of ?w = ops_of w"
    "\<And>u. wire u ?w = wire u w" "\<And>u. attached ?w u = attached w u"
    "\<And>u. writes (streams ?w u) = writes (streams w u)"
    by (auto simp: progress_def succeeded_def done_ops_def ops_of_def attached_def fun_eq_iff intro!: wire_cong)
  have so: "sockets_ok ?w" by (rule sockets_cong [OF _ _ _ _ _ _ D(9)]) (use st in \<open>auto split: if_splits\<close>)
  show ?thesis by (rule tcp_invI, unfold p) (use D st so in auto)
qed

lemma written_after_success:
  assumes inv: "tcp_inv fl w Q cl" and a: "succeeded w a"
    and x: "data x = data (ops w a)" "cb x = cb (ops w a)" "written x \<le> length (data x)"
  shows "tcp_inv fl (w\<lparr>ops := (ops w)(a := x)\<rparr>) Q cl"
proof -
  note D = tcp_invD [OF inv]
  let ?w = "w\<lparr>ops := (ops w)(a := x)\<rparr>"
  have p: "progress ?w = progress w" "done_ops ?w = done_ops w" "ops_of ?w = ops_of w"
    "\<And>u. wire u ?w = wire u w" "\<And>u. attached ?w u = attached w u"
    using a x(1) by (auto simp: progress_def succeeded_def done_ops_def ops_of_def wire_def attached_def fun_eq_iff)
  have so: "sockets_ok ?w" by (rule sockets_cong [OF _ _ _ _ _ _ D(9)]) (auto split: if_splits)
  have ops: "\<exists>f. cb (((ops w)(a := x)) b) = Some f"
    "written (((ops w)(a := x)) b) \<le> length (data (((ops w)(a := x)) b))" if "b < next_op w" for b
    using D(8,12) [OF that] x by auto
  show ?thesis by (rule tcp_invI, unfold p) (use D(1-7,10,11,13-15) ops so in auto)
qed

text \<open>A change of timers, their heap and the references.\<close>

definition timer_change :: "'x client_world_scheme \<Rightarrow> 'x client_world_scheme \<Rightarrow> bool" where
  "timer_change w w' \<longleftrightarrow> timers_ok w' \<and>
     (\<exists>m h r mem. w' = w\<lparr>tmem := m, io := (io w)\<lparr>refs := r, timers := h\<rparr>, hnodes := mem\<rparr>)"

lemma timer_change_refl: "timers_ok w \<Longrightarrow> timer_change w w"
  unfolding timer_change_def
  by (intro conjI exI [of _ "tmem w"] exI [of _ "timers (io w)"] exI [of _ "refs (io w)"] exI [of _ "hnodes w"]) simp_all

lemma timer_change_trans: "timer_change w w' \<Longrightarrow> timer_change w' w'' \<Longrightarrow> timer_change w w''"
  unfolding timer_change_def by fastforce

lemma timer_change_inv:
  assumes "timer_change w w'" "tcp_inv fl w Q cl"
  shows "tcp_inv fl w' Q cl" "evolves w cl w' cl"
proof -
  obtain m h r mem where w': "w' = w\<lparr>tmem := m, io := (io w)\<lparr>refs := r, timers := h\<rparr>, hnodes := mem\<rparr>"
    and ok: "timers_ok w'" using assms(1) by (auto simp: timer_change_def)
  have p: "progress w' = progress w" "done_ops w' = done_ops w" "ops_of w' = ops_of w"
    "\<And>u. wire u w' = wire u w" "\<And>u. attached w' u = attached w u"
    by (simp_all add: w' progress_def succeeded_def done_ops_def ops_of_def wire_def attached_def fun_eq_iff)
  have so: "sockets_ok w'" by (rule sockets_cong [OF _ _ _ _ _ _ tcp_invD(9) [OF assms(2)]]) (simp_all add: w')
  show "tcp_inv fl w' Q cl"
    by (rule tcp_invI, unfold p) (use tcp_invD [OF assms(2)] ok so in \<open>auto simp: w'\<close>)
  show "evolves w cl w' cl" by (simp add: w' evolves_def grows_def settled_def)
qed

lemma timer_start_change:
  assumes "timers_ok w"
  obtains w' where "pd_timer_start t f d w = Inr w'" "timer_change w w'"
proof (cases "active (tmem w t)")
  case True
  then show thesis using that timer_change_refl [OF assms] by simp
next
  case False
  from pd_timer_start_ok [OF assms False] obtain w' h mem where "pd_timer_start t f d w = Inr w'" "timers_ok w'"
    "w' = w\<lparr>tmem := (tmem w)(t := (tmem w t)\<lparr>active := True, timeout := now (io w) + d, on_timeout := f\<rparr>),
      io := (io w)\<lparr>refs := refs (io w) + 1, timers := h\<rparr>, hnodes := mem\<rparr>" .
  then show thesis by (intro that [of w']) (auto simp: timer_change_def)
qed

lemma timer_stop_change:
  assumes "timers_ok w"
  obtains w' where "pd_timer_stop t w = Inr w'" "timer_change w w'"
proof (cases "active (tmem w t)")
  case True
  from pd_timer_stop_ok [OF assms True] obtain w' h mem where "pd_timer_stop t w = Inr w'" "timers_ok w'"
    "w' = w\<lparr>tmem := (tmem w)(t := (tmem w t)\<lparr>active := False\<rparr>),
      io := (io w)\<lparr>refs := refs (io w) - 1, timers := h\<rparr>, hnodes := mem\<rparr>" .
  then show thesis by (intro that [of w']) (auto simp: timer_change_def)
next
  case False
  then show thesis using that timer_change_refl [OF assms] by simp
qed

lemma timer_interval_change:
  "timers_ok w \<Longrightarrow> timer_change w (set_timer t (\<lambda>r. r\<lparr>interval := p\<rparr>) w)"
  unfolding timer_change_def
  by (intro conjI exI [of _ "timers (io w)"] exI [of _ "refs (io w)"] exI [of _ "hnodes w"] exI) simp_all

lemma exec_cmd_change:
  assumes "timers_ok w"
  obtains w' where "exec_cmd c w = Inr w'" "timer_change w w'"
proof (cases c)
  case (Start t f d)
  then show thesis using timer_start_change [OF assms] that by (metis exec_cmd.simps(1))
next
  case (Repeat t f d)
  let ?w = "set_timer t (\<lambda>r. r\<lparr>interval := d\<rparr>) w"
  have change: "timer_change w ?w" by (rule timer_interval_change [OF assms])
  from assms have "timers_ok ?w" by simp
  then obtain w' where "pd_timer_start t f d ?w = Inr w'" "timer_change ?w w'" by (rule timer_start_change)
  then show thesis using Repeat that timer_change_trans [OF change] by (simp add: pd_timer_repeat_def)
next
  case (Stop t)
  then show thesis using timer_stop_change [OF assms] that by (metis exec_cmd.simps(3))
qed

end
