(* ===== verification/Tcp_Accept.thy ===== *)
theory Tcp_Accept
  imports Tcp_Invariant Tcp_Listener
begin

text \<open>
  Connections and the invariant of the streams: a client that accepts a connection it was offered attaches a new stream
  to a descriptor nobody holds, and a descriptor the kernel has just handed out is one nobody holds.
\<close>

section \<open>A descriptor nobody holds\<close>

text \<open>A descriptor that is open, was not offered and is held by no stream.\<close>

definition free_fd :: "int \<Rightarrow> 'x client_world_scheme \<Rightarrow> bool" where
  "free_fd p w \<longleftrightarrow> p \<in> open_fds (hist w) \<and> p \<notin> set (offered w) \<and> (\<forall>s. holds_fd w s \<longrightarrow> fd (streams w s) \<noteq> p)"

lemma free_spare: "free_fd p w \<Longrightarrow> spare p w"
  by (auto simp: free_fd_def spare_def)

lemma free_fd_view:
  assumes "same_view w w'" "sockets_ok w" "free_fd p w"
  shows "free_fd p w'"
proof -
  obtain h where h: "hist w' = hist w @ h" "\<forall>x \<in> set h. plain (fst x)" and m: "same_memory w w'"
    using assms(1) by (auto simp: same_view_def)
  have "\<forall>x \<in> set h. \<not> closes p x" using h(2) by (auto simp: plain_def closes_def)
  then have "p \<in> open_fds (hist w')" using assms(3) open_fds_keep unfolding h(1) free_fd_def by blast
  moreover have "holds_fd w' s \<Longrightarrow> holds_fd w s" for s
    using holds_fd_grow [OF assms(2) h(1), of s] m by (simp add: same_memory_def)
  ultimately show ?thesis using assms(3) m by (auto simp: free_fd_def same_memory_def)
qed

lemma accepted_free:
  assumes "honest kern" "sockets_ok w" "sys kern (Sys_accept l) w = (p, w')" "0 \<le> p"
  shows "free_fd p w'"
proof -
  have p: "p = kern (hist w) (Sys_accept l)" "hist w' = hist w @ [(Sys_accept l, p)]" and m: "same_memory w w'"
    using assms(3,4) sys_memory [OF assms(3)] by (auto simp: sys_def Let_def split: if_splits)
  have new: "p \<notin> open_fds (hist w)" using assms(1) p(1) by (simp add: honest_def)
  have "p \<in> open_fds (hist w')" using assms(4) by (simp add: p(2) open_fds_append)
  moreover have "p \<notin> set (offered w')" using new sockets_okD(8) [OF assms(2)] m by (auto simp: same_memory_def)
  moreover have "fd (streams w' s) \<noteq> p" if "holds_fd w' s" for s
  proof -
    have "holds_fd w s" using that holds_fd_grow [OF assms(2) p(2), of s] m by (simp add: same_memory_def)
    then show ?thesis using new sockets_okD(5) [OF assms(2)] m by (auto simp: same_memory_def)
  qed
  ultimately show ?thesis by (auto simp: free_fd_def)
qed

text \<open>Offering it to the client.\<close>

lemma log_connection:
  assumes inv: "tcp_inv fl w Q cl" and p: "free_fd p w"
  shows "tcp_inv fl (log_call (On_connection f v p st) w) Q cl"
proof -
  note D = tcp_invD [OF inv]
  let ?c = "On_connection f v p st"
  have pr: "progress (log_call ?c w) = progress w"
    by (auto simp: progress_def succeeded_def log_call_def fun_eq_iff)
  have holds: "holds_fd (log_call ?c w) s = holds_fd w s" for s by (simp add: holds_fd_def)
  have so: "sockets_ok (log_call ?c w)"
    by (rule sockets_okI) (use sockets_okD [OF D(9)] p in \<open>auto simp: free_fd_def holds\<close>)
  show ?thesis
    by (rule tcp_invI, unfold log_call_fields pr) (use D so in auto)
qed

section \<open>Accepting a connection\<close>

lemma accept_as_fields:
  assumes "offered w = p # ps" "\<not> attached w s" "status (streams w s) = PD_TCP_NONE"
  obtains t x where "streams (accept_as kern s f g w) = (streams w)(s := t)" "fd t = p" "status t = PD_TCP_ACTIVE"
    "on_data t = Some f" "handler (event t) = Some Tcp_client_io" "writes t = queue_init (writes (streams w s))"
    "hist (accept_as kern s f g w) = hist w @ [x]" "\<not> is_write (fst x)" "\<And>f. \<not> closes f x" "adds (fst x) = {Stream_event s}"
    "offered (accept_as kern s f g w) = ps" "attached_at (accept_as kern s f g w) = (attached_at w)(s := length (hist w))"
proof -
  let ?w = "accept_as kern s f g w"
  define t where "t = streams ?w s"
  have "\<exists>x. streams ?w = (streams w)(s := t) \<and> fd t = p \<and> status t = PD_TCP_ACTIVE \<and> on_data t = Some f \<and>
     handler (event t) = Some Tcp_client_io \<and> writes t = queue_init (writes (streams w s)) \<and>
     hist ?w = hist w @ [x] \<and> \<not> is_write (fst x) \<and> (\<forall>f. \<not> closes f x) \<and> adds (fst x) = {Stream_event s} \<and>
     offered ?w = ps \<and> attached_at ?w = (attached_at w)(s := length (hist w))"
    using assms by (simp add: t_def accept_as_def pd_tcp_init_def pd_tcp_accept_def pd_event_add_def sys_def inc_refs_def
        closes_def Let_def fun_eq_iff)
  then show thesis using that by blast
qed

lemma accept_as_rest:
  "timers (io (accept_as kern s f g w)) = timers (io w)"
  "pending_closes (io (accept_as kern s f g w)) = pending_closes (io w)"
  "qnodes (accept_as kern s f g w) = qnodes w" "ops (accept_as kern s f g w) = ops w" "tmem (accept_as kern s f g w) = tmem w"
  "hnodes (accept_as kern s f g w) = hnodes w" "servers (accept_as kern s f g w) = servers w"
  "notifiers (accept_as kern s f g w) = notifiers w" "next_op (accept_as kern s f g w) = next_op w"
  "owner (accept_as kern s f g w) = owner w" "calls (accept_as kern s f g w) = calls w"
  by (simp_all add: accept_as_def pd_tcp_init_def pd_tcp_accept_def pd_event_add_def sys_def inc_refs_def Let_def split: list.split)

lemma accept_as_ok:
  assumes inv: "tcp_inv None w Q cl"
  shows "tcp_inv None (accept_as kern s f g w) Q cl" "evolves w cl (accept_as kern s f g w) cl"
proof -
  consider "accept_as kern s f g w = w" | p ps where "offered w = p # ps" "\<not> attached w s" "status (streams w s) = PD_TCP_NONE"
    unfolding accept_as_def by (cases "offered w") (simp_all, meson)
  then have "tcp_inv None (accept_as kern s f g w) Q cl \<and> evolves w cl (accept_as kern s f g w) cl"
  proof cases
    case 1
    then show ?thesis using inv by simp
  next
    case 2
    note D = tcp_invD [OF inv] and S = sockets_okD [OF tcp_invD(9) [OF inv]]
    have p: "p \<in> open_fds (hist w)" "p \<notin> set ps" "0 \<le> p" "distinct ps" using S(7,8) 2(1) by (auto dest: open_fds_nonneg)
    let ?w = "accept_as kern s f g w"
    obtain t x where v: "streams ?w = (streams w)(s := t)" "fd t = p" "status t = PD_TCP_ACTIVE"
      "on_data t = Some f" "handler (event t) = Some Tcp_client_io" "writes t = queue_init (writes (streams w s))"
      "hist ?w = hist w @ [x]" "\<not> is_write (fst x)" "\<And>f. \<not> closes f x" "adds (fst x) = {Stream_event s}"
      "offered ?w = ps" "attached_at ?w = (attached_at w)(s := length (hist w))"
      by (rule accept_as_fields [OF 2]) (rule that; assumption)
    note r = accept_as_rest [of kern s f g w]
    have Q: "Q s = []" "s \<notin> set cl" using D(6,10) 2(2,3) by auto
    have att: "attached ?w u \<longleftrightarrow> u = s \<or> attached w u" for u using p(3) v(2) by (simp add: attached_def v(1))
    have no_sent: "sent_in q [x] = []" for q using v(8) by (simp add: sent_in_none)
    have wire: "wire u ?w = wire u w" for u
    proof (cases "u = s")
      case True
      then show ?thesis using 2(2) att no_sent by (simp add: wire_def v)
    next
      case False
      then show ?thesis using wire_grow [OF D(9) v(7), of u] no_sent by (simp add: v)
    qed
    have holds: "holds_fd ?w u \<longleftrightarrow> u = s \<or> holds_fd w u" for u
    proof (cases "u = s")
      case True
      then show ?thesis using att v(9) by (simp add: holds_fd_def v)
    next
      case False
      then show ?thesis using holds_fd_grow [OF D(9) v(7), of u] v(9) by (simp add: v)
    qed
    have held: "fd (streams w u) \<noteq> p \<and> fd (streams w u) \<notin> set ps" if "holds_fd w u" for u using S(6) [OF that] 2(1) by auto
    have opened: "q \<in> open_fds (hist ?w)" if "q \<in> open_fds (hist w)" for q
      using that open_fds_keep v(9) by (simp add: v(7))
    have reg: "registered (hist ?w) = insert (Stream_event s) (registered (hist w))"
      using v(10) by (simp add: v(7) registered_def)
    have late: "attached_at w u \<le> length (hist ?w)" if "attached w u" for u using S(2) [OF that] by (simp add: v(7))
    have so: "sockets_ok ?w"
      by (rule sockets_okI, unfold holds att reg) (use S p v 2 held opened late in \<open>auto split: if_splits\<close>)
    have timers: "timers_ok ?w" using timers_ok_fields [of ?w w] D(15) r by simp
    have pr: "progress ?w = progress w" "done_ops ?w = done_ops w" "ops_of ?w = ops_of w"
      by (simp_all add: progress_def succeeded_def done_ops_def ops_of_def r fun_eq_iff)
    have "tcp_inv None ?w Q cl"
      by (rule tcp_invI, unfold att wire pr r) (use D Q so timers v in \<open>auto simp: v(1)\<close>)
    moreover have "evolves w cl ?w cl"
      unfolding evolves_def grows_def r using 2 v by (auto simp: v(1) settled_def)
    ultimately show ?thesis by blast
  qed
  then show "tcp_inv None (accept_as kern s f g w) Q cl" "evolves w cl (accept_as kern s f g w) cl" by simp_all
qed

end
