(* ===== verification/Tcp_Correct.thy ===== *)
theory Tcp_Correct
  imports Tcp_Accept
begin

text \<open>
  Every operation on streams keeps the invariant of the writes, for any client whose calls keep it
  (locale \<open>tcp_callbacks\<close>); by induction on the fuel every client program is such a client, so the
  locale is interpreted on \<open>script\<close> for all programs and all kernels.
\<close>

lemma snd_sys_view [simp]: "plain c \<Longrightarrow> same_view w (snd (sys kern c w))"
  using sys_view [OF _ prod.collapse [symmetric]] .

lemma event_set_view [simp]: "same_view w (snd (pd_event_set kern e ev f w))"
  by (simp add: pd_event_set_def)

lemma flags_view:
  "same_view w (snd (pd_event_set kern e ev f (set_stream s (\<lambda>t. t\<lparr>event := (event t)\<lparr>flags := g (flags (event t))\<rparr>\<rparr>) w)))"
  by (rule same_view_trans [OF same_view_update(2) event_set_view])

lemma pop_close:
  assumes inv: "tcp_inv None w Q (c # cl)"
  obtains qu mem where "queue_pop (pending_closes (io w)) (qnodes w) = Inr (Some (Close_node c), qu, mem)"
    "tcp_inv None (set_io (\<lambda>c. c\<lparr>pending_closes := qu\<rparr>) (w\<lparr>qnodes := mem\<rparr>)) Q cl"
proof -
  note D = tcp_invD [OF inv]
  have rep: "queue_rep (pending_closes (io w)) (qnodes w) (Close_node c # map Close_node cl)"
    using D(2) by simp
  then obtain qu mem where pop: "queue_pop (pending_closes (io w)) (qnodes w) = Inr (Some (Close_node c), qu, mem)"
    and rep': "queue_rep qu mem (map Close_node cl)" by (rule queue_pop_rep)
  let ?w = "set_io (\<lambda>c. c\<lparr>pending_closes := qu\<rparr>) (w\<lparr>qnodes := mem\<rparr>)"
  have other: "queue_rep (writes (streams w u)) mem (map Write_node (Q u))" for u
    by (rule queue_pop_other [OF rep D(1) _ pop]) auto
  have p: "progress ?w = progress w" "done_ops ?w = done_ops w" "ops_of ?w = ops_of w"
    "\<And>u. wire u ?w = wire u w" "\<And>u. attached ?w u = attached w u"
    by (simp_all add: progress_def succeeded_def done_ops_def ops_of_def wire_def attached_def fun_eq_iff)
  have so: "sockets_ok ?w" by (rule sockets_cong [OF _ _ _ _ _ _ D(9)]) auto
  have "tcp_inv None ?w Q cl" by (rule tcp_invI, unfold p) (use D(3-8,10-15) rep' other so in auto)
  with pop show thesis by (rule that)
qed

lemma dec_refs_view: "same_view w (dec_refs w)"
  by (simp add: dec_refs_def same_view_def same_memory_def)

lemma push_close:
  assumes inv: "tcp_inv None w Q cl" and closed: "status (streams w s) = PD_TCP_CLOSED" "s \<notin> set cl"
  obtains qu mem where
    "queue_push (pending_closes (io w)) (queue_init_node (qnodes w) (Close_node s)) (Close_node s) = Inr (qu, mem)"
    "tcp_inv None (set_io (\<lambda>c. c\<lparr>pending_closes := qu\<rparr>) (w\<lparr>qnodes := mem\<rparr>)) Q (cl @ [s])"
proof -
  note D = tcp_invD [OF inv]
  let ?m = "queue_init_node (qnodes w) (Close_node s)"
  have rep: "queue_rep (writes (streams w u)) ?m (map Write_node (Q u))" for u
    by (rule queue_rep_init_node [OF D(1)]) auto
  have repc: "queue_rep (pending_closes (io w)) ?m (map Close_node cl)"
    by (rule queue_rep_init_node [OF D(2)]) (use closed(2) in auto)
  have new: "Close_node s \<notin> set (map Close_node cl)" using closed(2) by auto
  obtain qu mem where push: "queue_push (pending_closes (io w)) ?m (Close_node s) = Inr (qu, mem)"
    and rep': "queue_rep qu mem (map Close_node cl @ [Close_node s])"
    and same: "\<And>y. y \<notin> set (map Close_node cl) \<Longrightarrow> y \<noteq> Close_node s \<Longrightarrow> mem y = ?m y"
    using queue_push_rep [OF repc new node_ready_init] by blast
  let ?w = "set_io (\<lambda>c. c\<lparr>pending_closes := qu\<rparr>) (w\<lparr>qnodes := mem\<rparr>)"
  have p: "progress ?w = progress w" "done_ops ?w = done_ops w" "ops_of ?w = ops_of w"
    "\<And>u. wire u ?w = wire u w" "\<And>u. attached ?w u = attached w u"
    by (simp_all add: progress_def succeeded_def done_ops_def ops_of_def wire_def attached_def fun_eq_iff)
  have so: "sockets_ok ?w" by (rule sockets_cong [OF _ _ _ _ _ _ D(9)]) auto
  have "mem y = ?m y" if "y \<in> set (map Write_node (Q u))" for y u using that by (intro same) auto
  then have rep5: "queue_rep (writes (streams w u)) mem (map Write_node (Q u))" for u
    by (intro queue_rep_cong [OF rep]) blast
  have "tcp_inv None ?w Q (cl @ [s])"
    by (rule tcp_invI, unfold p) (use D(3-8,10-15) rep5 rep' closed so in auto)
  with push show thesis by (rule that)
qed

text \<open>
  What the handling of reports does: it keeps the invariant, or it ends in the assertion of the listener's handler, which
  happens only if \<open>P\<close> - a report of a listener without \<^verbatim>\<open>PD_POLLIN\<close> is among them.
\<close>

definition ok_polled :: "bool \<Rightarrow> 'x client_world_scheme \<Rightarrow> sid list \<Rightarrow> 'x client_world_scheme res \<Rightarrow> bool" where
  "ok_polled P w cl r \<longleftrightarrow> ok_after w cl r \<or> P \<and> r = Inl Assert_failed"

lemma ok_polled_simps [simp]:
  "ok_polled P w cl (Inr w') \<longleftrightarrow> ok_after w cl (Inr w')"
  "ok_polled P w cl (Inl e) \<longleftrightarrow> e = Diverged \<or> P \<and> e = Assert_failed"
  by (auto simp: ok_polled_def)

lemma ok_polledI: "ok_after w cl r \<Longrightarrow> ok_polled P w cl r"
  by (simp add: ok_polled_def)

lemma ok_polled_mono: "ok_polled P w cl r \<Longrightarrow> (P \<Longrightarrow> P') \<Longrightarrow> ok_polled P' w cl r"
  by (auto simp: ok_polled_def)

lemma ok_polled_weaken: "ok_polled P w' cl' r \<Longrightarrow> evolves w cl w' cl' \<Longrightarrow> ok_polled P w cl r"
  unfolding ok_polled_def using ok_after_weaken by blast

lemma ok_polled_bind:
  assumes "ok_polled P w cl r"
    and "\<And>w' Q' cl'. tcp_inv None w' Q' cl' \<Longrightarrow> evolves w cl w' cl' \<Longrightarrow> ok_polled P w' cl' (f w')"
  shows "ok_polled P w cl (bind_res r f)"
proof (cases r)
  case (Inr w')
  then obtain Q' cl' where "tcp_inv None w' Q' cl'" "evolves w cl w' cl'"
    using assms(1) by (auto simp: ok_after_def)
  then show ?thesis using ok_polled_weaken [OF assms(2)] Inr by simp
qed (use assms(1) in simp)

locale tcp_callbacks =
  fixes k :: "'x client_world_scheme client" and kern :: kernel
  assumes honest: "honest kern"
    and call_ok: "tcp_inv None (log_call c w) Q cl \<Longrightarrow> ok_after w cl (call k c w)"
begin

lemma write_cb_ok:
  assumes inv: "tcp_inv (Some a) w Q cl" and a: "a < next_op w" "a \<notin> set (Q (owner w a))"
    and st: "st \<noteq> 0 \<or> progress w a = data (ops w a)"
  shows "ok_after w cl (call_ptr k (cb (ops w a)) (\<lambda>f. Write_cb f a st) w)"
    and "ok_after w cl (call_opt k (cb (ops w a)) (\<lambda>f. Write_cb f a st) w)"
proof -
  obtain f where "cb (ops w a) = Some f" using tcp_invD(8) [OF inv a(1)] by blast
  moreover have "ok_after w cl (call k (Write_cb f a st) w)"
    by (rule call_ok [OF log_done [OF inv a st]])
  ultimately show "ok_after w cl (call_ptr k (cb (ops w a)) (\<lambda>f. Write_cb f a st) w)"
    and "ok_after w cl (call_opt k (cb (ops w a)) (\<lambda>f. Write_cb f a st) w)"
    by (simp_all add: call_ptr_def call_opt_def)
qed

lemma other_cb_ok:
  assumes inv: "tcp_inv None w Q cl" and c: "\<And>g. done_op (c g) = None" "\<And>g. connection (c g) = []"
  shows "f \<noteq> None \<Longrightarrow> ok_after w cl (call_ptr k f c w)" and "ok_after w cl (call_opt k f c w)"
  using call_ok [OF log_other [OF inv c]] ok_afterI [OF inv]
  by (auto simp: call_ptr_def call_opt_def split: option.splits)

lemma cancel_writes_ok:
  assumes "cancel_writes k s w = Some r" "tcp_inv None w Q cl"
  shows "ok_after w cl r \<and> (\<forall>w'. r = Inr w' \<longrightarrow> queue_empty (writes (streams w' s)))"
proof -
  have "k' = k \<longrightarrow> (\<forall>Q cl. tcp_inv None w Q cl \<longrightarrow>
      ok_after w cl r \<and> (\<forall>w'. r = Inr w' \<longrightarrow> queue_empty (writes (streams w' s))))"
    if "cancel_writes k' s w = Some r" for k'
  proof (rule cancel_writes.raw_induct [OF _ that], intro impI allI)
    fix run k' s and w :: "'x client_world_scheme" and r Q cl
    assume IH: "\<And>k' s w r. run k' s w = Some r \<Longrightarrow> k' = k \<longrightarrow> (\<forall>Q cl. tcp_inv None w Q cl \<longrightarrow>
        ok_after w cl r \<and> (\<forall>w'. r = Inr w' \<longrightarrow> queue_empty (writes (streams w' s))))"
      and body: "(if queue_empty (writes (streams w s)) then Some (Inr w)
        else case queue_pop (writes (streams w s)) (qnodes w) of
          Inl x \<Rightarrow> Some (Inl Null_deref)
        | Inr (None, b) \<Rightarrow> Some (Inl Null_deref)
        | Inr (Some (Close_node x), b) \<Rightarrow> Some (Inl Null_deref)
        | Inr (Some (Write_node a), q, mem) \<Rightarrow>
            let w = set_stream s (\<lambda>t. t\<lparr>writes := q\<rparr>) (w\<lparr>qnodes := mem\<rparr>)
            in (case call_ptr k' (cb (ops w a)) (\<lambda>f. Write_cb f a PD_ECANCELED) w of
                  Inl e \<Rightarrow> Some (Inl e) | Inr w \<Rightarrow> run k' s w)
        | Inr (Some (Task_node x), b) \<Rightarrow> Some (Inl Null_deref)) = Some r"
      and k: "k' = k" and inv: "tcp_inv None w Q cl"
    show "ok_after w cl r \<and> (\<forall>w'. r = Inr w' \<longrightarrow> queue_empty (writes (streams w' s)))"
    proof (cases "Q s")
      case Nil
      then have "queue_empty (writes (streams w s))"
        using tcp_invD(1) [OF inv, of s] queue_rep_empty by fastforce
      then show ?thesis using body ok_afterI [OF inv evolves_refl] by auto
    next
      case (Cons a q)
      have ne: "\<not> queue_empty (writes (streams w s))"
        using tcp_invD(1) [OF inv, of s] queue_rep_empty Cons by fastforce
      from pop_write [OF inv Cons] obtain qu mem where
        pop: "queue_pop (writes (streams w s)) (qnodes w) = Inr (Some (Write_node a), qu, mem)"
        and inv1: "tcp_inv (Some a) (set_stream s (\<lambda>t. t\<lparr>writes := qu\<rparr>) (w\<lparr>qnodes := mem\<rparr>))
          (Q(s := q)) cl" .
      let ?w = "set_stream s (\<lambda>t. t\<lparr>writes := qu\<rparr>) (w\<lparr>qnodes := mem\<rparr>)"
      have a: "a < next_op ?w" "owner ?w a = s" "a \<notin> set q"
        using tcp_invD(3,4) [OF inv, of _ s] tcp_invD(5) [OF inv, of s] Cons by auto
      have ev: "evolves w cl ?w cl" using ne by (auto simp: evolves_def grows_def settled_def)
      have call: "ok_after ?w cl (call_ptr k (cb (ops ?w a)) (\<lambda>f. Write_cb f a PD_ECANCELED) ?w)"
        by (rule write_cb_ok(1) [OF inv1]) (use a in \<open>auto simp: PD_ECANCELED_def\<close>)
      from call show ?thesis
      proof (cases rule: ok_afterE)
        case 1
        then have "r = Inl Diverged" using body ne pop k by (simp add: Let_def)
        then show ?thesis by simp
      next
        case (2 w2 Q2 cl2)
        have "run k' s w2 = Some r" using body ne pop 2(1) k by (simp add: Let_def)
        then have "ok_after w2 cl2 r \<and> (\<forall>w'. r = Inr w' \<longrightarrow> queue_empty (writes (streams w' s)))"
          using IH k 2(2) by blast
        then show ?thesis using ok_after_weaken evolves_trans [OF ev 2(3)] by blast
      qed
    qed
  qed
  then show ?thesis using assms by blast
qed

lemma pd_closesocket_ok:
  "pd_closesocket kern f w = Inl e \<Longrightarrow> e = Diverged"
  "pd_closesocket kern f w = Inr (r, w') \<Longrightarrow> tcp_inv fl w Q cl \<Longrightarrow> spare f w \<Longrightarrow>
    tcp_inv fl w' Q cl \<and> evolves w cl w' cl \<and> same_memory w w'"
  using closed_inv [of kern f w r w' fl Q cl]
  by (auto simp: pd_closesocket_def loop_res_def split: option.splits)

lemma pd_tcp_close_ok:
  assumes inv: "tcp_inv None w Q cl"
  shows "ok_after w cl (pd_tcp_close k kern s w)"
proof (cases "status (streams w s) = PD_TCP_CLOSED")
  case True
  then show ?thesis using ok_afterI [OF inv] by (simp add: pd_tcp_close_def)
next
  case False
  let ?w1 = "set_stream s (\<lambda>t. t\<lparr>status := PD_TCP_CLOSED\<rparr>) w"
  have inv1: "tcp_inv None ?w1 Q cl" by (rule set_status_inv [OF inv]) simp
  have ev1: "grows w cl ?w1 cl" by (simp add: grows_def)
  obtain r2 w2 where del: "pd_event_del kern (fd (streams ?w1 s)) ?w1 = (r2, w2)" by fastforce
  then have v2: "same_view ?w1 w2" unfolding pd_event_del_def by (rule sys_view [rotated]) simp
  then have fd2: "fd (streams w2 s) = fd (streams w s)" by (simp add: same_view_def same_memory_def)
  have spare: "spare (fd (streams w2 s)) w2"
    unfolding fd2 by (rule spare_memory [OF v2 tcp_invD(9) [OF inv1] closing_spare [OF tcp_invD(9) [OF inv] False]])
  show ?thesis
  proof (cases "pd_closesocket kern (fd (streams w2 s)) w2")
    case (Inl e)
    then show ?thesis using False del pd_closesocket_ok(1) by (auto simp: pd_tcp_close_def Let_def)
  next
    case (Inr rw)
    then obtain r3 w3 where close: "pd_closesocket kern (fd (streams w2 s)) w2 = Inr (r3, w3)"
      by (cases rw) auto
    note c3 = pd_closesocket_ok(2) [OF close tcp_inv_view [OF v2 inv1] spare]
    have inv3: "tcp_inv None w3 Q cl" using c3 by blast
    have ev3: "evolves ?w1 cl w3 cl" by (rule evolves_trans [OF evolves_view [OF v2]]) (use c3 in blast)
    have s_cl: "s \<notin> set cl" using tcp_invD(6) [OF inv] False by blast
    have eq: "pd_tcp_close k kern s w = bind_res (run_loop (cancel_writes k s w3)) (\<lambda>w.
        let w = w\<lparr>qnodes := queue_init_node (qnodes w) (Close_node s)\<rparr>
        in bind_res (queue_push (pending_closes (io w)) (qnodes w) (Close_node s)) (\<lambda>(q, mem).
             Inr (set_io (\<lambda>c. c\<lparr>pending_closes := q\<rparr>) (w\<lparr>qnodes := mem\<rparr>))))"
      using False del close by (simp add: pd_tcp_close_def Let_def)
    show ?thesis
    proof (cases "cancel_writes k s w3")
      case None
      then show ?thesis by (simp add: eq run_loop_def)
    next
      case (Some r)
      from cancel_writes_ok [OF Some inv3] have can: "ok_after w3 cl r" "\<And>w'. r = Inr w' \<Longrightarrow> queue_empty (writes (streams w' s))"
        by blast+
      from can(1) show ?thesis
      proof (cases rule: ok_afterE)
        case 1
        then show ?thesis using Some by (simp add: eq run_loop_def)
      next
        case (2 w4 Q4 cl4)
        have ev4: "evolves ?w1 cl w4 cl4" by (rule evolves_trans [OF ev3 2(3)])
        then have closed: "status (streams w4 s) = PD_TCP_CLOSED" "s \<notin> set cl4"
          using s_cl by (auto simp: evolves_def grows_def)
        from push_close [OF 2(2) closed] obtain qu mem where
          push: "queue_push (pending_closes (io w4)) (queue_init_node (qnodes w4) (Close_node s)) (Close_node s) = Inr (qu, mem)"
          and inv5: "tcp_inv None (set_io (\<lambda>c. c\<lparr>pending_closes := qu\<rparr>) (w4\<lparr>qnodes := mem\<rparr>)) Q4 (cl4 @ [s])" .
        let ?w5 = "set_io (\<lambda>c. c\<lparr>pending_closes := qu\<rparr>) (w4\<lparr>qnodes := mem\<rparr>)"
        have "grows w cl w4 cl4" using ev4 grows_trans [OF ev1] by (simp add: evolves_def)
        then have "grows w cl ?w5 (cl4 @ [s])" using False by (auto simp: grows_def)
        moreover have "settled w u \<longrightarrow> settled ?w5 u" for u
          using can(2) [OF 2(1)] ev4 by (cases "u = s") (simp_all add: evolves_def settled_def)
        ultimately have "evolves w cl ?w5 (cl4 @ [s])" by (simp add: evolves_def)
        moreover have "pd_tcp_close k kern s w = Inr ?w5"
          using Some 2(1) push by (simp add: eq run_loop_def)
        ultimately show ?thesis using inv5 by (auto intro: ok_afterI)
      qed
    qed
  qed
qed

lemma pd_tcp_shutdown_ok:
  assumes inv: "tcp_inv None w Q cl"
  shows "ok_after w cl (Inr (pd_tcp_shutdown kern s w))"
proof (cases "status (streams w s) = PD_TCP_ACTIVE")
  case False
  then show ?thesis using ok_afterI [OF inv] by (simp add: pd_tcp_shutdown_def)
next
  case True
  let ?w1 = "set_stream s (\<lambda>t. t\<lparr>status := PD_TCP_SHUTDOWN\<rparr>) w"
  have "attached w s" using tcp_invD(11) [OF inv, of s] True by auto
  then have inv1: "tcp_inv None ?w1 Q cl" using True by (intro set_status_inv [OF inv]) auto
  have ev1: "evolves w cl ?w1 cl" using True by (simp add: evolves_def grows_def settled_def)
  have "same_view ?w1 (pd_tcp_shutdown kern s w)"
    using True flags_view [where w = ?w1 and s = s and g = "\<lambda>f. f OR PD_POLLOUT"]
    by (simp add: pd_tcp_shutdown_def Let_def)
  then show ?thesis
    using ok_afterI [OF tcp_inv_view [OF _ inv1] evolves_trans [OF ev1 evolves_view]] by blast
qed

lemma pause_resume_ok:
  assumes inv: "tcp_inv None w Q cl"
  shows "ok_after w cl (Inr (pd_tcp_pause kern s w))" "ok_after w cl (Inr (pd_tcp_resume kern s w))"
proof -
  have "same_view w (pd_tcp_pause kern s w)" "same_view w (pd_tcp_resume kern s w)"
    by (simp_all add: pd_tcp_pause_def pd_tcp_resume_def Let_def
        flags_view [where g = "\<lambda>f. f AND NOT PD_POLLIN"] flags_view [where g = "\<lambda>f. f OR PD_POLLIN"])
  then show "ok_after w cl (Inr (pd_tcp_pause kern s w))" "ok_after w cl (Inr (pd_tcp_resume kern s w))"
    using ok_afterI [OF tcp_inv_view [OF _ inv] evolves_view] by blast+
qed

lemma pd_tcp_read_ok:
  assumes inv: "tcp_inv None w Q cl"
  shows "ok_after w cl (pd_tcp_read k kern s w)"
proof (cases "on_data (streams w s)")
  case None
  then show ?thesis using ok_afterI [OF inv] by (simp add: pd_tcp_read_def)
next
  case (Some f0)
  define buf where "buf = alloc k (allocator (streams w s)) s (6 * 1024) w"
  define first where "first = (if buf = None
    then call_ptr k (on_data (streams w s)) (\<lambda>f. On_data f s buf (word_of_int PD_ENOMEM)) w else Inr w)"
  define rest where "rest w = bind_res (loop_res (sys_retry kern (Sys_read (fd (streams w s)) (6 * 1024)) w))
    (\<lambda>(nread, w).
      if nread = 0 then
        bind_res (call_ptr k (on_data (streams w s)) (\<lambda>f. On_data f s buf 0) w) (pd_tcp_close k kern s)
      else if nread < 0 then
        (if errno w = EAGAIN \<or> errno w = EWOULDBLOCK
         then call_ptr k (on_data (streams w s)) (\<lambda>f. On_data f s buf 0) w
         else call_ptr k (on_data (streams w s)) (\<lambda>f. On_data f s buf (word_of_int (pd_errno w))) w)
      else call_ptr k (on_data (streams w s)) (\<lambda>f. On_data f s buf (word_of_int nread)) w)" for w
  have eq: "pd_tcp_read k kern s w = bind_res first rest"
    unfolding pd_tcp_read_def first_def rest_def buf_def Let_def
    by (simp only: Some option.distinct if_False)
  have data_cb: "ok_after v d (call_ptr k (on_data (streams v s)) (\<lambda>f. On_data f s buf n) v)"
    if "tcp_inv None v P d" "on_data (streams v s) \<noteq> None" for v P d n
    by (rule other_cb_ok(1) [OF that(1)]) (simp_all add: that(2))
  have rest_ok: "ok_after v d (rest v)"
    if v: "tcp_inv None v P d" "on_data (streams v s) \<noteq> None" for v P d
  proof (cases "sys_retry kern (Sys_read (fd (streams v s)) (6 * 1024)) v")
    case None
    then show ?thesis by (simp add: rest_def)
  next
    case (Some nw)
    then obtain n v1 where read: "sys_retry kern (Sys_read (fd (streams v s)) (6 * 1024)) v = Some (n, v1)"
      by (cases nw) auto
    then have view: "same_view v v1" by (rule sys_retry_view) simp
    have inv1: "tcp_inv None v1 P d" by (rule tcp_inv_view [OF view v(1)])
    have od1: "on_data (streams v1 s) \<noteq> None" using view v(2) by (simp add: same_view_def same_memory_def)
    have ev1: "evolves v d v1 d" by (rule evolves_view [OF view])
    show ?thesis
    proof (cases "n = 0")
      case True
      have "ok_after v1 d (call_ptr k (on_data (streams v1 s)) (\<lambda>f. On_data f s buf 0) v1)"
        by (rule data_cb [OF inv1 od1])
      then show ?thesis
      proof (cases rule: ok_afterE)
        case 1
        then show ?thesis using read True by (simp add: rest_def)
      next
        case (2 v2 P2 d2)
        have "ok_after v d (pd_tcp_close k kern s v2)"
          by (rule ok_after_weaken [OF pd_tcp_close_ok [OF 2(2)] evolves_trans [OF ev1 2(3)]])
        then show ?thesis using read True 2(1) by (simp add: rest_def)
      qed
    next
      case False
      then show ?thesis
        using read data_cb [OF inv1 od1] by (auto simp: rest_def intro: ok_after_weaken [OF _ ev1])
    qed
  qed
  have "ok_after w cl first"
    unfolding first_def using data_cb [OF inv, of "word_of_int PD_ENOMEM"] Some ok_afterI [OF inv evolves_refl] by (cases buf) simp_all
  then show ?thesis
  proof (cases rule: ok_afterE)
    case 1
    then show ?thesis by (simp add: eq)
  next
    case (2 w1 Q1 cl1)
    have "on_data (streams w1 s) \<noteq> None" using 2(3) Some by (simp add: evolves_def grows_def settled_def)
    from rest_ok [OF 2(2) this] show ?thesis by (simp add: eq 2(1) ok_after_weaken [OF _ 2(3)])
  qed
qed

text \<open>Writing the queued operations.\<close>

lemma settled_pop:
  assumes "settled w s" "Q s = a # q" "tcp_inv None w Q cl"
  shows "status (streams w s) \<noteq> PD_TCP_CLOSED"
  using assms queue_rep_empty [OF tcp_invD(1) [OF assms(3), of s]] by (auto simp: settled_def)

definition flush_ok ::
  "'x client_world_scheme \<Rightarrow> sid list \<Rightarrow> sid \<Rightarrow> (bool \<times> 'x client_world_scheme) res \<Rightarrow> bool" where
  "flush_ok w cl s r \<longleftrightarrow>
     (case r of
        Inl e \<Rightarrow> e = Diverged
      | Inr (b, w') \<Rightarrow> ok_after w cl (Inr w'))"

lemma head_step:
  assumes inv: "tcp_inv None w Q cl" and Q: "Q s = a # q" and settled: "settled w s"
    and wr: "wrote (fd (streams w s)) (drop (written (ops w a)) (data (ops w a))) n w w1" and n: "\<not> n < 0"
  defines "w2 \<equiv> set_op a (\<lambda>op. op\<lparr>written := written op + nat n\<rparr>) w1"
  shows "tcp_inv None w2 Q cl" and "evolves w cl w2 cl"
    and "written (ops w2 a) = length (data (ops w2 a)) \<Longrightarrow> progress w2 a = data (ops w2 a)"
proof -
  note D = tcp_invD [OF inv]
  have aQ: "a \<in> set (Q s)" using Q by simp
  have "attached w s" using D(10) [of s] Q by auto
  moreover have "\<not> queue_empty (writes (streams w s))" using queue_rep_empty [OF D(1) [of s]] Q by simp
  ultimately have holds: "holds_fd w s" using sockets_okD(4) [OF D(9)] settled by (auto simp: settled_def)
  have m: "same_memory w w1" using wr by (simp add: wrote_def)
  then have eqs: "ops w1 = ops w" "calls w1 = calls w" "streams w1 s = streams w s \<or> True"
    by (simp_all add: same_memory_def)
  have nd: "\<not> succeeded w a" "\<not> succeeded w2 a"
    using not_succeeded [OF not_done [OF inv], of a s] aQ eqs by (auto simp: succeeded_def w2_def)
  have len: "written (ops w a) + nat n \<le> length (data (ops w a))"
    using wr n D(12) [OF D(3) [OF aQ]] by (auto simp: wrote_def)
  have p: "progress w2 a = progress w a @ take (nat n) (drop (written (ops w a)) (data (ops w a)))"
    using nd eqs by (simp add: progress_def w2_def take_add)
  show "tcp_inv None w2 Q cl"
  proof (rule wire_step [OF inv holds _ _ _ _ wr, where a = a])
    show "w2 = w1\<lparr>ops := (ops w1)(a := (ops w a)\<lparr>written := written (ops w a) + nat n\<rparr>)\<rparr>"
      using eqs by (simp add: w2_def)
    fix b assume "b \<in> set (Q s)"
    then show "a \<le> b" using D(5) [of s] Q by auto
  next
    fix b assume "b < next_op w" "a < b" "owner w b = s"
    then show "progress w b = []" by (rule D(14) [OF aQ])
  qed (use wr n p len D(3,4) [OF aQ] in \<open>auto simp: wrote_def\<close>)
  show "evolves w cl w2 cl" using m by (auto simp: same_memory_def evolves_def grows_def settled_def w2_def)
  show "progress w2 a = data (ops w2 a)" if "written (ops w2 a) = length (data (ops w2 a))"
    using that nd by (simp add: progress_def)
qed

lemma flush_writes_ok:
  assumes "flush_writes k kern s w = Some r" "tcp_inv None w Q cl" "settled w s"
  shows "flush_ok w cl s r"
proof -
  have "k' = k \<longrightarrow> kern' = kern \<longrightarrow> (\<forall>Q cl. tcp_inv None w Q cl \<longrightarrow> settled w s \<longrightarrow> flush_ok w cl s r)"
    if "flush_writes k' kern' s w = Some r" for k' kern'
  proof (rule flush_writes.raw_induct [OF _ that], intro impI allI)
    fix run k' kern' s and w :: "'x client_world_scheme" and r Q cl
    assume IH: "\<And>k' kern' s w r. run k' kern' s w = Some r \<Longrightarrow> k' = k \<longrightarrow> kern' = kern \<longrightarrow>
        (\<forall>Q cl. tcp_inv None w Q cl \<longrightarrow> settled w s \<longrightarrow> flush_ok w cl s r)"
      and k: "k' = k" "kern' = kern" and inv: "tcp_inv None w Q cl" and settled: "settled w s"
    let ?body = "if queue_empty (writes (streams w s)) then Some (Inr (False, w))
      else
        (case queue_peek (writes (streams w s)) of
           Some (Write_node a) \<Rightarrow>
             (let buf = drop (written (ops w a)) (data (ops w a))
              in case sys_retry kern' (Sys_write (fd (streams w s)) buf) w of
                   None \<Rightarrow> Some (Inl Diverged)
                 | Some (n, w) \<Rightarrow>
                     if n < 0 then
                       (if errno w = EAGAIN \<or> errno w = EWOULDBLOCK then Some (Inr (True, w))
                        else
                          Some (bind_res (queue_pop (writes (streams w s)) (qnodes w)) (\<lambda>(_, q, mem).
                            let w = set_stream s (\<lambda>t. t\<lparr>writes := q\<rparr>) (w\<lparr>qnodes := mem\<rparr>)
                            in bind_res (call_ptr k' (cb (ops w a)) (\<lambda>f. Write_cb f a (pd_errno w)) w)
                                 (\<lambda>w. Inr (True, w)))))
                     else
                       let w = set_op a (\<lambda>op. op\<lparr>written := written op + nat n\<rparr>) w
                       in if written (ops w a) = length (data (ops w a)) then
                            (case queue_pop (writes (streams w s)) (qnodes w) of
                               Inl e \<Rightarrow> Some (Inl e)
                             | Inr (_, q, mem) \<Rightarrow>
                                 (let w = set_stream s (\<lambda>t. t\<lparr>writes := q\<rparr>) (w\<lparr>qnodes := mem\<rparr>)
                                  in case call_opt k' (cb (ops w a)) (\<lambda>f. Write_cb f a 0) w of
                                       Inl e \<Rightarrow> Some (Inl e)
                                     | Inr w \<Rightarrow> run k' kern' s w))
                          else run k' kern' s w)
         | _ \<Rightarrow> Some (Inl Null_deref))"
    assume body: "?body = Some r"
    show "flush_ok w cl s r"
    proof (cases "Q s")
      case Nil
      then have "queue_empty (writes (streams w s))"
        using tcp_invD(1) [OF inv, of s] queue_rep_empty by fastforce
      then show ?thesis using body ok_afterI [OF inv evolves_refl] by (auto simp: flush_ok_def)
    next
      case (Cons a q)
      have rep: "queue_rep (writes (streams w s)) (qnodes w) (Write_node a # map Write_node q)"
        using tcp_invD(1) [OF inv, of s] Cons by simp
      then have ne: "\<not> queue_empty (writes (streams w s))" "queue_peek (writes (streams w s)) = Some (Write_node a)"
        using queue_rep_empty [OF rep] queue_rep_peek [OF rep] by simp_all
      define buf where "buf = drop (written (ops w a)) (data (ops w a))"
      show ?thesis
      proof (cases "sys_retry kern (Sys_write (fd (streams w s)) buf) w")
        case None
        then show ?thesis using body ne k by (auto simp: flush_ok_def buf_def)
      next
        case (Some nw)
        then obtain n w1 where wc: "sys_retry kern (Sys_write (fd (streams w s)) buf) w = Some (n, w1)"
          by (cases nw) auto
        have wr: "wrote (fd (streams w s)) buf n w w1" by (rule sys_retry_wrote [OF wc honest])
        have aQ: "a < next_op w" "owner w a = s" "a \<notin> set q"
          using tcp_invD(3,4) [OF inv, of a s] tcp_invD(5) [OF inv, of s] Cons by auto
        show ?thesis
        proof (cases "n < 0")
          case True
          have inv1: "tcp_inv None w1 Q cl" by (rule wrote_failed [OF wr True inv])
          have m: "same_memory w w1" using wr by (simp add: wrote_def)
          have ev1: "evolves w cl w1 cl" by (rule evolves_memory [OF m])
          have open1: "status (streams w1 s) \<noteq> PD_TCP_CLOSED"
            using settled_pop [where Q = Q, OF settled Cons inv] m by (simp add: same_memory_def)
          show ?thesis
          proof (cases "errno w1 = EAGAIN \<or> errno w1 = EWOULDBLOCK")
            case again: True
            then have "r = Inr (True, w1)" using body ne k wc True by (simp add: buf_def)
            then show ?thesis using ok_afterI [OF inv1 ev1] by (simp add: flush_ok_def)
          next
            case False
            from pop_write [OF inv1 Cons] obtain qu mem where
              pop: "queue_pop (writes (streams w1 s)) (qnodes w1) = Inr (Some (Write_node a), qu, mem)"
              and inv2: "tcp_inv (Some a) (set_stream s (\<lambda>t. t\<lparr>writes := qu\<rparr>) (w1\<lparr>qnodes := mem\<rparr>))
                (Q(s := q)) cl" .
            let ?w2 = "set_stream s (\<lambda>t. t\<lparr>writes := qu\<rparr>) (w1\<lparr>qnodes := mem\<rparr>)"
            have a2: "a < next_op ?w2" "owner ?w2 a = s"
              using m aQ by (simp_all add: same_memory_def)
            have e: "pd_errno ?w2 \<noteq> 0" using wr True by (simp add: wrote_def pd_errno_def)
            have ev2: "evolves w cl ?w2 cl" using ev1 open1 by (auto simp: evolves_def grows_def settled_def)
            have "ok_after ?w2 cl (call_ptr k (cb (ops ?w2 a)) (\<lambda>f. Write_cb f a (pd_errno ?w2)) ?w2)"
              by (rule write_cb_ok(1) [OF inv2]) (use a2 aQ(3) e in auto)
            then have ok: "ok_after w cl (call_ptr k (cb (ops ?w2 a)) (\<lambda>f. Write_cb f a (pd_errno ?w2)) ?w2)"
              by (rule ok_after_weaken [OF _ ev2])
            have "r = bind_res (call_ptr k (cb (ops ?w2 a)) (\<lambda>f. Write_cb f a (pd_errno ?w2)) ?w2)
                (\<lambda>w. Inr (True, w))"
              using body ne k wc True False pop by (simp add: buf_def Let_def)
            then show ?thesis using ok
              by (cases "call_ptr k (cb (ops ?w2 a)) (\<lambda>f. Write_cb f a (pd_errno ?w2)) ?w2")
                (simp_all add: flush_ok_def)
          qed
        next
          case False
          let ?w2 = "set_op a (\<lambda>op. op\<lparr>written := written op + nat n\<rparr>) w1"
          note h = head_step [OF inv Cons settled wr [unfolded buf_def] False]
          have a2: "a < next_op ?w2" "owner ?w2 a = s"
            using wr aQ by (simp_all add: wrote_def same_memory_def)
          show ?thesis
          proof (cases "written (ops ?w2 a) = length (data (ops ?w2 a))")
            case notfull: False
            have "run k kern s ?w2 = Some r"
              using body ne k wc False notfull by (simp add: buf_def Let_def)
            then have "flush_ok ?w2 cl s r" using IH h(1) settled h(2) by (auto simp: evolves_def)
            then show ?thesis using ok_after_weaken [OF _ h(2)] by (auto simp: flush_ok_def split: sum.splits)
          next
            case full: True
            from pop_write [OF h(1) Cons] obtain qu mem where
              pop: "queue_pop (writes (streams ?w2 s)) (qnodes ?w2) = Inr (Some (Write_node a), qu, mem)"
              and inv3: "tcp_inv (Some a) (set_stream s (\<lambda>t. t\<lparr>writes := qu\<rparr>) (?w2\<lparr>qnodes := mem\<rparr>))
                (Q(s := q)) cl" .
            let ?w3 = "set_stream s (\<lambda>t. t\<lparr>writes := qu\<rparr>) (?w2\<lparr>qnodes := mem\<rparr>)"
            have "progress ?w3 a = progress ?w2 a" by (simp add: progress_def succeeded_def)
            also have "\<dots> = data (ops ?w2 a)" by (rule h(3) [OF full])
            finally have pr: "progress ?w3 a = data (ops ?w3 a)" by simp
            have "status (streams w1 s) \<noteq> PD_TCP_CLOSED"
              using settled_pop [where Q = Q, OF settled Cons inv] wr by (simp add: wrote_def same_memory_def)
            then have ev3: "evolves w cl ?w3 cl" using h(2) by (auto simp: evolves_def grows_def settled_def)
            have "ok_after ?w3 cl (call_opt k (cb (ops ?w3 a)) (\<lambda>f. Write_cb f a 0) ?w3)"
              by (rule write_cb_ok(2) [OF inv3]) (use a2 aQ(3) pr in auto)
            then show ?thesis
            proof (cases rule: ok_afterE)
              case 1
              then have "r = Inl Diverged"
                using body ne k wc False full pop by (simp add: buf_def Let_def)
              then show ?thesis by (simp add: flush_ok_def)
            next
              case (2 w4 Q4 cl4)
              have "run k kern s w4 = Some r"
                using body ne k wc False full pop 2(1) by (simp add: buf_def Let_def)
              moreover have "settled w4 s" using 2(3) ev3 settled by (simp add: evolves_def)
              ultimately have "flush_ok w4 cl4 s r" using IH 2(2) by blast
              then show ?thesis
                using ok_after_weaken [OF _ evolves_trans [OF ev3 2(3)]]
                by (auto simp: flush_ok_def split: sum.splits)
            qed
          qed
        qed
      qed
    qed
  qed
  then show ?thesis using assms by blast
qed

lemma pd__tcp_write_ok:
  assumes inv: "tcp_inv None w Q cl"
  shows "ok_after w cl (pd__tcp_write k kern s w)"
proof (cases "status (streams w s) = PD_TCP_CLOSED")
  case True
  then show ?thesis using ok_afterI [OF inv] by (simp add: pd__tcp_write_def)
next
  case False
  show ?thesis
  proof (cases "flush_writes k kern s w")
    case None
    then show ?thesis using False by (simp add: pd__tcp_write_def run_loop_def)
  next
    case (Some r)
    have "settled w s" using False by (simp add: settled_def)
    note ok = flush_writes_ok [OF Some inv this]
    show ?thesis
    proof (cases r)
      case (Inl e)
      then show ?thesis using ok False Some by (simp add: pd__tcp_write_def run_loop_def flush_ok_def)
    next
      case (Inr bw)
      then obtain b w1 where bw: "r = Inr (b, w1)" by (cases bw) auto
      then have "ok_after w cl (Inr w1)" using ok by (simp add: flush_ok_def)
      then obtain Q1 cl1 where inv1: "tcp_inv None w1 Q1 cl1" and ev1: "evolves w cl w1 cl1"
        by (auto simp: ok_after_def)
      have ok1: "ok_after w cl (Inr w1)" by (rule ok_afterI [OF inv1 ev1])
      let ?w2 = "set_stream s (\<lambda>t. t\<lparr>event := (event t)\<lparr>flags := flags (event t) AND NOT PD_POLLOUT\<rparr>\<rparr>) w1"
      obtain r3 w3 where set: "pd_event_set kern (Stream_event s) (event (streams ?w2 s)) (fd (streams ?w2 s)) ?w2 = (r3, w3)"
        by fastforce
      have "same_view w1 w3"
        using same_view_trans [OF same_view_update(2) event_set_view]
        by (metis set snd_conv)
      then have view: "same_view w1 w3" "same_view w1 (snd (sys kern (Sys_shutdown_wr f) w3))" for f
        by (simp_all add: same_view_trans [OF _ snd_sys_view])
      have "pd__tcp_write k kern s w = Inr w1 \<or> pd__tcp_write k kern s w = Inr w3 \<or>
          pd__tcp_write k kern s w = Inr (snd (sys kern (Sys_shutdown_wr (fd (streams w3 s))) w3))"
        using False Some bw set by (simp add: pd__tcp_write_def run_loop_def Let_def)
      then show ?thesis
        using ok1 ok_afterI [OF tcp_inv_view [OF view(1) inv1] evolves_trans [OF ev1 evolves_view [OF view(1)]]]
          ok_afterI [OF tcp_inv_view [OF view(2) inv1] evolves_trans [OF ev1 evolves_view [OF view(2)]]]
        by metis
    qed
  qed
qed

lemma pd_tcp_client_io_ok:
  assumes inv: "tcp_inv None w Q cl"
  shows "ok_after w cl (pd_tcp_client_io k kern s ev w)"
proof -
  have "ok_after w cl (if ev AND PD_POLLIN \<noteq> 0 then pd_tcp_read k kern s w else Inr w)"
    using pd_tcp_read_ok [OF inv] ok_afterI [OF inv evolves_refl] by simp
  then show ?thesis
  proof (cases rule: ok_afterE)
    case 1
    then show ?thesis by (simp add: pd_tcp_client_io_def)
  next
    case (2 w1 Q1 cl1)
    have "ok_after w1 cl1 (if ev AND PD_CLOSE \<noteq> 0 then pd_tcp_close k kern s w1
       else if ev AND PD_POLLOUT \<noteq> 0 then pd__tcp_write k kern s w1 else Inr w1)"
      using pd_tcp_close_ok [OF 2(2)] pd__tcp_write_ok [OF 2(2)] ok_afterI [OF 2(2) evolves_refl] by simp
    from ok_after_weaken [OF this 2(3)] show ?thesis by (simp add: pd_tcp_client_io_def 2(1))
  qed
qed

lemma pd_tcp_write_async_ok:
  assumes inv: "tcp_inv (Some a) w Q cl" and a: "Suc a = next_op w" "owner w a = s" "a \<notin> set (Q s)"
  shows "ok_after w cl (pd_tcp_write_async k kern s a w)"
proof (cases "status (streams w s) = PD_TCP_ACTIVE")
  case False
  have "ok_after w cl (call_ptr k (cb (ops w a)) (\<lambda>f. Write_cb f a PD_ECANCELED) w)"
    by (rule write_cb_ok(1) [OF inv]) (use a in \<open>auto simp: PD_ECANCELED_def\<close>)
  then show ?thesis using False by (simp add: pd_tcp_write_async_def)
next
  case True
  have att: "attached w s" using tcp_invD(11) [OF inv, of s] True by auto
  from push_write_inv [OF inv _ a(2,3) _ att] a(1) obtain qu mem where
    push: "queue_push (writes (streams w s)) (queue_init_node (qnodes w) (Write_node a)) (Write_node a) = Inr (qu, mem)"
    and inv1: "tcp_inv None (set_stream s (\<lambda>t. t\<lparr>writes := qu\<rparr>) (w\<lparr>qnodes := mem\<rparr>)) (Q(s := Q s @ [a])) cl"
    by (metis lessI less_Suc_eq_le)
  let ?w1 = "set_stream s (\<lambda>t. t\<lparr>writes := qu\<rparr>) (w\<lparr>qnodes := mem\<rparr>)"
  let ?w2 = "set_stream s (\<lambda>t. t\<lparr>event := (event t)\<lparr>flags := flags (event t) OR PD_POLLOUT\<rparr>\<rparr>) ?w1"
  let ?w3 = "snd (pd_event_set kern (Stream_event s) (event (streams ?w2 s)) (fd (streams ?w2 s)) ?w2)"
  have ev1: "evolves w cl ?w1 cl" using True by (auto simp: evolves_def grows_def settled_def)
  have view: "same_view ?w1 ?w3" by (rule same_view_trans [OF same_view_update(2) event_set_view])
  have "pd_tcp_write_async k kern s a w = Inr ?w1 \<or> pd_tcp_write_async k kern s a w = Inr ?w3"
    using True push by (simp add: pd_tcp_write_async_def Let_def)
  then show ?thesis
    using ok_afterI [OF inv1 ev1]
      ok_afterI [OF tcp_inv_view [OF view inv1] evolves_trans [OF ev1 evolves_view [OF view]]] by metis
qed

lemma pd_tcp_write_ok:
  assumes inv: "tcp_inv (Some a) w Q cl" and a: "Suc a = next_op w" "owner w a = s" "a \<notin> set (Q s)"
    and fresh: "written (ops w a) = 0"
  shows "ok_after w cl (pd_tcp_write k kern s a w)"
proof (cases "status (streams w s) = PD_TCP_ACTIVE \<and> queue_empty (writes (streams w s))")
  case False
  have "ok_after w cl (call_ptr k (cb (ops w a)) (\<lambda>f. Write_cb f a PD_ECANCELED) w)"
    by (rule write_cb_ok(1) [OF inv]) (use a in \<open>auto simp: PD_ECANCELED_def\<close>)
  then show ?thesis using False pd_tcp_write_async_ok [OF inv a] by (auto simp: pd_tcp_write_def)
next
  case True
  have "attached w s" using tcp_invD(11) [OF inv, of s] True by auto
  then have holds: "holds_fd w s" using sockets_okD(4) [OF tcp_invD(9) [OF inv]] True by simp
  have Qs: "Q s = []" using tcp_invD(1) [OF inv, of s] queue_rep_empty True by fastforce
  have a_lt: "a < next_op w" using a(1) by simp
  have nd: "\<not> succeeded w a" using not_succeeded [OF not_done [OF inv]] by blast
  show ?thesis
  proof (cases "sys_retry kern (Sys_write (fd (streams w s)) (data (ops w a))) w")
    case None
    then show ?thesis using True by (simp add: pd_tcp_write_def)
  next
    case (Some nw)
    then obtain n w1 where wc: "sys_retry kern (Sys_write (fd (streams w s)) (data (ops w a))) w = Some (n, w1)"
      by (cases nw) auto
    have wr: "wrote (fd (streams w s)) (data (ops w a)) n w w1" by (rule sys_retry_wrote [OF wc honest])
    then have m: "same_memory w w1" by (simp add: wrote_def)
    then have v: "ops w1 = ops w" "next_op w1 = next_op w" "owner w1 = owner w" "calls w1 = calls w"
      by (simp_all add: same_memory_def)
    have ev1: "evolves w cl w1 cl" using m by (simp add: same_memory_def evolves_def grows_def settled_def)
    show ?thesis
    proof (cases "n < 0")
      case neg: True
      have inv1: "tcp_inv (Some a) w1 Q cl" by (rule wrote_failed [OF wr neg inv])
      have "pd_errno w1 \<noteq> 0" using wr neg by (simp add: wrote_def pd_errno_def)
      then have "ok_after w1 cl (call_ptr k (cb (ops w1 a)) (\<lambda>f. Write_cb f a (pd_errno w1)) w1)"
        by (intro write_cb_ok(1) [OF inv1]) (use a v in auto)
      moreover have "ok_after w1 cl (pd_tcp_write_async k kern s a w1)"
        by (rule pd_tcp_write_async_ok [OF inv1]) (use a v in auto)
      ultimately show ?thesis
        using True wc neg ok_after_weaken [OF _ ev1] by (auto simp: pd_tcp_write_def)
    next
      case pos: False
      let ?x = "(ops w a)\<lparr>written := nat n\<rparr>"
      let ?w2 = "w1\<lparr>ops := (ops w1)(a := ?x)\<rparr>"
      have len: "nat n \<le> length (data (ops w a))" using wr pos by (auto simp: wrote_def)
      have p2: "progress ?w2 a = take (nat n) (data (ops w a))"
        using nd v by (simp add: progress_def succeeded_def)
      have inv2: "tcp_inv (Some a) ?w2 Q cl"
      proof (rule wire_step [OF inv holds a_lt a(2) _ _ wr, where x = ?x])
        fix b assume "b < next_op w" "a < b"
        then show "progress w b = []" using a(1) by simp
      qed (use wr len p2 nd fresh Qs in \<open>auto simp: wrote_def progress_def\<close>)
      have ev2: "evolves w cl ?w2 cl" using ev1 by (simp add: evolves_def grows_def settled_def)
      show ?thesis
      proof (cases "nat n < length (data (ops w a))")
        case True
        have "ok_after ?w2 cl (pd_tcp_write_async k kern s a ?w2)"
          by (rule pd_tcp_write_async_ok [OF inv2]) (use a v in auto)
        then show ?thesis
          using \<open>status _ = _ \<and> _\<close> wc pos True fresh v ok_after_weaken [OF _ ev2]
          by (simp add: pd_tcp_write_def)
      next
        case False
        then have full: "nat n = length (data (ops w a))" using len by simp
        have a2: "a < next_op ?w2" "a \<notin> set (Q (owner ?w2 a))" using a v by simp_all
        obtain f where f: "cb (ops w a) = Some f" using tcp_invD(8) [OF inv a_lt] by blast
        have "progress ?w2 a = data (ops ?w2 a)" using p2 full by simp
        then have inv3: "tcp_inv None (log_call (Write_cb f a 0) ?w2) Q cl"
          by (intro log_done [OF inv2 a2]) simp
        have "tcp_inv None ((log_call (Write_cb f a 0) ?w2)\<lparr>ops := (ops (log_call (Write_cb f a 0) ?w2))
            (a := ops w a)\<rparr>) Q cl"
          by (rule written_after_success [OF inv3]) (use fresh in \<open>auto simp: succeeded_def log_call_def\<close>)
        moreover have "(log_call (Write_cb f a 0) ?w2)\<lparr>ops := (ops (log_call (Write_cb f a 0) ?w2))
            (a := ops w a)\<rparr> = log_call (Write_cb f a 0) w1"
          using v(1) by (simp add: log_call_def fun_upd_idem)
        ultimately have "ok_after w1 cl (call k (Write_cb f a 0) w1)" by (intro call_ok) simp
        then show ?thesis
          using \<open>status _ = _ \<and> _\<close> wc pos False f v ok_after_weaken [OF _ ev1]
          by (simp add: pd_tcp_write_def call_ptr_def)
      qed
    qed
  qed
qed

text \<open>Connections.\<close>

lemma close_ignored_ok:
  assumes inv: "tcp_inv None w Q cl" and f: "spare f w"
  shows "ok_after w cl (bind_res (pd_closesocket kern f w) (\<lambda>(_, w). Inr w))"
proof (cases "pd_closesocket kern f w")
  case (Inl e)
  then show ?thesis using pd_closesocket_ok(1) by simp
next
  case (Inr rw)
  then obtain r w' where c: "pd_closesocket kern f w = Inr (r, w')" by (cases rw) auto
  show ?thesis using c pd_closesocket_ok(2) [OF c inv f] by (auto intro: ok_afterI)
qed

lemma nonblocking_view:
  assumes "pd_set_nonblocking kern f w = (r, w')"
  shows "same_view w w'"
proof -
  obtain g w1 where g: "sys kern (Sys_fcntl_getfl f) w = (g, w1)" by fastforce
  obtain x w2 where x: "sys kern (Sys_fcntl_setfl f (g OR O_NONBLOCK)) w1 = (x, w2)" by fastforce
  have v1: "same_view w w1" by (rule sys_view [OF _ g]) simp
  have "same_view w1 w2" by (rule sys_view [OF _ x]) simp
  from same_view_trans [OF v1 this] v1 show ?thesis
    using assms g x by (auto simp: pd_set_nonblocking_def split: if_splits)
qed

lemma pd_tcp_listener_io_ok:
  assumes inv: "tcp_inv None w Q cl" and "events AND PD_POLLIN \<noteq> 0"
  shows "ok_after w cl (pd_tcp_listener_io k kern v events w)"
proof -
  obtain p w1 where acc: "sys kern (Sys_accept (server_fd (servers w v))) w = (p, w1)" by fastforce
  obtain r w2 where nb: "pd_set_nonblocking kern p w1 = (r, w2)" by fastforce
  have v1: "same_view w w1" by (rule sys_view [OF _ acc]) simp
  note v12 = nonblocking_view [OF nb]
  have v2: "same_view w w2" by (rule same_view_trans [OF v1 v12])
  note i1 = tcp_inv_view [OF v1 inv] and i2 = tcp_inv_view [OF v2 inv] and weaken = ok_after_weaken [OF _ evolves_view [OF v2]]
  have free: "free_fd p w2" if "0 \<le> p"
    by (rule free_fd_view [OF v12 tcp_invD(9) [OF i1] accepted_free [OF honest tcp_invD(9) [OF inv] acc that]])
  have "ok_after w2 cl (call k (On_connection f v p 0) w2)" if "0 \<le> p" for f
    by (rule call_ok [OF log_connection [OF i2 free [OF that]]])
  then show ?thesis
    using assms(2) ok_afterI [OF inv evolves_refl] ok_afterI [OF i1 evolves_view [OF v1]]
      weaken [OF close_ignored_ok [OF i2 free_spare [OF free]]] weaken
    by (simp add: pd_tcp_listener_io_def acc nb split: option.split)
qed

lemma listener_io_polled:
  "tcp_inv None w Q cl \<Longrightarrow> ok_polled (events AND PD_POLLIN = 0) w cl (pd_tcp_listener_io k kern v events w)"
  using pd_tcp_listener_io_ok
  by (cases "events AND PD_POLLIN = 0") (simp_all add: ok_polledI pd_tcp_listener_io_def)

lemma exec_tcp_ok:
  assumes inv: "tcp_inv None w Q cl"
  shows "ok_after w cl (exec_tcp k kern c w)"
proof (cases c)
  case (Write s buf f)
  let ?w = "new_op s buf f w"
  have w: "Suc (next_op w) = next_op ?w" "owner ?w (next_op w) = s" "written (ops ?w (next_op w)) = 0"
    by (simp_all add: new_op_def pd_write_init_def Let_def)
  have ev: "evolves w cl ?w cl" by (simp add: evolves_def grows_def settled_def new_op_def pd_write_init_def Let_def)
  have "ok_after ?w cl (pd_tcp_write k kern s (next_op w) ?w)"
    by (rule pd_tcp_write_ok [OF new_op_inv [OF inv] w(1,2) new_op_unqueued [OF inv] w(3)])
  from ok_after_weaken [OF this ev] Write show ?thesis by simp
next
  case (Timer tc)
  obtain w' where "exec_cmd tc w = Inr w'" "timer_change w w'" using exec_cmd_change [OF tcp_invD(15) [OF inv]] .
  then show ?thesis using Timer ok_afterI [OF timer_change_inv [OF _ inv]] by simp
qed (use pd_tcp_close_ok [OF inv] pd_tcp_shutdown_ok [OF inv] pause_resume_ok [OF inv]
    ok_afterI [OF accept_as_ok [OF inv]] in simp_all)

lemma exec_tcps_ok:
  "tcp_inv None w Q cl \<Longrightarrow> ok_after w cl (exec_tcps k kern cs w)"
proof (induction cs arbitrary: w Q cl)
  case Nil
  then show ?case using ok_afterI [OF Nil evolves_refl] by simp
next
  case (Cons c cs)
  from exec_tcp_ok [OF Cons.prems, of c] show ?case
  proof (cases rule: ok_afterE)
    case (2 w1 Q1 cl1)
    then show ?thesis using ok_after_weaken [OF Cons.IH [OF 2(2)] 2(3)] by simp
  qed simp
qed

lemma pd_tcp_pending_close_ok:
  assumes "pd_tcp_pending_close k w = Some r" "tcp_inv None w Q cl"
  shows "ok_after w cl r"
proof -
  have "k' = k \<longrightarrow> (\<forall>Q cl. tcp_inv None w Q cl \<longrightarrow> ok_after w cl r)"
    if "pd_tcp_pending_close k' w = Some r" for k'
  proof (rule pd_tcp_pending_close.raw_induct [OF _ that], intro impI allI)
    fix run k' and w :: "'x client_world_scheme" and r Q cl
    assume IH: "\<And>k' w r. run k' w = Some r \<Longrightarrow> k' = k \<longrightarrow> (\<forall>Q cl. tcp_inv None w Q cl \<longrightarrow> ok_after w cl r)"
      and body: "(if queue_empty (pending_closes (io w)) then Some (Inr w)
        else case queue_pop (pending_closes (io w)) (qnodes w) of
          Inl x \<Rightarrow> Some (Inl Null_deref)
        | Inr (None, b) \<Rightarrow> Some (Inl Null_deref)
        | Inr (Some (Close_node s), q, mem) \<Rightarrow>
            let w = set_io (\<lambda>c. c\<lparr>pending_closes := q\<rparr>) (w\<lparr>qnodes := mem\<rparr>)
            in (case call_opt k' (on_close (streams w s)) (\<lambda>f. On_close f s) w of
                  Inl e \<Rightarrow> Some (Inl e) | Inr w \<Rightarrow> run k' (dec_refs w))
        | Inr (Some (Write_node x), b) \<Rightarrow> Some (Inl Null_deref)
        | Inr (Some (Task_node x), b) \<Rightarrow> Some (Inl Null_deref)) = Some r"
      and k: "k' = k" and inv: "tcp_inv None w Q cl"
    show "ok_after w cl r"
    proof (cases cl)
      case Nil
      then have "queue_empty (pending_closes (io w))"
        using tcp_invD(2) [OF inv] queue_rep_empty by fastforce
      then show ?thesis using body ok_afterI [OF inv evolves_refl] by auto
    next
      case (Cons s cl0)
      have ne: "\<not> queue_empty (pending_closes (io w))"
        using tcp_invD(2) [OF inv] queue_rep_empty Cons by fastforce
      from pop_close [OF inv [unfolded Cons]] obtain qu mem where
        pop: "queue_pop (pending_closes (io w)) (qnodes w) = Inr (Some (Close_node s), qu, mem)"
        and inv1: "tcp_inv None (set_io (\<lambda>c. c\<lparr>pending_closes := qu\<rparr>) (w\<lparr>qnodes := mem\<rparr>)) Q cl0" .
      let ?w = "set_io (\<lambda>c. c\<lparr>pending_closes := qu\<rparr>) (w\<lparr>qnodes := mem\<rparr>)"
      have ev: "evolves w cl ?w cl0" using Cons by (simp add: evolves_def grows_def settled_def)
      have "ok_after ?w cl0 (call_opt k (on_close (streams ?w s)) (\<lambda>f. On_close f s) ?w)"
        by (rule other_cb_ok(2) [OF inv1]) simp_all
      then show ?thesis
      proof (cases rule: ok_afterE)
        case 1
        then have "r = Inl Diverged" using body ne pop k by (simp add: Let_def)
        then show ?thesis by simp
      next
        case (2 w2 Q2 cl2)
        have "run k (dec_refs w2) = Some r" using body ne pop 2(1) k by (simp add: Let_def)
        then have "ok_after (dec_refs w2) cl2 r"
          using IH tcp_inv_view [OF dec_refs_view 2(2)] by blast
        then show ?thesis
          using ok_after_weaken [OF _ evolves_trans [OF ev evolves_trans [OF 2(3) evolves_view [OF dec_refs_view]]]]
          by blast
      qed
    qed
  qed
  then show ?thesis using assms by blast
qed

text \<open>
  Sessions: what can reach the streams between two reports of the kernel. \<open>Io s ev\<close> is a report for the
  stream \<open>s\<close>, \<open>Conn v ev\<close> one for the listener \<open>v\<close> (of a connection, if \<open>ev\<close> has \<^verbatim>\<open>PD_POLLIN\<close>), \<open>Do c\<close> a command of the client from outside any callback (a timer, say), \<open>Turn\<close> the end of
  a turn of the event loop.
\<close>

end

datatype session_step = Io sid uint32 | Conn nat uint32 | Do tcp_cmd | Turn

fun session ::
  "'x client_world_scheme client \<Rightarrow> kernel \<Rightarrow> session_step list \<Rightarrow> 'x client_world_scheme \<Rightarrow>
    'x client_world_scheme res" where
  "session k kern [] w = Inr w"
| "session k kern (Io s ev # xs) w = bind_res (pd_tcp_client_io k kern s ev w) (session k kern xs)"
| "session k kern (Conn v ev # xs) w = bind_res (pd_tcp_listener_io k kern v ev w) (session k kern xs)"
| "session k kern (Do c # xs) w = bind_res (exec_tcp k kern c w) (session k kern xs)"
| "session k kern (Turn # xs) w = bind_res (run_loop (pd_tcp_pending_close k w)) (session k kern xs)"

definition unpolled_conn :: "session_step list \<Rightarrow> bool" where
  "unpolled_conn xs \<longleftrightarrow> (\<exists>v ev. Conn v ev \<in> set xs \<and> ev AND PD_POLLIN = 0)"

lemma unpolled_conn_Cons: "unpolled_conn (x # xs) \<longleftrightarrow> unpolled_conn [x] \<or> unpolled_conn xs"
  by (auto simp: unpolled_conn_def)

context tcp_callbacks
begin

lemma session_ok: "tcp_inv None w Q cl \<Longrightarrow> ok_polled (unpolled_conn xs) w cl (session k kern xs w)"
proof (induction xs arbitrary: w Q cl)
  case Nil
  then show ?case using ok_afterI [OF Nil evolves_refl] by simp
next
  case (Cons x xs)
  define r where "r = (case x of Io s ev \<Rightarrow> pd_tcp_client_io k kern s ev w
    | Conn v ev \<Rightarrow> pd_tcp_listener_io k kern v ev w | Do c \<Rightarrow> exec_tcp k kern c w | Turn \<Rightarrow> run_loop (pd_tcp_pending_close k w))"
  have eq: "session k kern (x # xs) w = bind_res r (session k kern xs)"
    by (cases x) (simp_all add: r_def)
  have "ok_polled (unpolled_conn [x]) w cl r"
    using ok_polledI [OF pd_tcp_client_io_ok [OF Cons.prems]] listener_io_polled [OF Cons.prems]
      ok_polledI [OF exec_tcp_ok [OF Cons.prems]] pd_tcp_pending_close_ok [OF _ Cons.prems]
    by (auto simp: r_def run_loop_def unpolled_conn_def ok_polledI split: session_step.split option.split)
  then show ?case unfolding eq
    by (rule ok_polled_bind [OF ok_polled_mono]) (use Cons.IH ok_polled_mono unpolled_conn_Cons in blast)+
qed

end

section \<open>Every client program is such a client\<close>

lemma script_callbacks:
  assumes "honest kern"
  shows "tcp_callbacks (script prog al kern n) kern"
proof (induction n)
  case 0
  show ?case by unfold_locales (simp_all add: assms script_def)
next
  case (Suc n)
  show ?case
  proof
    show "honest kern" by (rule assms)
    fix c Q cl and w :: "'a client_world_scheme"
    assume "tcp_inv None (log_call c w) Q cl"
    then have "ok_after (log_call c w) cl (exec_tcps (script prog al kern n) kern (prog c (calls w)) (log_call c w))"
      by (rule tcp_callbacks.exec_tcps_ok [OF Suc])
    moreover have "evolves w cl (log_call c w) cl" by (simp add: evolves_def grows_def settled_def log_call_def)
    ultimately show "ok_after w cl (call (script prog al kern (Suc n)) c w)"
      using ok_after_weaken by (auto simp: script_def)
  qed
qed

text \<open>Every kernel, made honest.\<close>

definition clip :: "kernel \<Rightarrow> kernel" where
  "clip kern h c =
     (case c of
        Sys_write f bs \<Rightarrow> min (kern h c) (int (length bs))
      | Sys_accept l \<Rightarrow> if kern h c \<in> open_fds h then -1 else kern h c
      | Sys_socket \<Rightarrow> if kern h c \<in> open_fds h then -1 else kern h c
      | _ \<Rightarrow> kern h c)"

lemma honest_clip: "honest (clip kern)"
  using open_fds_nonneg [of "-1"] by (auto simp: honest_def clip_def)

lemma clip_honest: "honest kern \<Longrightarrow> clip kern = kern"
  by (intro ext) (auto simp: honest_def clip_def split: syscall.splits)

interpretation programs: tcp_callbacks "script prog al (clip kern) n" "clip kern" for prog al kern n
  by (rule script_callbacks [OF honest_clip])

end
