(* ===== verification/Tcp_Properties.thy ===== *)
theory Tcp_Properties
  imports Tcp_Correct
begin

text \<open>
  What the streams promise a client: every write operation has its callback called exactly once, the
  bytes on the wire are the bytes of the operations in the order they were written, closing cancels what
  is pending in order and schedules the close callback once, and no sequence of reports and commands
  makes the library follow a \<open>NULL\<close> pointer of its own.
\<close>

section \<open>The start of a session, and sample states\<close>

definition session_start :: "'x client_world_scheme \<Rightarrow> bool" where
  "session_start w \<longleftrightarrow>
     (\<forall>s. queue_empty (writes (streams w s))) \<and> queue_empty (pending_closes (io w)) \<and>
     next_op w = 0 \<and> calls w = [] \<and> sockets_ok w \<and> (\<forall>s. wire s w = []) \<and>
     (\<forall>s. \<not> attached w s \<longrightarrow> status (streams w s) \<in> {PD_TCP_NONE, PD_TCP_CLOSED}) \<and> timers_ok w"

lemma session_start_inv: "session_start w \<Longrightarrow> tcp_inv None w (\<lambda>_. []) []"
  unfolding session_start_def
  by (intro tcp_invI) (auto simp: queue_rep_def queue_empty_def done_ops_def ops_of_def List.map_filter_def)

definition sample_stream :: "int \<Rightarrow> pd_tcp_status \<Rightarrow> qnode queue \<Rightarrow> pd_tcp" where
  "sample_stream f st q = \<lparr>fd = f, writes = q, event = \<lparr>flags = 0, handler = Some Tcp_client_io\<rparr>, allocator = 0,
     on_data = Some 1, on_close = Some 2, on_connect = None, status = st, stream_flags = 0, writes_size = 0\<rparr>"

abbreviation nilq :: "qnode queue" where
  "nilq \<equiv> \<lparr>q_head = None, q_tail = None\<rparr>"

text \<open>A listener on socket 4 and one connection, on socket 7, nothing written yet; and the same with one write pending.\<close>

definition sample_net :: client_world where
  "sample_net =
     \<lparr>io = \<lparr>poll_fd = 3, now = 0, refs = 2, timers = \<lparr>root = None, heap_size = 0, comparator = pd_timers_comparator\<rparr>,
        pending_closes = nilq, finished_tasks = nilq, task_signal = None, after_tick = None, task_signaled = False\<rparr>,
      tmem = (\<lambda>_. \<lparr>timeout = 0, interval = 0, active = False, user_data = 0, on_timeout = None\<rparr>),
      hnodes = (\<lambda>_. \<lparr>left = None, right = None, parent = None\<rparr>),
      qnodes = (\<lambda>_. \<lparr>qnext = None, qprev = None\<rparr>),
      streams = (\<lambda>s. if s = 1 then sample_stream 7 PD_TCP_ACTIVE nilq else sample_stream (-1) PD_TCP_NONE nilq),
      servers = (\<lambda>_. \<lparr>server_fd = 4, on_connection = Some 8, server_status = PD_TCP_ACTIVE,
        server_event = \<lparr>flags = 0, handler = Some Tcp_listener_io\<rparr>\<rparr>),
      notifiers = (\<lambda>_. \<lparr>notifier_fd = -1, notifier_send_fd = -1, notifier_handler = None,
        notifier_event = \<lparr>flags = 0, handler = None\<rparr>\<rparr>),
      ops = (\<lambda>_. \<lparr>data = [], written = 0, cb = None\<rparr>),
      hist = [(Sys_accept 4, 7), (Sys_epoll_ctl 3 Epoll_add 7 (Some (0, Stream_event 1)), 0)], errno = 0,
      next_op = 0, owner = (\<lambda>_. 0), calls = [], offered = [], attached_at = (\<lambda>_. 1)\<rparr>"

lemma sample_net_timers: "timers_ok sample_net"
  by (rule timers_ok_empty) (simp_all add: sample_net_def)

lemma sample_attached: "attached sample_net s \<longleftrightarrow> s = 1"
  by (simp add: attached_def sample_net_def sample_stream_def)

lemma sample_holds: "holds_fd sample_net s \<longleftrightarrow> s = 1"
  unfolding holds_fd_def sample_attached by (auto simp: closes_def sample_net_def)

lemma sample_sockets: "sockets_ok sample_net"
  by (rule sockets_okI, unfold sample_holds sample_attached)
    (auto simp: registered_def open_fds_def sample_net_def sample_stream_def)

lemma sample_wire: "wire s sample_net = []"
  by (simp add: wire_def sample_attached) (simp add: sent_in_def closes_def sample_net_def)

lemma sample_start: "session_start sample_net"
  using sample_net_timers sample_sockets sample_wire sample_attached
  by (auto simp: session_start_def) (simp_all add: sample_net_def sample_stream_def queue_empty_def)

definition pending_net :: client_world where
  "pending_net = sample_net
     \<lparr>streams := (streams sample_net)(1 := sample_stream 7 PD_TCP_ACTIVE
        \<lparr>q_head = Some (Write_node 0), q_tail = Some (Write_node 0)\<rparr>),
      ops := (\<lambda>_. \<lparr>data = [72, 105], written = 0, cb = Some 9\<rparr>), next_op := 1, owner := (\<lambda>_. 1)\<rparr>"

lemma pending_inv: "tcp_inv None pending_net (\<lambda>s. if s = 1 then [0] else []) []"
proof (rule tcp_invI)
  have f: "next_op pending_net = 1" "owner pending_net = (\<lambda>_. 1)" "calls pending_net = []"
    "\<And>a. written (ops pending_net a) = 0" "\<And>a. cb (ops pending_net a) = Some 9"
    "\<And>s. s \<noteq> 1 \<Longrightarrow> status (streams pending_net s) = PD_TCP_NONE"
    by (simp_all add: pending_net_def sample_net_def sample_stream_def)
  note [simp] = f
  show "timers_ok pending_net" by (rule timers_ok_empty) (simp_all add: pending_net_def sample_net_def)
  fix s
  show "queue_rep (writes (streams pending_net s)) (qnodes pending_net)
      (map Write_node (if s = 1 then [0] else []))"
    by (simp add: pending_net_def sample_net_def sample_stream_def queue_rep_def pos_def)
  show "queue_rep (pending_closes (io pending_net)) (qnodes pending_net) (map Close_node [])"
    by (simp add: pending_net_def sample_net_def queue_rep_def)
  fix a
  show "count_list (done_ops pending_net) a = (if a < next_op pending_net \<and>
      a \<notin> set (if owner pending_net a = 1 then [0] else []) \<and> None \<noteq> Some a then 1 else 0)"
    by (auto simp: done_ops_def List.map_filter_def)
  have "wire s pending_net = wire s sample_net"
    by (rule wire_cong) (simp_all add: pending_net_def sample_net_def sample_stream_def)
  then show "wire s pending_net = concat (map (progress pending_net) (ops_of pending_net s))"
    by (simp add: sample_wire progress_def succeeded_def)
  show "sockets_ok pending_net"
    by (rule sockets_cong [OF _ _ _ _ _ _ sample_sockets])
      (auto simp: pending_net_def sample_net_def sample_stream_def split: if_splits)
qed (auto simp: attached_def progress_def succeeded_def pending_net_def sample_net_def sample_stream_def gr0_conv_Suc
    split: if_splits)

definition sample_kernel :: kernel where
  "sample_kernel = clip (\<lambda>h c. case c of Sys_write f bs \<Rightarrow> 1 | Sys_accept l \<Rightarrow> 8 | _ \<Rightarrow> 0)"

lemma honest_sample: "honest sample_kernel"
  by (simp add: sample_kernel_def honest_clip)

text \<open>
  A session on it: a write of two bytes of which the kernel takes one; a connection, which the client accepts and
  answers; a report that the socket is writable, in which the rest goes out and the callback writes again; and the end
  of the turn.
\<close>

fun sample_reaction :: reaction where
  "sample_reaction (On_connection f v p st) cs = [Accept 2 1 2, Write 2 [7] 6]"
| "sample_reaction (Write_cb f a st) cs = (if f = 4 then [Write 1 [1, 2] 5] else if f = 5 then [Close 1] else [])"
| "sample_reaction _ cs = []"

definition sample_session :: "client_world res" where
  "sample_session = session (script sample_reaction (\<lambda>_ _ _ _. Some 0) sample_kernel 5) sample_kernel
     [Do (Write 1 [72, 105] 4), Conn 0 PD_POLLIN, Io 1 PD_POLLOUT, Turn] sample_net"

lemmas [code] = sys_retry.simps cancel_writes.simps flush_writes.simps pd_tcp_pending_close.simps

fun sample_result :: "client_world res \<Rightarrow> bool" where
  "sample_result (Inr w) \<longleftrightarrow> wire 1 w = [72, 105, 1, 2] \<and> wire 2 w = [7]"
| "sample_result (Inl e) \<longleftrightarrow> False"

lemma sample_returns:
  obtains w' where "sample_session = Inr w'" "wire 1 w' = [72, 105, 1, 2]" "wire 2 w' = [7]"
proof -
  have "sample_result sample_session" by code_simp
  then obtain w' where w': "sample_session = Inr w'" "sample_result (Inr w')" by (metis sample_result.simps(2) sum.exhaust)
  from w'(2) show thesis by (intro that [OF w'(1)]) simp_all
qed

section \<open>Properties\<close>

lemma session_result:
  assumes "honest kern" "session_start w"
  shows "ok_polled (unpolled_conn xs) w [] (session (script prog al kern n) kern xs w)"
  using programs.session_ok [OF session_start_inv [OF assms(2)], of xs prog al kern n]
  by (simp add: clip_honest [OF assms(1)])

text \<open>
  C16. Exactly one callback per write: after any session - any reports, connections, commands, kernel results
  and client program, callbacks that write, close and accept included - each write operation either has had
  its callback called exactly once and is in no queue, or has not had it called and is queued on
  the stream it was written to.
\<close>

theorem write_callback_exactly_once:
  assumes "honest kern" "session_start w"
    and "session (script prog al kern n) kern xs w = Inr w'"
  shows "\<exists>Q. (\<forall>s. queue_rep (writes (streams w' s)) (qnodes w') (map Write_node (Q s))) \<and>
    (\<forall>s. \<forall>a \<in> set (Q s). a < next_op w' \<and> owner w' a = s) \<and>
    (\<forall>a < next_op w'. count_list (done_ops w') a = (if a \<in> set (Q (owner w' a)) then 0 else 1))"
proof -
  obtain Q cl where "tcp_inv None w' Q cl"
    using session_result [OF assms(1,2), of xs prog al n] assms(3) by (auto simp: ok_after_def)
  note D = tcp_invD [OF this]
  have "\<forall>a < next_op w'. count_list (done_ops w') a = (if a \<in> set (Q (owner w' a)) then 0 else 1)"
    using D(7) by simp
  with D(1,3,4) show ?thesis by blast
qed

theorem write_callback_exactly_once_witness:
  "\<exists>w' Q. sample_session = Inr w' \<and>
    (\<forall>s. queue_rep (writes (streams w' s)) (qnodes w') (map Write_node (Q s))) \<and>
    (\<forall>s. \<forall>a \<in> set (Q s). a < next_op w' \<and> owner w' a = s) \<and>
    (\<forall>a < next_op w'. count_list (done_ops w') a = (if a \<in> set (Q (owner w' a)) then 0 else 1))"
proof -
  obtain w' where w': "sample_session = Inr w'" "wire 1 w' = [72, 105, 1, 2]" "wire 2 w' = [7]" by (rule sample_returns)
  show ?thesis
    using write_callback_exactly_once [OF honest_sample sample_start w'(1) [unfolded sample_session_def]] w'
    by blast
qed

text \<open>
  C17. The order of the bytes: after any session, what the kernel has taken on the socket of a stream, from the
  call that attached the stream to the first that closes its descriptor, is the concatenation, in the order of the
  write calls on this stream, of a prefix of each operation's buffer; the prefix is the whole buffer for every
  operation whose callback reported success, and it is empty for every operation behind one that is still queued.
  Streams may be attached and closed during the session, and descriptors used again.
\<close>

theorem wire_in_write_order:
  assumes "honest kern" "session_start w"
    and "session (script prog al kern n) kern xs w = Inr w'"
  shows "\<exists>part n. wire s w' = concat (map part (ops_of w' s)) \<and>
    (\<forall>a. part a = take (n a) (data (ops w' a))) \<and>
    (\<forall>a f. Write_cb f a 0 \<in> set (calls w') \<longrightarrow> part a = data (ops w' a)) \<and>
    (\<exists>qs. queue_rep (writes (streams w' s)) (qnodes w') (map Write_node qs) \<and>
      (\<forall>a \<in> set qs. \<forall>b \<in> set (ops_of w' s). a < b \<longrightarrow> part b = []))"
proof -
  obtain Q cl where "tcp_inv None w' Q cl"
    using session_result [OF assms(1,2), of xs prog al n] assms(3) by (auto simp: ok_after_def)
  note D = tcp_invD [OF this]
  let ?n = "\<lambda>a. if succeeded w' a then length (data (ops w' a)) else written (ops w' a)"
  have "wire s w' = concat (map (progress w') (ops_of w' s))" by (rule D(13))
  moreover have "\<forall>a. progress w' a = take (?n a) (data (ops w' a))" by (simp add: progress_def)
  moreover have "\<forall>a f. Write_cb f a 0 \<in> set (calls w') \<longrightarrow> progress w' a = data (ops w' a)"
    by (auto simp: progress_def succeeded_def)
  moreover have "\<forall>a \<in> set (Q s). \<forall>b \<in> set (ops_of w' s). a < b \<longrightarrow> progress w' b = []"
    using D(14) by auto
  ultimately show ?thesis using D(1) [of s] by (intro exI [of _ "progress w'"] exI [of _ ?n]) blast
qed

theorem wire_in_write_order_witness:
  "\<exists>w' part n. sample_session = Inr w' \<and>
    wire 2 w' = [7] \<and> wire 1 w' = [72, 105, 1, 2] \<and> wire 1 w' = concat (map part (ops_of w' 1)) \<and>
    (\<forall>a. part a = take (n a) (data (ops w' a))) \<and>
    (\<forall>a f. Write_cb f a 0 \<in> set (calls w') \<longrightarrow> part a = data (ops w' a)) \<and>
    (\<exists>qs. queue_rep (writes (streams w' 1)) (qnodes w') (map Write_node qs) \<and>
      (\<forall>a \<in> set qs. \<forall>b \<in> set (ops_of w' 1). a < b \<longrightarrow> part b = []))"
proof -
  obtain w' where w': "sample_session = Inr w'" "wire 1 w' = [72, 105, 1, 2]" "wire 2 w' = [7]" by (rule sample_returns)
  show ?thesis
    using wire_in_write_order [OF honest_sample sample_start w'(1) [unfolded sample_session_def], of 1] w'
    by blast
qed


text \<open>The assertion can fail: a report of the listener with \<^verbatim>\<open>EPOLLERR\<close> alone.\<close>

lemma listener_assertion_fails:
  "session (script prog al kern n) kern [Conn v (epoll_pevents EPOLLERR)] w = Inl Assert_failed"
proof -
  have "epoll_pevents EPOLLERR AND PD_POLLIN = 0" by code_simp
  then show ?thesis by (simp add: pd_tcp_listener_io_def)
qed


section \<open>Closing, with a client that only listens\<close>

abbreviation listener :: "'x client_world_scheme allocators \<Rightarrow> kernel \<Rightarrow> 'x client_world_scheme client" where
  "listener al kern \<equiv> script (\<lambda>_ _. []) al kern (Suc 0)"

lemma listener_call [simp]: "call (listener al kern) c w = Inr (log_call c w)"
  by (simp add: script_def)

definition canceled :: "'x client_world_scheme \<Rightarrow> wid \<Rightarrow> call" where
  "canceled w a = Write_cb (the (cb (ops w a))) a PD_ECANCELED"

lemma cancel_writes_listener:
  assumes "tcp_inv None w Q cl" "Q s = q"
  shows "\<exists>w'. cancel_writes (listener al kern) s w = Some (Inr w') \<and> tcp_inv None w' (Q(s := [])) cl \<and>
    calls w' = calls w @ map (canceled w) q \<and>
    status (streams w' s) = status (streams w s) \<and> ops w' = ops w"
  using assms
proof (induction q arbitrary: w Q)
  case Nil
  then have "queue_empty (writes (streams w s))"
    using tcp_invD(1) [OF Nil(1), of s] queue_rep_empty by fastforce
  moreover have "Q(s := []) = Q" using Nil by auto
  ultimately show ?case using Nil by (auto simp: cancel_writes.simps)
next
  case (Cons a q)
  note inv = Cons.prems(1) and Q = Cons.prems(2)
  have ne: "\<not> queue_empty (writes (streams w s))"
    using tcp_invD(1) [OF inv, of s] queue_rep_empty Q by fastforce
  from pop_write [OF inv Q] obtain qu mem where
    pop: "queue_pop (writes (streams w s)) (qnodes w) = Inr (Some (Write_node a), qu, mem)"
    and inv1: "tcp_inv (Some a) (set_stream s (\<lambda>t. t\<lparr>writes := qu\<rparr>) (w\<lparr>qnodes := mem\<rparr>)) (Q(s := q)) cl" .
  let ?w1 = "set_stream s (\<lambda>t. t\<lparr>writes := qu\<rparr>) (w\<lparr>qnodes := mem\<rparr>)"
  have a: "a < next_op w" "owner w a = s" "a \<notin> set q"
    using tcp_invD(3,4) [OF inv, of a s] tcp_invD(5) [OF inv, of s] Q by auto
  obtain f where f: "cb (ops w a) = Some f" using tcp_invD(8) [OF inv a(1)] by blast
  let ?w2 = "log_call (Write_cb f a PD_ECANCELED) ?w1"
  have inv2: "tcp_inv None ?w2 (Q(s := q)) cl"
    by (rule log_done [OF inv1]) (use a in \<open>auto simp: PD_ECANCELED_def\<close>)
  obtain w' where w': "cancel_writes (listener al kern) s ?w2 = Some (Inr w')"
    "tcp_inv None w' ((Q(s := q))(s := [])) cl" "calls w' = calls ?w2 @ map (canceled ?w2) q"
    "status (streams w' s) = status (streams ?w2 s)" "ops w' = ops ?w2"
    using Cons.IH [OF inv2 fun_upd_same] by blast
  have "cancel_writes (listener al kern) s w = Some (Inr w')"
    using ne pop f w'(1) by (subst cancel_writes.simps) (simp add: call_ptr_def Let_def)
  moreover have "calls w' = calls w @ map (canceled w) (a # q)"
    using w'(3) f by (simp add: log_call_def canceled_def)
  moreover have "tcp_inv None w' (Q(s := [])) cl" using w'(2) by (simp only: fun_upd_upd)
  moreover have "status (streams w' s) = status (streams w s)" "ops w' = ops w"
    using w'(4,5) by (simp_all add: log_call_def)
  ultimately show ?case by blast
qed

lemma sys_retry_close:
  assumes "\<And>h. kern h c \<noteq> - EINTR"
  shows "sys_retry kern c w = Some (sys kern c w)"
  using assms [of "hist w"] by (auto simp: sys_retry.simps sys_def Let_def EINTR_def)

text \<open>
  C19. Closing a stream that is not closed: its status is \<open>PD_TCP_CLOSED\<close>, every pending write has been
  canceled with \<^verbatim>\<open>PD_ECANCELED\<close>, in the order of the writes and each once, nothing is pending any more,
  its close callback is scheduled once, behind those already scheduled, and closing it again changes
  nothing.
\<close>

theorem close_cancels_in_order:
  assumes "honest kern" "tcp_inv None w Q cl" "status (streams w s) \<noteq> PD_TCP_CLOSED"
    and "\<And>h f. kern h (Sys_close f) \<noteq> - EINTR"
  shows "\<exists>w'. pd_tcp_close (listener al kern) kern s w = Inr w' \<and>
    status (streams w' s) = PD_TCP_CLOSED \<and> calls w' = calls w @ map (canceled w) (Q s) \<and>
    tcp_inv None w' (Q(s := [])) (cl @ [s]) \<and> pd_tcp_close (listener al kern) kern s w' = Inr w'"
proof -
  let ?w1 = "set_stream s (\<lambda>t. t\<lparr>status := PD_TCP_CLOSED\<rparr>) w"
  have inv1: "tcp_inv None ?w1 Q cl" by (rule set_status_inv [OF assms(2)]) simp
  obtain r2 w2 where del: "pd_event_del kern (fd (streams ?w1 s)) ?w1 = (r2, w2)" by fastforce
  then have v2: "same_view ?w1 w2" unfolding pd_event_del_def by (rule sys_view [rotated]) simp
  then have fd2: "fd (streams w2 s) = fd (streams w s)" by (simp add: same_view_def same_memory_def)
  have spare: "spare (fd (streams w2 s)) w2"
    unfolding fd2 by (rule spare_memory [OF v2 tcp_invD(9) [OF inv1] closing_spare [OF tcp_invD(9) [OF assms(2)] assms(3)]])
  obtain r3 w3 where close: "pd_closesocket kern (fd (streams w2 s)) w2 = Inr (r3, w3)"
    using sys_retry_close [of kern "Sys_close (fd (streams w2 s))" w2, OF assms(4)]
    by (cases "sys kern (Sys_close (fd (streams w2 s))) w2") (simp add: pd_closesocket_def)
  then have "sys_retry kern (Sys_close (fd (streams w2 s))) w2 = Some (r3, w3)"
    by (simp add: pd_closesocket_def loop_res_def split: option.splits)
  note c3 = closed_inv [OF this tcp_inv_view [OF v2 inv1] spare]
  have inv3: "tcp_inv None w3 Q cl" by (rule c3(1))
  have w3: "status (streams w3 s) = PD_TCP_CLOSED" "calls w3 = calls w" "ops w3 = ops w"
    using v2 c3(3) by (simp_all add: same_view_def same_memory_def)
  obtain w4 where w4: "cancel_writes (listener al kern) s w3 = Some (Inr w4)"
    "tcp_inv None w4 (Q(s := [])) cl" "calls w4 = calls w3 @ map (canceled w3) (Q s)"
    "status (streams w4 s) = status (streams w3 s)"
    using cancel_writes_listener [OF inv3 refl] by blast
  have s_cl: "s \<notin> set cl" using tcp_invD(6) [OF assms(2)] assms(3) by blast
  have closed4: "status (streams w4 s) = PD_TCP_CLOSED" using w4(4) w3(1) by simp
  from push_close [OF w4(2) closed4 s_cl] obtain qu mem where
    push: "queue_push (pending_closes (io w4)) (queue_init_node (qnodes w4) (Close_node s)) (Close_node s) = Inr (qu, mem)"
    and inv5: "tcp_inv None (set_io (\<lambda>c. c\<lparr>pending_closes := qu\<rparr>) (w4\<lparr>qnodes := mem\<rparr>)) (Q(s := [])) (cl @ [s])" .
  let ?w5 = "set_io (\<lambda>c. c\<lparr>pending_closes := qu\<rparr>) (w4\<lparr>qnodes := mem\<rparr>)"
  have "pd_tcp_close (listener al kern) kern s w = Inr ?w5"
    using assms(3) del close w4(1) push by (simp add: pd_tcp_close_def Let_def run_loop_def)
  moreover have "calls ?w5 = calls w @ map (canceled w) (Q s)"
    using w4(3) w3 by (simp add: canceled_def [abs_def])
  moreover have "pd_tcp_close (listener al kern) kern s ?w5 = Inr ?w5"
    using closed4 by (simp add: pd_tcp_close_def)
  ultimately show ?thesis using inv5 closed4 by (intro exI [of _ ?w5]) simp
qed

theorem close_cancels_in_order_witness:
  "\<exists>w'. pd_tcp_close (listener (\<lambda>_ _ _ _. None) sample_kernel) sample_kernel 1 pending_net = Inr w' \<and>
    status (streams w' 1) = PD_TCP_CLOSED \<and> calls w' = [Write_cb 9 0 PD_ECANCELED]"
proof -
  have "\<And>h f. sample_kernel h (Sys_close f) \<noteq> - EINTR" by (simp add: sample_kernel_def clip_def EINTR_def)
  moreover have "status (streams pending_net 1) \<noteq> PD_TCP_CLOSED"
    by (simp add: pending_net_def sample_stream_def)
  moreover have "calls pending_net = []" "map (canceled pending_net) [0] = [Write_cb 9 0 PD_ECANCELED]"
    by (simp_all add: pending_net_def sample_net_def canceled_def)
  ultimately show ?thesis
    using close_cancels_in_order [OF honest_sample pending_inv, of 1 "\<lambda>_ _ _ _. None"] by auto
qed

text \<open>
  C20. The end of a turn: the close callback of every scheduled stream that has one is called, once and in
  the order of the closes, one reference is given back per stream, and nothing stays scheduled.
\<close>

theorem pending_closes_drained:
  assumes "tcp_inv None w Q cl"
  shows "\<exists>w'. pd_tcp_pending_close (listener al kern) w = Some (Inr w') \<and>
    calls w' = calls w @ List.map_filter (\<lambda>s. map_option (\<lambda>f. On_close f s) (on_close (streams w s))) cl \<and>
    refs (io w') = refs (io w) - of_nat (length cl) \<and> tcp_inv None w' Q []"
  using assms
proof (induction cl arbitrary: w)
  case Nil
  then have "queue_empty (pending_closes (io w))" using tcp_invD(2) [OF Nil] queue_rep_empty by fastforce
  then show ?case using Nil by (simp add: pd_tcp_pending_close.simps List.map_filter_def)
next
  case (Cons s cl)
  have ne: "\<not> queue_empty (pending_closes (io w))"
    using tcp_invD(2) [OF Cons.prems] queue_rep_empty by fastforce
  from pop_close [OF Cons.prems] obtain qu mem where
    pop: "queue_pop (pending_closes (io w)) (qnodes w) = Inr (Some (Close_node s), qu, mem)"
    and inv1: "tcp_inv None (set_io (\<lambda>c. c\<lparr>pending_closes := qu\<rparr>) (w\<lparr>qnodes := mem\<rparr>)) Q cl" .
  let ?w1 = "set_io (\<lambda>c. c\<lparr>pending_closes := qu\<rparr>) (w\<lparr>qnodes := mem\<rparr>)"
  let ?w2 = "case on_close (streams w s) of None \<Rightarrow> ?w1 | Some f \<Rightarrow> log_call (On_close f s) ?w1"
  have "tcp_inv None ?w2 Q cl" using inv1 log_other [OF inv1] by (simp split: option.split)
  then have inv3: "tcp_inv None (dec_refs ?w2) Q cl" by (rule tcp_inv_view [OF dec_refs_view])
  obtain w' where w': "pd_tcp_pending_close (listener al kern) (dec_refs ?w2) = Some (Inr w')"
    "calls w' = calls (dec_refs ?w2) @ List.map_filter
      (\<lambda>s. map_option (\<lambda>f. On_close f s) (on_close (streams (dec_refs ?w2) s))) cl"
    "refs (io w') = refs (io (dec_refs ?w2)) - of_nat (length cl)" "tcp_inv None w' Q []"
    using Cons.IH [OF inv3] by blast
  have s2: "streams (dec_refs ?w2) = streams w" "refs (io (dec_refs ?w2)) = refs (io w) - 1"
    by (simp_all add: dec_refs_def log_call_def split: option.split)
  have "pd_tcp_pending_close (listener al kern) w = Some (Inr w')"
    using ne pop w'(1) by (subst pd_tcp_pending_close.simps)
      (simp add: call_opt_def Let_def split: option.splits)
  moreover have "calls w' = calls w @ List.map_filter
      (\<lambda>s. map_option (\<lambda>f. On_close f s) (on_close (streams w s))) (s # cl)"
    using w'(2) unfolding s2(1)
    by (simp add: List.map_filter_def dec_refs_def log_call_def split: option.split)
  moreover have "refs (io w') = refs (io w) - of_nat (length (s # cl))" using w'(3) s2(2) by simp
  ultimately show ?case using w'(4) by blast
qed

text \<open>The connection of \<open>pending_net\<close> closed and scheduled, its write still in its queue.\<close>

definition closing_net :: client_world where
  "closing_net = (let w = set_stream 1 (\<lambda>t. t\<lparr>status := PD_TCP_CLOSED\<rparr>) pending_net in
     case queue_push (pending_closes (io w)) (queue_init_node (qnodes w) (Close_node 1)) (Close_node 1) of
       Inr (qu, mem) \<Rightarrow> set_io (\<lambda>c. c\<lparr>pending_closes := qu\<rparr>) (w\<lparr>qnodes := mem\<rparr>) | Inl e \<Rightarrow> w)"

lemma closing_inv: "tcp_inv None closing_net (\<lambda>s. if s = 1 then [0] else []) [1]"
proof -
  let ?w = "set_stream 1 (\<lambda>t. t\<lparr>status := PD_TCP_CLOSED\<rparr>) pending_net"
  have inv: "tcp_inv None ?w (\<lambda>s. if s = 1 then [0] else []) []"
    by (rule set_status_inv [OF pending_inv]) auto
  have "status (streams ?w 1) = PD_TCP_CLOSED" by simp
  then obtain qu mem where
    push: "queue_push (pending_closes (io ?w)) (queue_init_node (qnodes ?w) (Close_node 1)) (Close_node 1) = Inr (qu, mem)"
    and inv': "tcp_inv None (set_io (\<lambda>c. c\<lparr>pending_closes := qu\<rparr>) (?w\<lparr>qnodes := mem\<rparr>))
       (\<lambda>s. if s = 1 then [0] else []) ([] @ [1])"
    by (rule push_close [OF inv]) simp
  have "closing_net = set_io (\<lambda>c. c\<lparr>pending_closes := qu\<rparr>) (?w\<lparr>qnodes := mem\<rparr>)"
    unfolding closing_net_def Let_def push by (simp only: sum.case prod.case)
  with inv' show ?thesis by (simp only: append_Nil)
qed

theorem pending_closes_drained_witness:
  "\<exists>w'. pd_tcp_pending_close (listener (\<lambda>_ _ _ _. None) sample_kernel) closing_net = Some (Inr w') \<and>
    calls w' = calls closing_net @ List.map_filter
      (\<lambda>s. map_option (\<lambda>f. On_close f s) (on_close (streams closing_net s))) [1] \<and>
    refs (io w') = refs (io closing_net) - of_nat (length [1 :: nat]) \<and>
    tcp_inv None w' (\<lambda>s. if s = 1 then [0] else []) []"
  by (rule pending_closes_drained [OF closing_inv])

text \<open>
  A write without a callback: closing the stream while such a write is pending calls through the
  \<open>NULL\<close> pointer - unlike the loop that writes, the one that cancels does not test it.
\<close>

theorem close_calls_null_callback:
  assumes "tcp_inv None w Q cl" "Q s = a # q" "cb x = None"
  shows "cancel_writes k s (w\<lparr>ops := (ops w)(a := x)\<rparr>) = Some (Inl Null_deref)"
proof -
  have ne: "\<not> queue_empty (writes (streams w s))"
    using tcp_invD(1) [OF assms(1), of s] queue_rep_empty assms(2) by fastforce
  from pop_write [OF assms(1,2)] obtain qu mem where
    "queue_pop (writes (streams w s)) (qnodes w) = Inr (Some (Write_node a), qu, mem)" .
  with ne assms(3) show ?thesis by (subst cancel_writes.simps) (simp add: call_ptr_def Let_def)
qed

theorem close_calls_null_callback_witness:
  "cancel_writes (listener (\<lambda>_ _ _ _. None) sample_kernel) 1
      (pending_net\<lparr>ops := (ops pending_net)(0 := \<lparr>data = [1], written = 0, cb = None\<rparr>)\<rparr>) =
    Some (Inl Null_deref)"
  by (rule close_calls_null_callback [OF pending_inv]) simp_all

end
