(* ===== verification/Threadpool.thy ===== *)
theory Threadpool
  imports Io_Core
begin

text \<open>
  The threadpool of \<^verbatim>\<open>src/threadpool.c\<close> as a system of threads that interleave: the workers
  (\<open>pd__threadpool_exec\<close>), any number of event loops that submit tasks and collect finished ones
  (\<open>pd_task_submit\<close>, \<open>pd__task_done\<close>), and the thread that starts and ends the pool
  (\<open>pd_threadpool_init\<close>, \<open>pd_threadpool_end\<close>). A thread is a program counter; the constructors of its type
  name the places between two steps. Taking the mutex, giving it back and every stretch of code
  between them is a step of its own, so every interleaving the mutex allows is a run of the model.

  Of the operating system the model has a mutex, a condition variable as POSIX documents them - a
  signal wakes one of the waiting threads, which one is not determined, and does nothing when there is none;
  a waiting thread may also wake up on its own - and the counter of an \<^verbatim>\<open>eventfd\<close>. The functions \<open>work\<close> and
  \<open>done\<close> of the client do what they like outside the pool; \<open>done\<close> may submit tasks.
\<close>

section \<open>State\<close>

datatype thread = Worker nat | Loop nat | Ender

datatype mutex = Unlocked | Locked thread | Destroyed

record pd_task =
  task_ctx :: nat
  task_work :: "callback option"
  task_done_cb :: "callback option"

text \<open>
  Where a worker is: before the \<^verbatim>\<open>lock\<close> of line 64, at the test of line 67, blocked in \<open>pd_cond_wait\<close>, woken and
  taking the mutex again, before the \<^verbatim>\<open>unlock\<close> of line 83, before \<open>work\<close>, before the \<^verbatim>\<open>lock\<close> of line 89, at line 90,
  at the \<^verbatim>\<open>unlock\<close> of line 95, at the \<^verbatim>\<open>unlock\<close> of line 75, returned.
\<close>

datatype worker_pc =
    W_lock | W_loop | W_waiting | W_woken | W_unlock task | W_work task | W_finish_lock task | W_push task
  | W_finish_unlock | W_abort_unlock | W_exited

text \<open>
  Where a loop is: in code of the client or waiting for events; in \<open>pd_task_submit\<close>, before the \<^verbatim>\<open>lock\<close>, at the push,
  at the test for waiting threads, at the \<^verbatim>\<open>unlock\<close>; in \<open>pd__task_done\<close>, before the \<^verbatim>\<open>lock\<close>, at the test of the first
  loop, at the \<^verbatim>\<open>unlock\<close>, at the test of the second loop, behind the call of \<open>done\<close>.
\<close>

datatype loop_pc =
    L_client | L_submit_lock task | L_submit_push task | L_submit_signal | L_submit_unlock
  | L_collect_lock | L_collect | L_collect_unlock | L_done | L_ref

text \<open>In \<open>pd_threadpool_end\<close>: before the \<^verbatim>\<open>lock\<close>, at line 138, at the \<^verbatim>\<open>unlock\<close>, at the join of a thread.\<close>

datatype ender_pc = E_idle | E_lock | E_abort | E_unlock | E_join nat

text \<open>
  The variables of \<^verbatim>\<open>threadpool.c\<close>, the tasks and the nodes embedded in them, and for each loop its
  structure, the counter behind its notifier, the local queue \<open>tasks_done\<close>, and whether the client code it
  runs was called from \<open>pd__task_done\<close>.
\<close>

record pool =
  nthreads :: size_t
  waiting_threads :: size_t
  mux :: mutex
  tasks :: "qnode queue"
  ntasks :: size_t
  abort_threads :: bool
  taskmem :: "task \<Rightarrow> pd_task"
  pnodes :: "qnode queue_mem"
  ctx :: "nat \<Rightarrow> pd_io"
  event_count :: "nat \<Rightarrow> uint64"
  tasks_done :: "nat \<Rightarrow> qnode queue"
  in_done :: "nat \<Rightarrow> bool"
  wpc :: "nat \<Rightarrow> worker_pc"
  lpc :: "nat \<Rightarrow> loop_pc"
  epc :: ender_pc

abbreviation set_wpc :: "nat \<Rightarrow> worker_pc \<Rightarrow> pool \<Rightarrow> pool" where
  "set_wpc i p w \<equiv> w\<lparr>wpc := (wpc w)(i := p)\<rparr>"

section \<open>Condition variable and notifier\<close>

text \<open>\<open>cond_signal w w'\<close>: a signal in \<open>w\<close> can lead to \<open>w'\<close>.\<close>

inductive cond_signal :: "pool \<Rightarrow> pool \<Rightarrow> bool" where
  signal_none: "(\<And>i. i < unat (nthreads w) \<Longrightarrow> wpc w i \<noteq> W_waiting) \<Longrightarrow> cond_signal w w"
| signal_one: "i < unat (nthreads w) \<Longrightarrow> wpc w i = W_waiting \<Longrightarrow> cond_signal w (set_wpc i W_woken w)"

text \<open>
  The counter of an \<^verbatim>\<open>eventfd\<close> in non-blocking mode: a write adds to it unless that would exceed
  \<open>2 ^ 64 - 2\<close>; a read gives its value and resets it, and fails when it is 0.
\<close>

definition eventfd_write :: "uint64 \<Rightarrow> uint64" where
  "eventfd_write n = (if n < - 2 then n + 1 else n)"

section \<open>The workers\<close>

text \<open>
  The events of a run. \<open>Accept\<close>: a submission that is not refused; \<open>Enqueue\<close>: the task enters the queue;
  \<open>Take\<close>: a worker takes it; \<open>Work\<close>: \<open>task->work\<close> is called, unless it is \<^verbatim>\<open>NULL\<close>; \<open>Finish\<close>: the task enters the queue of
  its loop; \<open>Collect\<close>: the loop takes it from there; \<open>Done\<close>: \<open>task->done\<close> is called, unless it is \<^verbatim>\<open>NULL\<close>.
\<close>

datatype pool_event =
    Tau
  | Refused nat task
  | Accept nat task
  | Enqueue nat task
  | Take nat task
  | Work nat task
  | Finish nat task
  | Collect nat task
  | Done nat task

text \<open>
  \<open>pd__threadpool_exec\<close>, run by worker \<open>i\<close>. At \<open>W_loop\<close> it goes to sleep, leaves, or takes the first task; at
  \<open>W_push\<close> it hands the task to its loop and notifies it, unless that has been done already.
\<close>

inductive worker_step :: "nat \<Rightarrow> pool \<Rightarrow> pool_event \<Rightarrow> pool \<Rightarrow> bool" for i w where
  w_lock: "wpc w i = W_lock \<Longrightarrow> mux w = Unlocked \<Longrightarrow>
     worker_step i w Tau (w\<lparr>mux := Locked (Worker i), wpc := (wpc w)(i := W_loop)\<rparr>)"
| w_wait: "wpc w i = W_loop \<Longrightarrow> ntasks w = 0 \<Longrightarrow> \<not> abort_threads w \<Longrightarrow>
     worker_step i w Tau
       (w\<lparr>waiting_threads := waiting_threads w + 1, mux := Unlocked, wpc := (wpc w)(i := W_waiting)\<rparr>)"
| w_woken: "wpc w i = W_woken \<Longrightarrow> mux w = Unlocked \<Longrightarrow>
     worker_step i w Tau
       (w\<lparr>mux := Locked (Worker i), waiting_threads := waiting_threads w - 1, wpc := (wpc w)(i := W_loop)\<rparr>)"
| w_abort: "wpc w i = W_loop \<Longrightarrow> abort_threads w \<Longrightarrow> cond_signal w w1 \<Longrightarrow>
     worker_step i w Tau (w1\<lparr>wpc := (wpc w1)(i := W_abort_unlock)\<rparr>)"
| w_exit: "wpc w i = W_abort_unlock \<Longrightarrow>
     worker_step i w Tau (w\<lparr>mux := Unlocked, wpc := (wpc w)(i := W_exited)\<rparr>)"
| w_take: "wpc w i = W_loop \<Longrightarrow> ntasks w \<noteq> 0 \<Longrightarrow> \<not> abort_threads w \<Longrightarrow>
     queue_pop (tasks w) (pnodes w) = Inr (Some (Task_node t), q, mem) \<Longrightarrow>
     worker_step i w (Take i t)
       (w\<lparr>tasks := q, pnodes := mem, ntasks := ntasks w - 1, wpc := (wpc w)(i := W_unlock t)\<rparr>)"
| w_unlock: "wpc w i = W_unlock t \<Longrightarrow>
     worker_step i w Tau (w\<lparr>mux := Unlocked, wpc := (wpc w)(i := W_work t)\<rparr>)"
| w_work: "wpc w i = W_work t \<Longrightarrow>
     worker_step i w (Work i t)
       (w\<lparr>pnodes := queue_init_node (pnodes w) (Task_node t), wpc := (wpc w)(i := W_finish_lock t)\<rparr>)"
| w_finish_lock: "wpc w i = W_finish_lock t \<Longrightarrow> mux w = Unlocked \<Longrightarrow>
     worker_step i w Tau (w\<lparr>mux := Locked (Worker i), wpc := (wpc w)(i := W_push t)\<rparr>)"
| w_push: "wpc w i = W_push t \<Longrightarrow> c = task_ctx (taskmem w t) \<Longrightarrow>
     queue_push (finished_tasks (ctx w c)) (pnodes w) (Task_node t) = Inr (q, mem) \<Longrightarrow>
     n = (if task_signaled (ctx w c) then event_count w c else eventfd_write (event_count w c)) \<Longrightarrow>
     worker_step i w (Finish c t)
       (w\<lparr>ctx := (ctx w)(c := (ctx w c)\<lparr>finished_tasks := q\<rparr>), pnodes := mem,
          event_count := (event_count w)(c := n), wpc := (wpc w)(i := W_finish_unlock)\<rparr>)"
| w_finish_unlock: "wpc w i = W_finish_unlock \<Longrightarrow>
     worker_step i w Tau (w\<lparr>mux := Unlocked, wpc := (wpc w)(i := W_lock)\<rparr>)"

section \<open>The loops\<close>

text \<open>
  What the client code of a loop does, in a callback or outside: submit a task (\<open>pd_task_submit\<close> up to its
  \<^verbatim>\<open>lock\<close>), and write the functions of a task.
\<close>

inductive client_step :: "nat \<Rightarrow> pool \<Rightarrow> pool_event \<Rightarrow> pool \<Rightarrow> bool" for c w where
  c_refused: "lpc w c = L_client \<Longrightarrow> abort_threads w \<or> nthreads w = 0 \<Longrightarrow> client_step c w (Refused c t) w"
| c_accept: "lpc w c = L_client \<Longrightarrow> \<not> abort_threads w \<Longrightarrow> nthreads w \<noteq> 0 \<Longrightarrow>
     client_step c w (Accept c t)
       (w\<lparr>taskmem := (taskmem w)(t := (taskmem w t)\<lparr>task_ctx := c\<rparr>),
          ctx := (ctx w)(c := (ctx w c)\<lparr>refs := refs (ctx w c) + 1\<rparr>),
          pnodes := queue_init_node (pnodes w) (Task_node t), lpc := (lpc w)(c := L_submit_lock t)\<rparr>)"
| c_fill: "lpc w c = L_client \<Longrightarrow>
     client_step c w Tau
       (w\<lparr>taskmem := (taskmem w)(t := (taskmem w t)\<lparr>task_work := f, task_done_cb := g\<rparr>)\<rparr>)"

text \<open>
  The rest of \<open>pd_task_submit\<close>; \<open>pd__notifier_io\<close>, which reads the counter of the notifier when its descriptor is
  reported readable, and \<open>pd__task_done\<close>, which it then calls: the loop that moves the finished tasks to a
  local queue (\<open>L_collect\<close>), and the one that calls \<open>done\<close> (\<open>L_done\<close>); at \<open>l_return\<close> such a callback returns.
\<close>

inductive loop_step :: "nat \<Rightarrow> pool \<Rightarrow> pool_event \<Rightarrow> pool \<Rightarrow> bool" for c w where
  l_lock: "lpc w c = L_submit_lock t \<Longrightarrow> mux w = Unlocked \<Longrightarrow>
     loop_step c w Tau (w\<lparr>mux := Locked (Loop c), lpc := (lpc w)(c := L_submit_push t)\<rparr>)"
| l_push: "lpc w c = L_submit_push t \<Longrightarrow>
     queue_push (tasks w) (pnodes w) (Task_node t) = Inr (q, mem) \<Longrightarrow>
     loop_step c w (Enqueue c t)
       (w\<lparr>tasks := q, pnodes := mem, ntasks := ntasks w + 1, lpc := (lpc w)(c := L_submit_signal)\<rparr>)"
| l_no_signal: "lpc w c = L_submit_signal \<Longrightarrow> \<not> waiting_threads w > 0 \<Longrightarrow>
     loop_step c w Tau (w\<lparr>lpc := (lpc w)(c := L_submit_unlock)\<rparr>)"
| l_signal: "lpc w c = L_submit_signal \<Longrightarrow> waiting_threads w > 0 \<Longrightarrow> cond_signal w w1 \<Longrightarrow>
     loop_step c w Tau (w1\<lparr>lpc := (lpc w1)(c := L_submit_unlock)\<rparr>)"
| l_unlock: "lpc w c = L_submit_unlock \<Longrightarrow>
     loop_step c w Tau (w\<lparr>mux := Unlocked, lpc := (lpc w)(c := L_client)\<rparr>)"
| l_poll: "lpc w c = L_client \<Longrightarrow> \<not> in_done w c \<Longrightarrow> event_count w c \<noteq> 0 \<Longrightarrow>
     loop_step c w Tau (w\<lparr>event_count := (event_count w)(c := 0), lpc := (lpc w)(c := L_collect_lock)\<rparr>)"
| l_collect_lock: "lpc w c = L_collect_lock \<Longrightarrow> mux w = Unlocked \<Longrightarrow>
     loop_step c w Tau
       (w\<lparr>tasks_done := (tasks_done w)(c := queue_init (tasks_done w c)), mux := Locked (Loop c),
          lpc := (lpc w)(c := L_collect)\<rparr>)"
| l_move: "lpc w c = L_collect \<Longrightarrow> \<not> queue_empty (finished_tasks (ctx w c)) \<Longrightarrow>
     queue_pop (finished_tasks (ctx w c)) (pnodes w) = Inr (Some (Task_node t), q, mem) \<Longrightarrow>
     queue_push (tasks_done w c) mem (Task_node t) = Inr (q', mem') \<Longrightarrow>
     loop_step c w (Collect c t)
       (w\<lparr>ctx := (ctx w)(c := (ctx w c)\<lparr>finished_tasks := q\<rparr>), pnodes := mem',
          tasks_done := (tasks_done w)(c := q')\<rparr>)"
| l_moved: "lpc w c = L_collect \<Longrightarrow> queue_empty (finished_tasks (ctx w c)) \<Longrightarrow>
     loop_step c w Tau
       (w\<lparr>ctx := (ctx w)(c := (ctx w c)\<lparr>task_signaled := False\<rparr>), lpc := (lpc w)(c := L_collect_unlock)\<rparr>)"
| l_collect_unlock: "lpc w c = L_collect_unlock \<Longrightarrow>
     loop_step c w Tau (w\<lparr>mux := Unlocked, lpc := (lpc w)(c := L_done)\<rparr>)"
| l_done: "lpc w c = L_done \<Longrightarrow> \<not> queue_empty (tasks_done w c) \<Longrightarrow>
     queue_pop (tasks_done w c) (pnodes w) = Inr (Some (Task_node t), q, mem) \<Longrightarrow>
     b = (task_done_cb (taskmem w t) \<noteq> None) \<Longrightarrow>
     loop_step c w (Done c t)
       (w\<lparr>pnodes := mem, tasks_done := (tasks_done w)(c := q), in_done := (in_done w)(c := b),
          lpc := (lpc w)(c := if b then L_client else L_ref)\<rparr>)"
| l_return: "lpc w c = L_client \<Longrightarrow> in_done w c \<Longrightarrow>
     loop_step c w Tau (w\<lparr>in_done := (in_done w)(c := False), lpc := (lpc w)(c := L_ref)\<rparr>)"
| l_ref: "lpc w c = L_ref \<Longrightarrow>
     loop_step c w Tau
       (w\<lparr>ctx := (ctx w)(c := (ctx w c)\<lparr>refs := refs (ctx w c) - 1\<rparr>), lpc := (lpc w)(c := L_done)\<rparr>)"
| l_finished: "lpc w c = L_done \<Longrightarrow> queue_empty (tasks_done w c) \<Longrightarrow>
     loop_step c w Tau (w\<lparr>lpc := (lpc w)(c := L_client)\<rparr>)"

section \<open>Starting and ending\<close>

definition PD_THREADPOOL_SIZE :: size_t where
  "PD_THREADPOOL_SIZE = 4"

text \<open>
  The threads are created one after the other; one that has been created and has not run yet is
  one that the scheduler has not chosen yet, so they all start in one step.
\<close>

definition pd_threadpool_init :: "size_t \<Rightarrow> pool \<Rightarrow> pool" where
  "pd_threadpool_init n w =
     (if nthreads w \<noteq> 0 then w
      else
        let w = w\<lparr>abort_threads := False, nthreads := (if n > 0 then n else PD_THREADPOOL_SIZE), mux := Unlocked\<rparr>
        in w\<lparr>wpc := (\<lambda>i. if i < unat (nthreads w) then W_lock else wpc w i)\<rparr>)"

text \<open>
  \<open>pd_threadpool_end\<close>. A thread is joined when it has returned. To destroy a mutex that is locked is undefined, as is to
  lock one that was destroyed: these are not steps but places where a run ends, which \<open>late_lock\<close> and \<open>early_destroy\<close> in
  \<open>Threads\<close> describe.
\<close>

inductive ender_step :: "pool \<Rightarrow> pool \<Rightarrow> bool" for w where
  e_lock: "epc w = E_lock \<Longrightarrow> mux w = Unlocked \<Longrightarrow> ender_step w (w\<lparr>mux := Locked Ender, epc := E_abort\<rparr>)"
| e_abort: "epc w = E_abort \<Longrightarrow> cond_signal (w\<lparr>abort_threads := True\<rparr>) w1 \<Longrightarrow> ender_step w (w1\<lparr>epc := E_unlock\<rparr>)"
| e_unlock: "epc w = E_unlock \<Longrightarrow> ender_step w (w\<lparr>mux := Unlocked, epc := E_join 0\<rparr>)"
| e_join: "epc w = E_join i \<Longrightarrow> i < unat (nthreads w) \<Longrightarrow> wpc w i = W_exited \<Longrightarrow>
     ender_step w (w\<lparr>epc := E_join (i + 1)\<rparr>)"
| e_destroy: "epc w = E_join i \<Longrightarrow> \<not> i < unat (nthreads w) \<Longrightarrow> mux w = Unlocked \<Longrightarrow>
     ender_step w (w\<lparr>nthreads := 0, mux := Destroyed, epc := E_idle\<rparr>)"

section \<open>Runs\<close>

text \<open>
  \<open>internal_step\<close>: a step of the code of the pool. \<open>environment_step\<close>: a client submits or changes a task, starts
  or ends the pool (\<open>pd_threadpool_end\<close> returns at once when there is no pool), or a waiting worker wakes up on its own.
\<close>

inductive internal_step :: "pool \<Rightarrow> pool_event \<Rightarrow> pool \<Rightarrow> bool" for w where
  of_worker: "worker_step i w e w' \<Longrightarrow> internal_step w e w'"
| of_loop: "loop_step c w e w' \<Longrightarrow> internal_step w e w'"
| of_ender: "ender_step w w' \<Longrightarrow> internal_step w Tau w'"

inductive environment_step :: "pool \<Rightarrow> pool_event \<Rightarrow> pool \<Rightarrow> bool" for w where
  of_client: "client_step c w e w' \<Longrightarrow> environment_step w e w'"
| wake_up: "wpc w i = W_waiting \<Longrightarrow> environment_step w Tau (w\<lparr>wpc := (wpc w)(i := W_woken)\<rparr>)"
| init: "epc w = E_idle \<Longrightarrow> environment_step w Tau (pd_threadpool_init n w)"
| end_call: "epc w = E_idle \<Longrightarrow> nthreads w \<noteq> 0 \<Longrightarrow> environment_step w Tau (w\<lparr>epc := E_lock\<rparr>)"

definition pool_step :: "pool \<Rightarrow> pool_event \<Rightarrow> pool \<Rightarrow> bool" where
  "pool_step w e w' \<longleftrightarrow> internal_step w e w' \<or> environment_step w e w'"

inductive pool_run :: "pool \<Rightarrow> pool_event list \<Rightarrow> pool \<Rightarrow> bool" for w where
  pool_run_start: "pool_run w [] w"
| pool_run_step: "pool_run w es w' \<Longrightarrow> pool_step w' e w'' \<Longrightarrow> pool_run w (es @ [e]) w''"

text \<open>
  Faults: a place where a queue operation of the code would follow \<^verbatim>\<open>NULL\<close>, or would find no task where the code
  expects one.
\<close>

definition pops :: "qnode queue \<Rightarrow> qnode queue_mem \<Rightarrow> task \<Rightarrow> bool" where
  "pops q mem t \<longleftrightarrow> (\<exists>q' mem'. queue_pop q mem = Inr (Some (Task_node t), q', mem'))"

inductive pool_fault :: "pool \<Rightarrow> bool" for w where
  "wpc w i = W_loop \<Longrightarrow> ntasks w \<noteq> 0 \<Longrightarrow> \<forall>t. \<not> pops (tasks w) (pnodes w) t \<Longrightarrow> pool_fault w"
| "wpc w i = W_push t \<Longrightarrow>
     isl (queue_push (finished_tasks (ctx w (task_ctx (taskmem w t)))) (pnodes w) (Task_node t)) \<Longrightarrow> pool_fault w"
| "lpc w c = L_submit_push t \<Longrightarrow> isl (queue_push (tasks w) (pnodes w) (Task_node t)) \<Longrightarrow> pool_fault w"
| "lpc w c = L_collect \<Longrightarrow> \<not> queue_empty (finished_tasks (ctx w c)) \<Longrightarrow>
     \<forall>t. \<not> pops (finished_tasks (ctx w c)) (pnodes w) t \<Longrightarrow> pool_fault w"
| "lpc w c = L_collect \<Longrightarrow> \<not> queue_empty (finished_tasks (ctx w c)) \<Longrightarrow>
     queue_pop (finished_tasks (ctx w c)) (pnodes w) = Inr (Some (Task_node t), q, mem) \<Longrightarrow>
     isl (queue_push (tasks_done w c) mem (Task_node t)) \<Longrightarrow> pool_fault w"
| "lpc w c = L_done \<Longrightarrow> \<not> queue_empty (tasks_done w c) \<Longrightarrow>
     \<forall>t. \<not> pops (tasks_done w c) (pnodes w) t \<Longrightarrow> pool_fault w"

end
