(* ===== verification/Threadpool_Control.thy ===== *)
theory Threadpool_Control
  imports Threadpool
begin

text \<open>
  Control of the threadpool, whatever the tasks: who holds the mutex, which workers exist, how many of them the
  pool believes to be waiting, and what the phases of \<open>pd_threadpool_end\<close> have achieved.
\<close>

section \<open>Mutual exclusion\<close>

fun in_section :: "worker_pc \<Rightarrow> bool" where
  "in_section W_loop = True"
| "in_section (W_unlock t) = True"
| "in_section (W_push t) = True"
| "in_section W_finish_unlock = True"
| "in_section W_abort_unlock = True"
| "in_section _ = False"

fun loop_in_section :: "loop_pc \<Rightarrow> bool" where
  "loop_in_section (L_submit_push t) = True"
| "loop_in_section L_submit_signal = True"
| "loop_in_section L_submit_unlock = True"
| "loop_in_section L_collect = True"
| "loop_in_section L_collect_unlock = True"
| "loop_in_section _ = False"

fun ender_in_section :: "ender_pc \<Rightarrow> bool" where
  "ender_in_section E_abort = True"
| "ender_in_section E_unlock = True"
| "ender_in_section _ = False"

fun holds :: "pool \<Rightarrow> thread \<Rightarrow> bool" where
  "holds w (Worker i) = in_section (wpc w i)"
| "holds w (Loop c) = loop_in_section (lpc w c)"
| "holds w Ender = ender_in_section (epc w)"

definition exclusive :: "pool \<Rightarrow> bool" where
  "exclusive w \<longleftrightarrow> (\<forall>th. holds w th \<longleftrightarrow> mux w = Locked th)"

definition sleeping :: "worker_pc \<Rightarrow> bool" where
  "sleeping p \<longleftrightarrow> p = W_waiting \<or> p = W_woken"

text \<open>
  Only workers below \<open>nthreads\<close> run, none has left unless the pool is being ended, and
  \<open>waiting_threads\<close> counts those between lines 66 and 68. The ender has joined the workers it has passed.
\<close>

definition workers_ok :: "pool \<Rightarrow> bool" where
  "workers_ok w \<longleftrightarrow>
     (\<forall>i. wpc w i \<noteq> W_exited \<longrightarrow> i < unat (nthreads w)) \<and>
     (\<forall>i < unat (nthreads w). wpc w i \<in> {W_exited, W_abort_unlock} \<longrightarrow> abort_threads w) \<and>
     waiting_threads w = of_nat (card {i. sleeping (wpc w i)})"

definition ender_ok :: "pool \<Rightarrow> bool" where
  "ender_ok w \<longleftrightarrow>
     (mux w = Destroyed \<longleftrightarrow> nthreads w = 0) \<and>
     (epc w \<noteq> E_idle \<longrightarrow> nthreads w \<noteq> 0) \<and>
     (epc w \<in> {E_idle, E_lock, E_abort} \<longrightarrow> nthreads w \<noteq> 0 \<longrightarrow> \<not> abort_threads w) \<and>
     (epc w \<notin> {E_idle, E_lock, E_abort} \<longrightarrow> abort_threads w) \<and>
     (\<forall>k. epc w = E_join k \<longrightarrow> k \<le> unat (nthreads w) \<and> (\<forall>i < k. wpc w i = W_exited))"

lemma exclusive_iff:
  "exclusive w \<longleftrightarrow> (\<forall>i. in_section (wpc w i) \<longleftrightarrow> mux w = Locked (Worker i)) \<and>
     (\<forall>c. loop_in_section (lpc w c) \<longleftrightarrow> mux w = Locked (Loop c)) \<and> (ender_in_section (epc w) \<longleftrightarrow> mux w = Locked Ender)"
  (is "?l = ?r")
proof
  assume e: ?l
  show ?r
    using e [unfolded exclusive_def, rule_format, of "Worker _"] e [unfolded exclusive_def, rule_format, of "Loop _"]
      e [unfolded exclusive_def, rule_format, of Ender] by simp
next
  assume r: ?r
  show ?l unfolding exclusive_def
  proof
    fix th
    show "holds w th \<longleftrightarrow> mux w = Locked th" using r by (cases th) auto
  qed
qed

lemma exclusiveD:
  assumes "exclusive w"
  shows "in_section (wpc w i) \<longleftrightarrow> mux w = Locked (Worker i)"
    "loop_in_section (lpc w c) \<longleftrightarrow> mux w = Locked (Loop c)"
    "ender_in_section (epc w) \<longleftrightarrow> mux w = Locked Ender"
  using assms by (simp_all add: exclusive_iff)

section \<open>Every step keeps the control invariant\<close>

lemma cond_signal_same:
  assumes "cond_signal w w'"
  shows "mux w' = mux w" "nthreads w' = nthreads w" "waiting_threads w' = waiting_threads w" "lpc w' = lpc w"
    "epc w' = epc w" "abort_threads w' = abort_threads w" "in_section (wpc w' i) = in_section (wpc w i)"
    "sleeping (wpc w' i) = sleeping (wpc w i)" "(wpc w' i = W_exited) = (wpc w i = W_exited)"
    "(wpc w' i = W_abort_unlock) = (wpc w i = W_abort_unlock)" "ctx w' = ctx w"
  using assms by (auto elim!: cond_signal.cases simp: sleeping_def split: if_splits)

lemma exclusive_worker:
  assumes "worker_step i w e w'" "exclusive w"
  shows "exclusive w'"
  using assms exclusiveD(1) [OF assms(2), of i]
  by (induction rule: worker_step.induct) (auto simp: exclusive_iff cond_signal_same)

lemma exclusive_loop:
  assumes "loop_step c w e w'" "exclusive w"
  shows "exclusive w'"
  using assms exclusiveD(2) [OF assms(2), of c]
  by (induction rule: loop_step.induct) (auto simp: exclusive_iff cond_signal_same)

lemma exclusive_client:
  assumes "client_step c w e w'" "exclusive w"
  shows "exclusive w'"
  using assms exclusiveD(2) [OF assms(2), of c]
  by (induction rule: client_step.induct) (auto simp: exclusive_iff)

lemma exclusive_ender:
  assumes "ender_step w w'" "exclusive w"
  shows "exclusive w'"
  using assms exclusiveD(3) [OF assms(2)]
  by (induction rule: ender_step.induct) (auto simp: exclusive_iff cond_signal_same)

lemmas exclusive_steps = exclusive_worker exclusive_loop exclusive_client exclusive_ender

lemma workers_finite: "workers_ok w \<Longrightarrow> finite {i. sleeping (wpc w i)}"
  unfolding workers_ok_def by (rule finite_subset [of _ "{..<unat (nthreads w)}"]) (auto simp: sleeping_def)

lemma workers_upd:
  assumes "workers_ok w" "nthreads w' = nthreads w" "abort_threads w \<Longrightarrow> abort_threads w'"
    and "\<And>k. k \<noteq> i \<Longrightarrow> wpc w' k = wpc w k" "i < unat (nthreads w)"
    and "wpc w' i \<in> {W_exited, W_abort_unlock} \<Longrightarrow> abort_threads w'"
    and "waiting_threads w' = waiting_threads w + of_bool (sleeping (wpc w' i)) - of_bool (sleeping (wpc w i))"
  shows "workers_ok w'"
proof -
  note w = assms(1) [unfolded workers_ok_def]
  have upd: "wpc w' = (wpc w)(i := wpc w' i)" using assms(4) by auto
  have "card {k. sleeping (wpc w' k)} + (if sleeping (wpc w i) then 1 else 0) =
      card {k. sleeping (wpc w k)} + (if sleeping (wpc w' i) then 1 else 0)"
    by (subst upd) (rule card_fun_upd [where P = sleeping, OF workers_finite [OF assms(1)]])
  then have "of_nat (card {k. sleeping (wpc w' k)} + (if sleeping (wpc w i) then 1 else 0)) =
      (of_nat (card {k. sleeping (wpc w k)} + (if sleeping (wpc w' i) then 1 else 0)) :: size_t)"
    by (rule arg_cong)
  then have "waiting_threads w' = of_nat (card {k. sleeping (wpc w' k)})"
    using w unfolding assms(7) by (simp add: algebra_simps split: if_splits)
  moreover have "wpc w' k \<noteq> W_exited \<longrightarrow> k < unat (nthreads w')" for k
    using w assms(2,4,5) by (cases "k = i") auto
  moreover have "wpc w' k \<in> {W_exited, W_abort_unlock} \<longrightarrow> abort_threads w'" if "k < unat (nthreads w')" for k
    using w assms(2,3,4,6) that by (cases "k = i") auto
  ultimately show ?thesis unfolding workers_ok_def by blast
qed

lemma workers_same:
  assumes "workers_ok w" "nthreads w' = nthreads w" "abort_threads w' = abort_threads w" "wpc w' = wpc w"
    "waiting_threads w' = waiting_threads w"
  shows "workers_ok w'"
  using assms unfolding workers_ok_def by simp

lemma workers_signal:
  assumes "cond_signal w w'" "workers_ok w"
  shows "workers_ok w'"
  using assms
proof (induction rule: cond_signal.induct)
  case (signal_one i w)
  then show ?case by - (rule workers_upd [where i = i], auto simp: sleeping_def)
qed

lemma workers_live: "workers_ok w \<Longrightarrow> wpc w i \<noteq> W_exited \<Longrightarrow> i < unat (nthreads w)"
  unfolding workers_ok_def by blast

lemma workers_aborting:
  assumes "workers_ok w" "wpc w i = W_abort_unlock"
  shows "abort_threads w"
proof -
  have "i < unat (nthreads w)" using workers_live [OF assms(1)] assms(2) by simp
  with assms show ?thesis unfolding workers_ok_def by blast
qed

lemma workers_worker:
  assumes "worker_step i w e w'" "workers_ok w"
  shows "workers_ok w'"
  using assms workers_live [OF assms(2), of i] workers_aborting [OF assms(2), of i]
proof (induction rule: worker_step.induct)
  case (w_abort w1)
  then have w1: "workers_ok w1" "wpc w1 i = W_loop" using workers_signal
    by (auto elim!: cond_signal.cases)
  with w_abort show ?case
    by - (rule workers_upd [where w = w1 and i = i], auto simp: sleeping_def cond_signal_same)
qed (rule workers_upd [where w = w and i = i]; simp add: sleeping_def; fail)+

lemma workers_loop:
  assumes "loop_step c w e w'" "workers_ok w"
  shows "workers_ok w'"
  using assms
proof (induction rule: loop_step.induct)
  case (l_signal w1)
  then show ?case by - (rule workers_same [OF workers_signal], auto)
qed (erule workers_same; simp; fail)+

lemma workers_client:
  assumes "client_step c w e w'" "workers_ok w"
  shows "workers_ok w'"
  using assms by (induction rule: client_step.induct) (erule workers_same; simp; fail)+

lemma workers_abort: "workers_ok w \<Longrightarrow> workers_ok (w\<lparr>abort_threads := True\<rparr>)"
  by (auto simp: workers_ok_def)

lemma workers_ender:
  assumes "ender_step w w'" "workers_ok w" "ender_ok w"
  shows "workers_ok w'"
  using assms
proof (induction rule: ender_step.induct)
  case (e_abort w1)
  then show ?case by - (rule workers_same [OF workers_signal [OF _ workers_abort]], auto)
next
  case (e_destroy k)
  then have "wpc w i = W_exited" for i
    using workers_live [of w i] by (auto simp: ender_ok_def)
  then show ?case using e_destroy by (simp add: workers_ok_def sleeping_def)
qed (erule workers_same; simp; fail)+

section \<open>Ending\<close>

lemma ender_worker:
  assumes "worker_step i w e w'" "ender_ok w" "exclusive w" "workers_ok w"
  shows "ender_ok w'"
  using assms exclusiveD(1) [OF assms(3), of i] workers_live [OF assms(4), of i]
  by (induction rule: worker_step.induct) (auto simp: ender_ok_def cond_signal_same split: if_splits)

lemma ender_loop:
  assumes "loop_step c w e w'" "ender_ok w" "exclusive w"
  shows "ender_ok w'"
  using assms exclusiveD(2) [OF assms(3), of c]
  by (induction rule: loop_step.induct) (auto simp: ender_ok_def cond_signal_same split: if_splits)

lemma ender_client:
  assumes "client_step c w e w'" "ender_ok w"
  shows "ender_ok w'"
  using assms by (induction rule: client_step.induct) (auto simp: ender_ok_def)

lemma ender_ender:
  assumes "ender_step w w'" "ender_ok w" "exclusive w"
  shows "ender_ok w'"
  using assms exclusiveD(3) [OF assms(3)]
  by (induction rule: ender_step.induct)
    (auto simp: ender_ok_def cond_signal_same less_Suc_eq split: if_splits)

section \<open>The control invariant\<close>

definition control :: "pool \<Rightarrow> bool" where
  "control w \<longleftrightarrow> exclusive w \<and> workers_ok w \<and> ender_ok w \<and> (\<forall>c. \<not> task_signaled (ctx w c))"

lemma signaled_steps:
  "worker_step i w e w' \<Longrightarrow> (\<And>c. \<not> task_signaled (ctx w c)) \<Longrightarrow> \<not> task_signaled (ctx w' d)"
  "loop_step c w e w' \<Longrightarrow> (\<And>c. \<not> task_signaled (ctx w c)) \<Longrightarrow> \<not> task_signaled (ctx w' d)"
  "client_step c w e w' \<Longrightarrow> (\<And>c. \<not> task_signaled (ctx w c)) \<Longrightarrow> \<not> task_signaled (ctx w' d)"
  "ender_step w w' \<Longrightarrow> (\<And>c. \<not> task_signaled (ctx w c)) \<Longrightarrow> \<not> task_signaled (ctx w' d)"
  by (auto elim!: worker_step.cases loop_step.cases client_step.cases ender_step.cases simp: cond_signal_same split: if_splits)

lemma control_wake_up:
  assumes "control w" "wpc w i = W_waiting"
  shows "control (set_wpc i W_woken w)"
proof -
  have "cond_signal w (set_wpc i W_woken w)"
    using assms workers_live [of w i] by (intro signal_one) (auto simp: control_def)
  moreover have "exclusive (set_wpc i W_woken w)" "ender_ok (set_wpc i W_woken w)"
    using assms exclusiveD(1) [of w i]
    by (auto simp: control_def exclusive_iff ender_ok_def split: if_splits)
  ultimately show ?thesis using assms workers_signal by (simp add: control_def)
qed

lemma control_init:
  assumes "control w" "epc w = E_idle"
  shows "control (pd_threadpool_init n w)"
proof (cases "nthreads w = 0")
  case True
  have x: "wpc w i = W_exited" for i using assms True by (auto simp: control_def workers_ok_def)
  have "mux w = Destroyed" using assms True by (simp add: control_def ender_ok_def)
  with True x assms show ?thesis
    by (auto simp: control_def pd_threadpool_init_def Let_def exclusive_iff workers_ok_def ender_ok_def sleeping_def
        PD_THREADPOOL_SIZE_def)
next
  case False
  with assms show ?thesis by (simp add: pd_threadpool_init_def)
qed

lemma control_step:
  assumes "pool_step w e w'" "control w"
  shows "control w'"
proof -
  note C = assms(2) [unfolded control_def]
  show ?thesis
    using assms(1) unfolding pool_step_def
  proof
    assume "internal_step w e w'"
    then show ?thesis
    proof cases
      case (of_worker i)
      with C show ?thesis
        using exclusive_worker workers_worker ender_worker signaled_steps(1) unfolding control_def by blast
    next
      case (of_loop c)
      with C show ?thesis
        using exclusive_loop workers_loop ender_loop signaled_steps(2) unfolding control_def by blast
    next
      case of_ender
      with C show ?thesis
        using exclusive_ender workers_ender ender_ender signaled_steps(4) unfolding control_def by blast
    qed
  next
    assume "environment_step w e w'"
    then show ?thesis
    proof cases
      case (of_client c)
      with C show ?thesis
        using exclusive_client workers_client ender_client signaled_steps(3) unfolding control_def by blast
    next
      case (wake_up i)
      with assms(2) show ?thesis using control_wake_up by blast
    next
      case (init n)
      with assms(2) show ?thesis using control_init by blast
    next
      case end_call
      with C show ?thesis
        by (auto simp: control_def exclusive_iff ender_ok_def intro: workers_same)
    qed
  qed
qed

lemma control_run: "pool_run w es w' \<Longrightarrow> control w \<Longrightarrow> control w'"
  by (induction rule: pool_run.induct) (auto intro: control_step)

end
