(* ===== verification/Threadpool_Spec.thy ===== *)
theory Threadpool_Spec
  imports Threadpool_Control
begin

text \<open>
  What the threadpool promises, without threads, pointers and a mutex: a task is at one place at a time, the
  queue of the pool and the queues of the loops are lists, and the events of the pool move tasks from place to
  place. From this specification follow the order of the tasks and that each is worked on and reported exactly
  once. The contract of the client is \<open>proper\<close>: it does not submit a task that is still under way.
\<close>

section \<open>The specification\<close>

datatype place =
    Idle
  | Entering nat
  | Queued nat
  | Taken nat nat bool
  | Finished nat
  | Collected nat

record pool_spec =
  place :: "task \<Rightarrow> place"
  queued :: "task list"
  finished :: "nat \<Rightarrow> task list"
  collected :: "nat \<Rightarrow> task list"

definition spec_start :: pool_spec where
  "spec_start = \<lparr>place = (\<lambda>_. Idle), queued = [], finished = (\<lambda>_. []), collected = (\<lambda>_. [])\<rparr>"

text \<open>\<open>Taken i c b\<close>: worker \<open>i\<close> has the task, which goes back to loop \<open>c\<close>; \<open>b\<close>: \<open>work\<close> has been called.\<close>

inductive spec_step :: "pool_spec \<Rightarrow> pool_event \<Rightarrow> pool_spec \<Rightarrow> bool" for a where
  s_tau: "spec_step a Tau a"
| s_refused: "spec_step a (Refused c t) a"
| s_accept: "place a t = Idle \<Longrightarrow> spec_step a (Accept c t) (a\<lparr>place := (place a)(t := Entering c)\<rparr>)"
| s_enqueue: "place a t = Entering c \<Longrightarrow>
     spec_step a (Enqueue c t) (a\<lparr>place := (place a)(t := Queued c), queued := queued a @ [t]\<rparr>)"
| s_take: "queued a = t # ts \<Longrightarrow> place a t = Queued c \<Longrightarrow>
     spec_step a (Take i t) (a\<lparr>place := (place a)(t := Taken i c False), queued := ts\<rparr>)"
| s_work: "place a t = Taken i c False \<Longrightarrow>
     spec_step a (Work i t) (a\<lparr>place := (place a)(t := Taken i c True)\<rparr>)"
| s_finish: "place a t = Taken i c True \<Longrightarrow>
     spec_step a (Finish c t)
       (a\<lparr>place := (place a)(t := Finished c), finished := (finished a)(c := finished a c @ [t])\<rparr>)"
| s_collect: "finished a c = t # ts \<Longrightarrow>
     spec_step a (Collect c t)
       (a\<lparr>place := (place a)(t := Collected c), finished := (finished a)(c := ts),
          collected := (collected a)(c := collected a c @ [t])\<rparr>)"
| s_done: "collected a c = t # ts \<Longrightarrow>
     spec_step a (Done c t) (a\<lparr>place := (place a)(t := Idle), collected := (collected a)(c := ts)\<rparr>)"

inductive spec_run :: "pool_event list \<Rightarrow> pool_spec \<Rightarrow> bool" where
  spec_run_start: "spec_run [] spec_start"
| spec_run_step: "spec_run es a \<Longrightarrow> spec_step a e a' \<Longrightarrow> spec_run (es @ [e]) a'"

section \<open>The contract of the client\<close>

fun under_way :: "pool_event \<Rightarrow> task set \<Rightarrow> task set" where
  "under_way (Accept c t) S = insert t S"
| "under_way (Done c t) S = S - {t}"
| "under_way _ S = S"

fun proper_event :: "task set \<Rightarrow> pool_event \<Rightarrow> bool" where
  "proper_event S (Accept c t) = (t \<notin> S)"
| "proper_event S _ = True"

fun proper :: "task set \<Rightarrow> pool_event list \<Rightarrow> bool" where
  "proper S [] = True"
| "proper S (e # es) = (proper_event S e \<and> proper (under_way e S) es)"

lemma proper_append [simp]: "proper S (es @ fs) = (proper S es \<and> proper (fold under_way es S) fs)"
  by (induction es arbitrary: S) auto

section \<open>Lists and places agree\<close>

definition spec_ok :: "pool_spec \<Rightarrow> bool" where
  "spec_ok a \<longleftrightarrow> distinct (queued a) \<and> (\<forall>t. t \<in> set (queued a) \<longleftrightarrow> (\<exists>c. place a t = Queued c)) \<and>
     (\<forall>c. distinct (finished a c) \<and> (\<forall>t. t \<in> set (finished a c) \<longleftrightarrow> place a t = Finished c)) \<and>
     (\<forall>c. distinct (collected a c) \<and> (\<forall>t. t \<in> set (collected a c) \<longleftrightarrow> place a t = Collected c))"

lemma spec_okD:
  assumes "spec_ok a"
  shows "distinct (queued a)" "t \<in> set (queued a) \<longleftrightarrow> (\<exists>c. place a t = Queued c)"
    "distinct (finished a c)" "t \<in> set (finished a c) \<longleftrightarrow> place a t = Finished c"
    "distinct (collected a c)" "t \<in> set (collected a c) \<longleftrightarrow> place a t = Collected c"
  using assms unfolding spec_ok_def by blast+

lemma spec_ok_start: "spec_ok spec_start"
  by (simp add: spec_ok_def spec_start_def)

lemma spec_ok_step:
  assumes "spec_step a e a'" "spec_ok a"
  shows "spec_ok a'"
  using assms
proof (induction rule: spec_step.induct)
  case (s_take t ts c i)
  note D = spec_okD [OF s_take(3)]
  have "t \<notin> set ts" "distinct ts" using D(1) s_take(1) by auto
  moreover have "u \<in> set ts \<longleftrightarrow> u \<noteq> t \<and> (\<exists>c. place a u = Queued c)" for u
    using D(2) [of u] s_take(1) \<open>t \<notin> set ts\<close> by auto
  ultimately show ?case using s_take D(3-6) by (auto simp: spec_ok_def)
next
  case (s_collect c t ts)
  note D = spec_okD [OF s_collect(2)]
  have t: "t \<notin> set ts" "distinct ts" "place a t = Finished c" using D(3) [of c] D(4) [of t c] s_collect(1) by auto
  moreover have "u \<in> set ts \<longleftrightarrow> u \<noteq> t \<and> place a u = Finished c" for u
    using D(4) [of u c] s_collect(1) t(1) by auto
  ultimately show ?case using s_collect D by (auto simp: spec_ok_def)
next
  case (s_done c t ts)
  note D = spec_okD [OF s_done(2)]
  have t: "t \<notin> set ts" "distinct ts" "place a t = Collected c" using D(5) [of c] D(6) [of t c] s_done(1) by auto
  moreover have "u \<in> set ts \<longleftrightarrow> u \<noteq> t \<and> place a u = Collected c" for u
    using D(6) [of u c] s_done(1) t(1) by auto
  ultimately show ?case using s_done D by (auto simp: spec_ok_def)
qed (auto simp: spec_ok_def)

lemma spec_run_ok: "spec_run es a \<Longrightarrow> spec_ok a"
  by (induction rule: spec_run.induct) (auto intro: spec_ok_start spec_ok_step)

lemma spec_step_under_way:
  assumes "spec_step a e a'" "spec_ok a"
  shows "under_way e {t. place a t \<noteq> Idle} = {t. place a' t \<noteq> Idle}"
proof (rule set_eqI)
  fix u
  note ok = spec_okD(4) [OF assms(2)]
  show "u \<in> under_way e {t. place a t \<noteq> Idle} \<longleftrightarrow> u \<in> {t. place a' t \<noteq> Idle}"
    using assms(1)
  proof cases
    case (s_collect c t ts)
    then show ?thesis using ok [of t c] by simp
  qed simp_all
qed

lemma spec_run_under_way: "spec_run es a \<Longrightarrow> fold under_way es {} = {t. place a t \<noteq> Idle}"
proof (induction rule: spec_run.induct)
  case spec_run_start
  then show ?case by (simp add: spec_start_def)
next
  case (spec_run_step es a e a')
  have "fold under_way (es @ [e]) {} = under_way e {t. place a t \<noteq> Idle}"
    using spec_run_step(3) by simp
  also have "\<dots> = {t. place a' t \<noteq> Idle}"
    by (rule spec_step_under_way [OF spec_run_step(2) spec_run_ok [OF spec_run_step(1)]])
  finally show ?case .
qed

section \<open>Order and number of the events\<close>

fun accepted :: "nat \<Rightarrow> pool_event \<Rightarrow> task option" where
  "accepted c (Accept d t) = (if d = c then Some t else None)"
| "accepted c _ = None"

fun enqueued :: "pool_event \<Rightarrow> task option" where
  "enqueued (Enqueue c t) = Some t"
| "enqueued _ = None"

fun taken :: "pool_event \<Rightarrow> task option" where
  "taken (Take i t) = Some t"
| "taken _ = None"

fun worked :: "pool_event \<Rightarrow> task option" where
  "worked (Work i t) = Some t"
| "worked _ = None"

fun delivered :: "nat \<Rightarrow> pool_event \<Rightarrow> task option" where
  "delivered c (Finish d t) = (if d = c then Some t else None)"
| "delivered c _ = None"

fun reported :: "nat \<Rightarrow> pool_event \<Rightarrow> task option" where
  "reported c (Done d t) = (if d = c then Some t else None)"
| "reported c _ = None"

abbreviation select :: "(pool_event \<Rightarrow> task option) \<Rightarrow> pool_event list \<Rightarrow> task list" where
  "select \<equiv> List.map_filter"

lemma select_snoc: "select f (es @ [e]) = select f es @ (case f e of None \<Rightarrow> [] | Some t \<Rightarrow> [t])"
  by (simp add: List.map_filter_def split: option.split)

text \<open>The loop a place belongs to, and whether the call of \<open>work\<close> is still to come.\<close>

fun owner_loop :: "place \<Rightarrow> nat option" where
  "owner_loop Idle = None"
| "owner_loop (Entering c) = Some c"
| "owner_loop (Queued c) = Some c"
| "owner_loop (Taken i c b) = Some c"
| "owner_loop (Finished c) = Some c"
| "owner_loop (Collected c) = Some c"

fun before_work :: "place \<Rightarrow> bool" where
  "before_work (Entering c) = True"
| "before_work (Queued c) = True"
| "before_work (Taken i c b) = (\<not> b)"
| "before_work _ = False"

lemma spec_fifo: "spec_run es a \<Longrightarrow> select enqueued es = select taken es @ queued a"
proof (induction rule: spec_run.induct)
  case (spec_run_step es a e a')
  from spec_run_step(2,3) show ?case by (induction rule: spec_step.induct) (auto simp: select_snoc)
qed (simp add: List.map_filter_def spec_start_def)

lemma spec_reports_in_order:
  "spec_run es a \<Longrightarrow> select (delivered c) es = select (reported c) es @ collected a c @ finished a c"
proof (induction rule: spec_run.induct)
  case (spec_run_step es a e a')
  from spec_run_step(2,3) show ?case by (induction rule: spec_step.induct) (auto simp: select_snoc)
qed (simp add: List.map_filter_def spec_start_def)

lemma spec_reported_once:
  "spec_run es a \<Longrightarrow> count_list (select (accepted c) es) t =
     count_list (select (reported c) es) t + of_bool (owner_loop (place a t) = Some c)"
proof (induction rule: spec_run.induct)
  case (spec_run_step es a e a')
  note ok = spec_okD [OF spec_run_ok [OF spec_run_step(1)]]
  from spec_run_step(2,3) show ?case
  proof (induction rule: spec_step.induct)
    case (s_collect d u ts)
    then show ?case using ok(4) [of u d] by (auto simp: select_snoc)
  next
    case (s_done d u ts)
    then show ?case using ok(6) [of u d] by (auto simp: select_snoc)
  qed (auto simp: select_snoc)
qed (simp add: List.map_filter_def spec_start_def)

lemma spec_worked_once:
  "spec_run es a \<Longrightarrow> count_list (select enqueued es) t =
     count_list (select worked es) t + of_bool (before_work (place a t) \<and> (\<forall>c. place a t \<noteq> Entering c))"
proof (induction rule: spec_run.induct)
  case (spec_run_step es a e a')
  note ok = spec_okD [OF spec_run_ok [OF spec_run_step(1)]]
  from spec_run_step(2,3) show ?case
  proof (induction rule: spec_step.induct)
    case (s_collect d u ts)
    then show ?case using ok(4) [of u d] by (auto simp: select_snoc)
  next
    case (s_done d u ts)
    then show ?case using ok(6) [of u d] by (auto simp: select_snoc)
  qed (auto simp: select_snoc)
qed (simp add: List.map_filter_def spec_start_def)

end
