(* ===== verification/Threadpool_Refines.thy ===== *)
theory Threadpool_Refines
  imports Threadpool_Spec
begin

text \<open>
  Every run of the threads refines the specification: \<open>pool_rep w a\<close> relates the queues in memory, the counters
  and the program counters of \<open>w\<close> to the places and lists of \<open>a\<close>, and each step of the pool is a step of the
  specification with the same event. On the way, no queue operation of the pool can fail.
\<close>

section \<open>The relation\<close>

definition collecting :: "pool \<Rightarrow> nat \<Rightarrow> bool" where
  "collecting w c \<longleftrightarrow> in_done w c \<or> lpc w c \<in> {L_collect, L_collect_unlock, L_done, L_ref}"

definition queues_rep :: "pool \<Rightarrow> pool_spec \<Rightarrow> bool" where
  "queues_rep w a \<longleftrightarrow>
     queue_rep (tasks w) (pnodes w) (map Task_node (queued a)) \<and> ntasks w = of_nat (length (queued a)) \<and>
     (\<forall>c. queue_rep (finished_tasks (ctx w c)) (pnodes w) (map Task_node (finished a c))) \<and>
     (\<forall>c. if collecting w c then queue_rep (tasks_done w c) (pnodes w) (map Task_node (collected a c))
          else collected a c = []) \<and>
     (\<forall>t. (\<exists>c. place a t = Entering c) \<or> (\<exists>i c. place a t = Taken i c True) \<longrightarrow> node_ready (pnodes w) (Task_node t))"

definition places_rep :: "pool \<Rightarrow> pool_spec \<Rightarrow> bool" where
  "places_rep w a \<longleftrightarrow>
     (\<forall>c t. place a t = Entering c \<longleftrightarrow> lpc w c \<in> {L_submit_lock t, L_submit_push t}) \<and>
     (\<forall>i t. (\<exists>c. place a t = Taken i c False) \<longleftrightarrow> wpc w i \<in> {W_unlock t, W_work t}) \<and>
     (\<forall>i t. (\<exists>c. place a t = Taken i c True) \<longleftrightarrow> wpc w i \<in> {W_finish_lock t, W_push t}) \<and>
     (\<forall>t c. owner_loop (place a t) = Some c \<longrightarrow> task_ctx (taskmem w t) = c) \<and>
     (\<forall>c. in_done w c \<longrightarrow> lpc w c \<notin> {L_collect_lock, L_collect, L_collect_unlock, L_done, L_ref})"

definition pool_rep :: "pool \<Rightarrow> pool_spec \<Rightarrow> bool" where
  "pool_rep w a \<longleftrightarrow> queues_rep w a \<and> places_rep w a \<and> spec_ok a"

lemma queues_repD:
  assumes "queues_rep w a"
  shows "queue_rep (tasks w) (pnodes w) (map Task_node (queued a))" "ntasks w = of_nat (length (queued a))"
    "queue_rep (finished_tasks (ctx w c)) (pnodes w) (map Task_node (finished a c))"
    "collecting w c \<Longrightarrow> queue_rep (tasks_done w c) (pnodes w) (map Task_node (collected a c))"
    "\<not> collecting w c \<Longrightarrow> collected a c = []"
    "place a t = Entering c \<Longrightarrow> node_ready (pnodes w) (Task_node t)"
    "place a t = Taken i c True \<Longrightarrow> node_ready (pnodes w) (Task_node t)"
  using assms unfolding queues_rep_def by (auto split: if_splits)

lemma places_repD:
  assumes "places_rep w a"
  shows "place a t = Entering c \<longleftrightarrow> lpc w c \<in> {L_submit_lock t, L_submit_push t}"
    "(\<exists>c. place a t = Taken i c False) \<longleftrightarrow> wpc w i \<in> {W_unlock t, W_work t}"
    "(\<exists>c. place a t = Taken i c True) \<longleftrightarrow> wpc w i \<in> {W_finish_lock t, W_push t}"
    "owner_loop (place a t) = Some c \<Longrightarrow> task_ctx (taskmem w t) = c"
    "in_done w c \<Longrightarrow> lpc w c \<notin> {L_collect_lock, L_collect, L_collect_unlock, L_done, L_ref}"
  using assms unfolding places_rep_def by blast+

lemma map_Task_node_in [simp]: "Task_node t \<in> Task_node ` S \<longleftrightarrow> t \<in> S"
  by auto

text \<open>The counter of the queue cannot wrap: it counts different tasks.\<close>

lemma queued_bound: "spec_ok a \<Longrightarrow> length (queued a) < 2 ^ 64"
proof -
  assume "spec_ok a"
  then have "length (queued a) = card (set (queued a))" using spec_okD(1) by (simp add: distinct_card)
  also have "\<dots> \<le> card (UNIV :: task set)" by (rule card_mono) auto
  finally show ?thesis by (simp add: card_word)
qed

lemma ntasks_0:
  assumes "pool_rep w a"
  shows "ntasks w = 0 \<longleftrightarrow> queued a = []"
proof -
  have "ntasks w = of_nat (length (queued a))" using assms queues_repD(2) unfolding pool_rep_def by blast
  moreover have "length (queued a) < 2 ^ 64" using assms queued_bound unfolding pool_rep_def by blast
  ultimately have "unat (ntasks w) = length (queued a)"
    by (simp add: unat_of_nat take_bit_nat_eq_self)
  then show ?thesis by (metis length_0_conv unat_eq_0)
qed

text \<open>What a change of the nodes leaves alone.\<close>

lemma rep_frame:
  assumes "queue_rep q mem (map Task_node ts)" "\<And>u. u \<in> set ts \<Longrightarrow> mem' (Task_node u) = mem (Task_node u)"
  shows "queue_rep q mem' (map Task_node ts)"
  by (rule queue_rep_cong [OF assms(1)]) (use assms(2) in auto)

lemma node_ready_cong: "node_ready mem x \<Longrightarrow> mem' x = mem x \<Longrightarrow> node_ready mem' x"
  by (simp add: node_ready_def)

lemma push_task:
  assumes "queue_rep q mem (map Task_node ts)" "t \<notin> set ts" "node_ready mem (Task_node t)"
  obtains q' mem' where "queue_push q mem (Task_node t) = Inr (q', mem')"
    "queue_rep q' mem' (map Task_node (ts @ [t]))"
    "\<And>u. u \<notin> set ts \<Longrightarrow> u \<noteq> t \<Longrightarrow> mem' (Task_node u) = mem (Task_node u)"
proof -
  from assms(2) have "Task_node t \<notin> set (map Task_node ts)" by auto
  from queue_push_rep [OF assms(1) this assms(3)] obtain q' mem' where
    "queue_push q mem (Task_node t) = Inr (q', mem')" "queue_rep q' mem' (map Task_node ts @ [Task_node t])"
    "\<And>y. y \<notin> set (map Task_node ts) \<Longrightarrow> y \<noteq> Task_node t \<Longrightarrow> mem' y = mem y" by metis
  then show thesis by (intro that [of q' mem']) auto
qed

lemma pop_task:
  assumes "queue_rep q mem (map Task_node (t # ts))"
  obtains q' mem' where "queue_pop q mem = Inr (Some (Task_node t), q', mem')"
    "queue_rep q' mem' (map Task_node ts)" "node_ready mem' (Task_node t)"
    "\<And>u. u \<notin> set (t # ts) \<Longrightarrow> mem' (Task_node u) = mem (Task_node u)"
proof -
  from assms have "queue_rep q mem (Task_node t # map Task_node ts)" by simp
  from queue_pop_rep [OF this] obtain q' mem' where
    "queue_pop q mem = Inr (Some (Task_node t), q', mem')" "queue_rep q' mem' (map Task_node ts)"
    "node_ready mem' (Task_node t)" "\<And>y. y \<notin> set (Task_node t # map Task_node ts) \<Longrightarrow> mem' y = mem y" by metis
  then show thesis by (intro that [of q' mem']) auto
qed

section \<open>No queue operation fails\<close>

lemma pool_rep_no_fault:
  assumes "pool_rep w a"
  shows "\<not> pool_fault w"
proof
  have q: "queues_rep w a" and p: "places_rep w a" and ok: "spec_ok a"
    using assms unfolding pool_rep_def by auto
  note Q = queues_repD [OF q] and P = places_repD [OF p] and S = spec_okD [OF ok]
  have pops: "ts \<noteq> [] \<Longrightarrow> queue_rep x (pnodes w) (map Task_node ts) \<Longrightarrow> \<exists>t. pops x (pnodes w) t" for x ts
    unfolding pops_def by (cases ts) (metis pop_task)+
  have push: "t \<notin> set ts \<Longrightarrow> node_ready mem (Task_node t) \<Longrightarrow> queue_rep x mem (map Task_node ts) \<Longrightarrow>
      \<not> isl (queue_push x mem (Task_node t))" for x ts t mem
    by (metis push_task sum.disc(2))
  assume "pool_fault w"
  then show False
  proof cases
    case (1 i)
    then show ?thesis using pops [OF _ Q(1)] ntasks_0 [OF assms] by blast
  next
    case (2 i t)
    then obtain c where c: "place a t = Taken i c True" using P(3) [of t i] by auto
    with P(4) [of t c] 2(2) show ?thesis using push [OF _ Q(7) Q(3), of t c i c] S(4) [of t c] by auto
  next
    case (3 c t)
    then have c: "place a t = Entering c" using P(1) [of t c] by auto
    with 3(2) show ?thesis using push [OF _ Q(6) Q(1), of t c] S(2) [of t] by auto
  next
    case (4 c)
    then show ?thesis using pops [OF _ Q(3), of c] queue_rep_empty [OF Q(3), of c] by auto
  next
    case (5 c t x mem)
    then have "finished a c \<noteq> []" using queue_rep_empty [OF Q(3), of c] by auto
    then obtain u ts where f: "finished a c = u # ts" by (cases "finished a c") auto
    from pop_task [OF Q(3) [of c, unfolded f]] 5(3) have u: "u = t" "node_ready mem (Task_node t)"
      "\<And>v. v \<notin> set (u # ts) \<Longrightarrow> mem (Task_node v) = pnodes w (Task_node v)" by (auto; fail)+
    have t: "place a t = Finished c" using S(4) [of t c] f u by auto
    have "queue_rep (tasks_done w c) mem (map Task_node (collected a c))"
    proof (rule rep_frame [OF Q(4)])
      show "collecting w c" using 5(1) by (simp add: collecting_def)
      fix v assume "v \<in> set (collected a c)"
      then show "mem (Task_node v) = pnodes w (Task_node v)"
        using S(6) [of v c] S(4) [of v c] f u(3) [of v] by auto
    qed
    from push [OF _ u(2) this] t 5(4) S(6) [of t c] show ?thesis by auto
  next
    case (6 c)
    then have "collecting w c" by (simp add: collecting_def)
    with 6 show ?thesis using pops [OF _ Q(4), of c] queue_rep_empty [OF Q(4), of c] by auto
  qed
qed

section \<open>Steps without an event\<close>

definition submits :: "loop_pc \<Rightarrow> task \<Rightarrow> bool" where
  "submits p t \<longleftrightarrow> p \<in> {L_submit_lock t, L_submit_push t}"

definition has_taken :: "worker_pc \<Rightarrow> bool \<Rightarrow> task \<Rightarrow> bool" where
  "has_taken p b t \<longleftrightarrow> p \<in> (if b then {W_finish_lock t, W_push t} else {W_unlock t, W_work t})"

lemma places_iff:
  "places_rep w a \<longleftrightarrow>
     (\<forall>c t. place a t = Entering c \<longleftrightarrow> submits (lpc w c) t) \<and>
     (\<forall>i b t. (\<exists>c. place a t = Taken i c b) \<longleftrightarrow> has_taken (wpc w i) b t) \<and>
     (\<forall>t c. owner_loop (place a t) = Some c \<longrightarrow> task_ctx (taskmem w t) = c) \<and>
     (\<forall>c. in_done w c \<longrightarrow> lpc w c \<notin> {L_collect_lock, L_collect, L_collect_unlock, L_done, L_ref})"
  unfolding places_rep_def submits_def has_taken_def by (simp add: all_bool_eq conj_ac) (blast | auto)+

lemma pool_rep_tau:
  assumes "pool_rep w a" "tasks w' = tasks w" "ntasks w' = ntasks w" "pnodes w' = pnodes w"
    and "\<And>c. finished_tasks (ctx w' c) = finished_tasks (ctx w c)"
    and "\<And>c. collecting w' c \<Longrightarrow> collecting w c \<and> tasks_done w' c = tasks_done w c \<or>
           collected a c = [] \<and> (\<exists>q. tasks_done w' c = queue_init q)"
    and "\<And>c. collecting w c \<Longrightarrow> \<not> collecting w' c \<Longrightarrow> collected a c = []"
    and "\<And>t. task_ctx (taskmem w' t) = task_ctx (taskmem w t)"
    and "\<And>c t. submits (lpc w' c) t = submits (lpc w c) t"
    and "\<And>i b t. has_taken (wpc w' i) b t = has_taken (wpc w i) b t"
    and "\<And>c. in_done w' c \<Longrightarrow> lpc w' c \<notin> {L_collect_lock, L_collect, L_collect_unlock, L_done, L_ref}"
  shows "pool_rep w' a"
proof -
  have q: "queues_rep w a" and p: "places_rep w a" and ok: "spec_ok a"
    using assms(1) unfolding pool_rep_def by auto
  note Q = queues_repD [OF q]
  have T: "if collecting w' c then queue_rep (tasks_done w' c) (pnodes w) (map Task_node (collected a c))
      else collected a c = []" for c
  proof (cases "collecting w' c")
    case True
    from assms(6) [OF this] show ?thesis using True Q(4) [of c] assms(4) by auto
  next
    case False
    with assms(7) [of c] Q(5) [of c] show ?thesis by auto
  qed
  have "\<forall>t. (\<exists>c. place a t = Entering c) \<or> (\<exists>i c. place a t = Taken i c True) \<longrightarrow> node_ready (pnodes w) (Task_node t)"
    using Q(6,7) by blast
  with T have "queues_rep w' a"
    unfolding queues_rep_def assms(2-5) using Q(1-3) by blast
  moreover have "places_rep w' a" using p assms(8-11) unfolding places_iff by auto
  ultimately show ?thesis using ok by (simp add: pool_rep_def)
qed

lemma taken_simps [simp]:
  "\<not> has_taken W_lock b t" "\<not> has_taken W_loop b t" "\<not> has_taken W_waiting b t" "\<not> has_taken W_woken b t"
  "has_taken (W_unlock u) b t \<longleftrightarrow> u = t \<and> \<not> b" "has_taken (W_work u) b t \<longleftrightarrow> u = t \<and> \<not> b"
  "has_taken (W_finish_lock u) b t \<longleftrightarrow> u = t \<and> b" "has_taken (W_push u) b t \<longleftrightarrow> u = t \<and> b"
  "\<not> has_taken W_finish_unlock b t" "\<not> has_taken W_abort_unlock b t" "\<not> has_taken W_exited b t"
  by (auto simp: has_taken_def)

lemma submits_simps [simp]:
  "\<not> submits L_client t" "submits (L_submit_lock u) t \<longleftrightarrow> u = t" "submits (L_submit_push u) t \<longleftrightarrow> u = t"
  "\<not> submits L_submit_signal t" "\<not> submits L_submit_unlock t" "\<not> submits L_collect_lock t"
  "\<not> submits L_collect t" "\<not> submits L_collect_unlock t" "\<not> submits L_done t" "\<not> submits L_ref t"
  by (auto simp: submits_def)

lemma cond_signal_tasks:
  assumes "cond_signal w w'"
  shows "tasks w' = tasks w" "ntasks w' = ntasks w" "pnodes w' = pnodes w" "ctx w' = ctx w"
    "tasks_done w' = tasks_done w" "taskmem w' = taskmem w" "in_done w' = in_done w" "event_count w' = event_count w"
    "has_taken (wpc w' i) b t = has_taken (wpc w i) b t"
  using assms by (auto elim!: cond_signal.cases split: if_splits)

lemma rep_worker_tau:
  assumes "worker_step i w Tau w'" "pool_rep w a"
  shows "pool_rep w' a"
  using assms(1)
proof cases
  case (w_abort w1)
  note same = cond_signal_tasks [OF w_abort(4)] cond_signal_same [OF w_abort(4)]
  have "wpc w1 i = W_loop" using w_abort(2,4) by (auto elim!: cond_signal.cases)
  with w_abort show ?thesis
    using assms(2) by - (rule pool_rep_tau [OF assms(2)],
      auto simp: same collecting_def pool_rep_def dest: places_repD(5))
qed (rule pool_rep_tau [OF assms(2)];
  use assms(2) in \<open>auto simp: collecting_def pool_rep_def dest: places_repD(5)\<close>; fail)+

lemma rep_client_tau:
  assumes "client_step c w Tau w'" "pool_rep w a"
  shows "pool_rep w' a"
  using assms(1)
proof cases
  case (c_fill t f g)
  show ?thesis unfolding c_fill(1)
    by (rule pool_rep_tau [OF assms(2)])
      (use assms(2) in \<open>auto simp: collecting_def pool_rep_def dest: places_repD(5)\<close>)
qed

lemma rep_ender:
  assumes "ender_step w w'" "pool_rep w a"
  shows "pool_rep w' a"
  using assms(1)
proof cases
  case (e_abort w1)
  note same = cond_signal_tasks [OF e_abort(3)] cond_signal_same [OF e_abort(3)]
  show ?thesis unfolding e_abort(1)
    by (rule pool_rep_tau [OF assms(2)])
      (use assms(2) in \<open>auto simp: same collecting_def pool_rep_def dest: places_repD(5)\<close>)
qed (rule pool_rep_tau [OF assms(2)];
  use assms(2) in \<open>auto simp: collecting_def pool_rep_def dest: places_repD(5)\<close>; fail)+

lemma rep_loop_tau:
  assumes "loop_step c w Tau w'" "pool_rep w a"
  shows "pool_rep w' a"
proof -
  have Q: "queues_rep w a" and P: "places_rep w a" using assms(2) by (auto simp: pool_rep_def)
  note in_done = places_repD(5) [OF P]
  show ?thesis
    using assms(1)
  proof cases
    case (l_signal w1)
    note same = cond_signal_tasks [OF l_signal(4)] cond_signal_same [OF l_signal(4)]
    show ?thesis unfolding l_signal(1)
      by (rule pool_rep_tau [OF assms(2)]) (use l_signal in_done in \<open>auto simp: same collecting_def split: if_splits\<close>)
  next
    case l_collect_lock
    have "\<not> collecting w c" using l_collect_lock in_done [of c] by (auto simp: collecting_def)
    then have "collected a c = []" by (rule queues_repD(5) [OF Q])
    then show ?thesis unfolding l_collect_lock(1)
      by - (rule pool_rep_tau [OF assms(2)], use l_collect_lock in_done in \<open>auto simp: collecting_def split: if_splits\<close>)
  next
    case l_finished
    have "collecting w c" using l_finished by (simp add: collecting_def)
    from queues_repD(4) [OF Q this] have "collected a c = []"
      using l_finished queue_rep_empty by fastforce
    then show ?thesis unfolding l_finished(1)
      by - (rule pool_rep_tau [OF assms(2)], use l_finished in_done in \<open>auto simp: collecting_def split: if_splits\<close>)
  qed (rule pool_rep_tau [OF assms(2)]; use in_done in \<open>auto simp: collecting_def split: if_splits\<close>; fail)+
qed

section \<open>Steps with an event\<close>

text \<open>
  For such a step \<open>w'\<close> is compared with \<open>a'\<close> field by field; \<open>nodes_kept\<close> covers the queues it does not use.
\<close>

inductive_cases accept_cases: "client_step c w (Accept d t) w'"
inductive_cases enqueue_cases: "loop_step c w (Enqueue d t) w'"
inductive_cases take_cases: "worker_step i w (Take j t) w'"
inductive_cases work_cases: "worker_step i w (Work j t) w'"
inductive_cases finish_cases: "worker_step i w (Finish d t) w'"
inductive_cases collect_cases: "loop_step c w (Collect d t) w'"
inductive_cases done_cases: "loop_step c w (Done d t) w'"

lemma nodes_kept:
  assumes "\<And>u. u \<notin> S \<Longrightarrow> mem' (Task_node u) = mem (Task_node u)"
    and "queue_rep q mem (map Task_node ts)" "\<And>u. u \<in> set ts \<Longrightarrow> u \<notin> S"
  shows "queue_rep q mem' (map Task_node ts)"
  by (rule rep_frame [OF assms(2)]) (use assms(1,3) in blast)

lemma ready_kept:
  assumes "\<And>u. u \<notin> S \<Longrightarrow> mem' (Task_node u) = mem (Task_node u)" "node_ready mem (Task_node t)" "t \<notin> S"
  shows "node_ready mem' (Task_node t)"
  using assms by (simp add: node_ready_def)

lemma queues_repI:
  assumes "queue_rep (tasks w) (pnodes w) (map Task_node (queued a))" "ntasks w = of_nat (length (queued a))"
    "\<And>c. queue_rep (finished_tasks (ctx w c)) (pnodes w) (map Task_node (finished a c))"
    "\<And>c. collecting w c \<Longrightarrow> queue_rep (tasks_done w c) (pnodes w) (map Task_node (collected a c))"
    "\<And>c. \<not> collecting w c \<Longrightarrow> collected a c = []"
    "\<And>c t. place a t = Entering c \<Longrightarrow> node_ready (pnodes w) (Task_node t)"
    "\<And>i c t. place a t = Taken i c True \<Longrightarrow> node_ready (pnodes w) (Task_node t)"
  shows "queues_rep w a"
  using assms unfolding queues_rep_def by auto

lemma places_move:
  assumes "places_rep w a" "place a' = (place a)(t := p)"
    and "\<And>c u. submits (lpc w' c) u \<longleftrightarrow> (if u = t then p = Entering c else submits (lpc w c) u)"
    and "\<And>i b u. has_taken (wpc w' i) b u \<longleftrightarrow> (if u = t then \<exists>c. p = Taken i c b else has_taken (wpc w i) b u)"
    and "\<And>c. owner_loop p = Some c \<Longrightarrow> task_ctx (taskmem w' t) = c"
    and "\<And>u. u \<noteq> t \<Longrightarrow> task_ctx (taskmem w' u) = task_ctx (taskmem w u)"
    and "\<And>c. in_done w' c \<Longrightarrow> lpc w' c \<notin> {L_collect_lock, L_collect, L_collect_unlock, L_done, L_ref}"
  shows "places_rep w' a'"
  using assms(1) unfolding places_iff assms(2-4) using assms(5-7) by (auto; fail)

lemma places_at:
  assumes "places_rep w a"
  shows "submits (lpc w c) t \<longleftrightarrow> place a t = Entering c"
    "has_taken (wpc w i) b t \<longleftrightarrow> (\<exists>c. place a t = Taken i c b)"
    "owner_loop (place a t) = Some c \<Longrightarrow> task_ctx (taskmem w t) = c"
    "in_done w c \<Longrightarrow> lpc w c \<noteq> L_collect_lock \<and> lpc w c \<noteq> L_collect \<and> lpc w c \<noteq> L_collect_unlock \<and>
      lpc w c \<noteq> L_done \<and> lpc w c \<noteq> L_ref"
  using assms unfolding places_iff by auto

lemma rep_accept:
  assumes "client_step c w (Accept c t) w'" "pool_rep w a" "place a t = Idle"
  shows "spec_step a (Accept c t) (a\<lparr>place := (place a)(t := Entering c)\<rparr>) \<and>
    pool_rep w' (a\<lparr>place := (place a)(t := Entering c)\<rparr>)"
proof -
  have q: "queues_rep w a" and p: "places_rep w a" and ok: "spec_ok a"
    using assms(2) unfolding pool_rep_def by auto
  note Q = queues_repD [OF q] and S = spec_okD [OF ok]
  let ?mem = "queue_init_node (pnodes w) (Task_node t)"
  let ?a = "a\<lparr>place := (place a)(t := Entering c)\<rparr>"
  have "lpc w c = L_client" and w': "w' = w\<lparr>taskmem := (taskmem w)(t := (taskmem w t)\<lparr>task_ctx := c\<rparr>),
          ctx := (ctx w)(c := (ctx w c)\<lparr>refs := refs (ctx w c) + 1\<rparr>),
          pnodes := ?mem, lpc := (lpc w)(c := L_submit_lock t)\<rparr>"
    using assms(1) by (auto elim: client_step.cases)
  have step: "spec_step a (Accept c t) ?a" by (rule s_accept [OF assms(3)])
  have kept: "u \<notin> {t} \<Longrightarrow> ?mem (Task_node u) = pnodes w (Task_node u)" for u by simp
  have "queues_rep w' ?a"
  proof (rule queues_repI)
    show "queue_rep (tasks w') (pnodes w') (map Task_node (queued ?a))"
      unfolding w' using nodes_kept [OF kept Q(1)] S(2) [of t] assms(3) by auto
    show "queue_rep (finished_tasks (ctx w' d)) (pnodes w') (map Task_node (finished ?a d))" for d
      unfolding w' using nodes_kept [OF kept Q(3) [of d]] S(4) [of t d] assms(3) by auto
    show "queue_rep (tasks_done w' d) (pnodes w') (map Task_node (collected ?a d))" if "collecting w' d" for d
    proof -
      have "collecting w d" using that \<open>lpc w c = L_client\<close> unfolding w' by (auto simp: collecting_def split: if_splits)
      then show ?thesis
        unfolding w' using nodes_kept [OF kept Q(4) [of d]] S(6) [of t d] assms(3) by auto
    qed
    show "node_ready (pnodes w') (Task_node u)" if "place ?a u = Entering d" for u d
      unfolding w' using ready_kept [OF kept Q(6) [of u d]] that by (cases "u = t") auto
    show "node_ready (pnodes w') (Task_node u)" if "place ?a u = Taken i d True" for u i d
      unfolding w' using ready_kept [OF kept Q(7) [of u i d]] that by (auto split: if_splits)
  qed (use Q(2,5) \<open>lpc w c = L_client\<close> in \<open>auto simp: w' collecting_def split: if_splits\<close>)
  moreover have "places_rep w' ?a"
    by (rule places_move [OF p])
      (auto simp: w' assms(3) \<open>lpc w c = L_client\<close> places_at(1) [OF p, of _ t] places_at(2) [OF p, of _ _ t]
        places_at(3,4) [OF p] split: if_splits)
  ultimately show ?thesis using step spec_ok_step [OF step ok] by (simp add: pool_rep_def)
qed

lemma rep_enqueue:
  assumes "loop_step c w (Enqueue d t) w'" "pool_rep w a"
  shows "\<exists>a'. spec_step a (Enqueue d t) a' \<and> pool_rep w' a'"
proof -
  have q: "queues_rep w a" and p: "places_rep w a" and ok: "spec_ok a"
    using assms(2) unfolding pool_rep_def by auto
  note Q = queues_repD [OF q] and S = spec_okD [OF ok]
  obtain q' mem where d: "d = c" "lpc w c = L_submit_push t"
    and push: "queue_push (tasks w) (pnodes w) (Task_node t) = Inr (q', mem)"
    and w': "w' = w\<lparr>tasks := q', pnodes := mem, ntasks := ntasks w + 1, lpc := (lpc w)(c := L_submit_signal)\<rparr>"
    using assms(1) by (auto elim: loop_step.cases)
  have t: "place a t = Entering c" using places_repD(1) [OF p] d(2) by auto
  let ?a = "a\<lparr>place := (place a)(t := Queued c), queued := queued a @ [t]\<rparr>"
  have step: "spec_step a (Enqueue d t) ?a" unfolding d(1) by (rule s_enqueue [OF t])
  from push_task [OF Q(1) _ Q(6) [OF t]] S(2) [of t] t push
  have rep: "queue_rep q' mem (map Task_node (queued a @ [t]))"
    and kept: "\<And>u. u \<notin> set (queued a) \<union> {t} \<Longrightarrow> mem (Task_node u) = pnodes w (Task_node u)" by auto
  have "queues_rep w' ?a"
  proof (rule queues_repI)
    show "queue_rep (finished_tasks (ctx w' e)) (pnodes w') (map Task_node (finished ?a e))" for e
      unfolding w' using nodes_kept [where S = "set (queued a) \<union> {t}", OF kept Q(3) [of e]] S(2,4) t by force
    show "queue_rep (tasks_done w' e) (pnodes w') (map Task_node (collected ?a e))" if "collecting w' e" for e
    proof -
      have "collecting w e" using that d(2) unfolding w' by (auto simp: collecting_def split: if_splits)
      then show ?thesis unfolding w' using nodes_kept [where S = "set (queued a) \<union> {t}", OF kept Q(4) [of e]] S(2,6) t by force
    qed
    show "node_ready (pnodes w') (Task_node u)" if "place ?a u = Entering e" for u e
      unfolding w' using ready_kept [where S = "set (queued a) \<union> {t}", OF kept Q(6) [of u e]] S(2) [of u] that by (auto split: if_splits)
    show "node_ready (pnodes w') (Task_node u)" if "place ?a u = Taken i e True" for u i e
      unfolding w' using ready_kept [where S = "set (queued a) \<union> {t}", OF kept Q(7) [of u i e]] S(2) [of u] that by (auto split: if_splits)
  qed (use rep Q(2,5) d(2) in \<open>auto simp: w' collecting_def split: if_splits\<close>)
  moreover have "places_rep w' ?a"
    by (rule places_move [OF p])
      (auto simp: w' t d places_at(1) [OF p, of _ t] places_at(2) [OF p, of _ _ t] places_at(3,4) [OF p]
        split: if_splits)
  ultimately show ?thesis using step spec_ok_step [OF step ok] by (auto simp: pool_rep_def)
qed

lemma rep_take:
  assumes "worker_step i w (Take j t) w'" "pool_rep w a"
  shows "\<exists>a'. spec_step a (Take j t) a' \<and> pool_rep w' a'"
proof -
  have q: "queues_rep w a" and p: "places_rep w a" and ok: "spec_ok a"
    using assms(2) unfolding pool_rep_def by auto
  note Q = queues_repD [OF q] and S = spec_okD [OF ok]
  obtain q' mem where d: "j = i" "wpc w i = W_loop" "ntasks w \<noteq> 0"
    and pop: "queue_pop (tasks w) (pnodes w) = Inr (Some (Task_node t), q', mem)"
    and w': "w' = w\<lparr>tasks := q', pnodes := mem, ntasks := ntasks w - 1, wpc := (wpc w)(i := W_unlock t)\<rparr>"
    using assms(1) by (auto elim: worker_step.cases)
  from d(3) ntasks_0 [OF assms(2)] obtain u ts where u: "queued a = u # ts" by (cases "queued a") auto
  from pop_task [OF Q(1) [unfolded u]] pop have [simp]: "u = t"
    and rep: "queue_rep q' mem (map Task_node ts)"
    and kept: "\<And>v. v \<notin> set (t # ts) \<Longrightarrow> mem (Task_node v) = pnodes w (Task_node v)" by (auto; fail)+
  note u = u [simplified]
  obtain c where t: "place a t = Queued c" using S(2) [of t] u by auto
  have ts: "v \<in> set ts \<Longrightarrow> \<exists>c. place a v = Queued c" for v using S(2) [of v] u by auto
  let ?a = "a\<lparr>place := (place a)(t := Taken i c False), queued := ts\<rparr>"
  have step: "spec_step a (Take j t) ?a" unfolding d(1) by (rule s_take [OF u t])
  have "queues_rep w' ?a"
  proof (rule queues_repI)
    show "queue_rep (finished_tasks (ctx w' e)) (pnodes w') (map Task_node (finished ?a e))" for e
      unfolding w' using nodes_kept [where S = "set (t # ts)", OF kept Q(3) [of e]] S(4) t ts by force
    show "queue_rep (tasks_done w' e) (pnodes w') (map Task_node (collected ?a e))" if "collecting w' e" for e
    proof -
      have "collecting w e" using that unfolding w' by (simp add: collecting_def)
      then show ?thesis unfolding w' using nodes_kept [where S = "set (t # ts)", OF kept Q(4) [of e]] S(6) t ts by force
    qed
    show "node_ready (pnodes w') (Task_node v)" if "place ?a v = Entering e" for v e
      unfolding w' using ready_kept [where S = "set (t # ts)", OF kept Q(6) [of v e]] ts [of v] that by (auto split: if_splits)
    show "node_ready (pnodes w') (Task_node v)" if "place ?a v = Taken k e True" for v k e
      unfolding w' using ready_kept [where S = "set (t # ts)", OF kept Q(7) [of v k e]] ts [of v] that by (auto split: if_splits)
  qed (use rep Q(2,5) u in \<open>auto simp: w' collecting_def\<close>)
  moreover have "places_rep w' ?a"
    by (rule places_move [OF p])
      (auto simp: w' t d places_at(1) [OF p, of _ t] places_at(2) [OF p, of _ _ t] places_at(3,4) [OF p]
        split: if_splits)
  ultimately show ?thesis using step spec_ok_step [OF step ok] by (auto simp: pool_rep_def)
qed

lemma rep_work:
  assumes "worker_step i w (Work j t) w'" "pool_rep w a"
  shows "\<exists>a'. spec_step a (Work j t) a' \<and> pool_rep w' a'"
proof -
  have q: "queues_rep w a" and p: "places_rep w a" and ok: "spec_ok a"
    using assms(2) unfolding pool_rep_def by auto
  note Q = queues_repD [OF q] and S = spec_okD [OF ok]
  let ?mem = "queue_init_node (pnodes w) (Task_node t)"
  have d: "j = i" "wpc w i = W_work t"
    and w': "w' = w\<lparr>pnodes := ?mem, wpc := (wpc w)(i := W_finish_lock t)\<rparr>"
    using assms(1) by (auto elim: worker_step.cases)
  obtain c where t: "place a t = Taken i c False" using places_repD(2) [OF p, of t i] d(2) by auto
  let ?a = "a\<lparr>place := (place a)(t := Taken i c True)\<rparr>"
  have step: "spec_step a (Work j t) ?a" unfolding d(1) by (rule s_work [OF t])
  have kept: "u \<notin> {t} \<Longrightarrow> ?mem (Task_node u) = pnodes w (Task_node u)" for u by simp
  have "queues_rep w' ?a"
  proof (rule queues_repI)
    show "queue_rep (tasks w') (pnodes w') (map Task_node (queued ?a))"
      unfolding w' using nodes_kept [OF kept Q(1)] S(2) [of t] t by auto
    show "queue_rep (finished_tasks (ctx w' d)) (pnodes w') (map Task_node (finished ?a d))" for d
      unfolding w' using nodes_kept [OF kept Q(3) [of d]] S(4) [of t d] t by auto
    show "queue_rep (tasks_done w' d) (pnodes w') (map Task_node (collected ?a d))" if "collecting w' d" for d
    proof -
      have "collecting w d" using that unfolding w' by (simp add: collecting_def)
      then show ?thesis
        unfolding w' using nodes_kept [OF kept Q(4) [of d]] S(6) [of t d] t by auto
    qed
    show "node_ready (pnodes w') (Task_node u)" if "place ?a u = Entering d" for u d
      unfolding w' using ready_kept [OF kept Q(6) [of u d]] that by (auto split: if_splits)
    show "node_ready (pnodes w') (Task_node u)" if "place ?a u = Taken k d True" for u k d
      unfolding w' using ready_kept [OF kept Q(7) [of u k d]] that by (cases "u = t") auto
  qed (use Q(2,5) in \<open>auto simp: w' collecting_def\<close>)
  moreover have "places_rep w' ?a"
    by (rule places_move [OF p])
      (auto simp: w' t d places_at(1) [OF p, of _ t] places_at(2) [OF p, of _ _ t] places_at(3,4) [OF p]
        split: if_splits)
  ultimately show ?thesis using step spec_ok_step [OF step ok] by (auto simp: pool_rep_def)
qed

lemma rep_finish:
  assumes "worker_step i w (Finish d t) w'" "pool_rep w a"
  shows "\<exists>a'. spec_step a (Finish d t) a' \<and> pool_rep w' a'"
proof -
  have q: "queues_rep w a" and p: "places_rep w a" and ok: "spec_ok a"
    using assms(2) unfolding pool_rep_def by auto
  note Q = queues_repD [OF q] and S = spec_okD [OF ok]
  obtain q' mem n where d: "d = task_ctx (taskmem w t)" "wpc w i = W_push t"
    and push: "queue_push (finished_tasks (ctx w (task_ctx (taskmem w t)))) (pnodes w) (Task_node t) = Inr (q', mem)"
    and w': "w' = w\<lparr>ctx := (ctx w)(task_ctx (taskmem w t) := (ctx w (task_ctx (taskmem w t)))\<lparr>finished_tasks := q'\<rparr>),
          pnodes := mem, event_count := (event_count w)(task_ctx (taskmem w t) := n),
          wpc := (wpc w)(i := W_finish_unlock)\<rparr>"
    by (rule finish_cases [OF assms(1)]) (rule that; assumption)
  obtain c where t: "place a t = Taken i c True" using places_repD(3) [OF p, of t i] d(2) by auto
  have dc: "task_ctx (taskmem w t) = c" using places_repD(4) [OF p, of t c] t by simp
  let ?a = "a\<lparr>place := (place a)(t := Finished c), finished := (finished a)(c := finished a c @ [t])\<rparr>"
  have step: "spec_step a (Finish d t) ?a" unfolding d(1) dc by (rule s_finish [OF t])
  from push_task [OF Q(3) [of c] _ Q(7) [OF t]] S(4) [of t c] t push [unfolded dc]
  have rep: "queue_rep q' mem (map Task_node (finished a c @ [t]))"
    and kept: "\<And>u. u \<notin> set (finished a c) \<union> {t} \<Longrightarrow> mem (Task_node u) = pnodes w (Task_node u)" by auto
  note keep = nodes_kept [where S = "set (finished a c) \<union> {t}" and mem' = mem and mem = "pnodes w", OF kept]
    and ready = ready_kept [where S = "set (finished a c) \<union> {t}" and mem' = mem and mem = "pnodes w", OF kept]
  have "queues_rep w' ?a"
  proof (rule queues_repI)
    show "queue_rep (tasks w') (pnodes w') (map Task_node (queued ?a))"
      unfolding w' using keep [OF _ Q(1)] S(2,4) t by force
    show "queue_rep (finished_tasks (ctx w' e)) (pnodes w') (map Task_node (finished ?a e))" for e
      unfolding w' dc using rep keep [OF _ Q(3) [of e]] S(4) t by force
    show "queue_rep (tasks_done w' e) (pnodes w') (map Task_node (collected ?a e))" if "collecting w' e" for e
    proof -
      have "collecting w e" using that unfolding w' by (simp add: collecting_def)
      then show ?thesis unfolding w' using keep [OF _ Q(4) [of e]] S(4,6) t by force
    qed
    show "node_ready (pnodes w') (Task_node u)" if "place ?a u = Entering e" for u e
      unfolding w' using ready [OF _ Q(6) [of u e]] S(4) [of u] that by (auto split: if_splits)
    show "node_ready (pnodes w') (Task_node u)" if "place ?a u = Taken k e True" for u k e
      unfolding w' using ready [OF _ Q(7) [of u k e]] S(4) [of u] that by (auto split: if_splits)
  qed (use Q(2,5) in \<open>auto simp: w' collecting_def\<close>)
  moreover have "places_rep w' ?a"
    by (rule places_move [OF p])
      (auto simp: w' t d dc places_at(1) [OF p, of _ t] places_at(2) [OF p, of _ _ t] places_at(3,4) [OF p]
        split: if_splits)
  ultimately show ?thesis using step spec_ok_step [OF step ok] by (auto simp: pool_rep_def)
qed

lemma rep_collect:
  assumes "loop_step c w (Collect d t) w'" "pool_rep w a"
  shows "\<exists>a'. spec_step a (Collect d t) a' \<and> pool_rep w' a'"
proof -
  have q: "queues_rep w a" and p: "places_rep w a" and ok: "spec_ok a"
    using assms(2) unfolding pool_rep_def by auto
  note Q = queues_repD [OF q] and S = spec_okD [OF ok]
  obtain q1 m1 q2 m2 where d: "d = c" "lpc w c = L_collect" "\<not> queue_empty (finished_tasks (ctx w c))"
    and pop: "queue_pop (finished_tasks (ctx w c)) (pnodes w) = Inr (Some (Task_node t), q1, m1)"
    and push: "queue_push (tasks_done w c) m1 (Task_node t) = Inr (q2, m2)"
    and w': "w' = w\<lparr>ctx := (ctx w)(c := (ctx w c)\<lparr>finished_tasks := q1\<rparr>), pnodes := m2,
          tasks_done := (tasks_done w)(c := q2)\<rparr>"
    by (rule collect_cases [OF assms(1)]) (rule that; assumption)
  have col: "collecting w c" using d by (simp add: collecting_def)
  from d(3) queue_rep_empty [OF Q(3) [of c]] obtain u ts where u: "finished a c = u # ts"
    by (cases "finished a c") auto
  from pop_task [OF Q(3) [of c, unfolded u]] pop have [simp]: "u = t"
    and rep1: "queue_rep q1 m1 (map Task_node ts)" and ready1: "node_ready m1 (Task_node t)"
    and kept1: "\<And>v. v \<notin> set (t # ts) \<Longrightarrow> m1 (Task_node v) = pnodes w (Task_node v)" by (auto; fail)+
  note u = u [simplified]
  have f: "v \<in> set (t # ts) \<longleftrightarrow> place a v = Finished c" for v using S(4) [of v c] u by simp
  have t: "place a t = Finished c" using f [of t] by simp
  have tts: "t \<notin> set ts" using S(3) [of c] u by simp
  have f_ts: "v \<in> set ts \<Longrightarrow> place a v = Finished c" for v using f [of v] by simp
  have "queue_rep (tasks_done w c) m1 (map Task_node (collected a c))"
    by (rule nodes_kept [where S = "set (t # ts)", OF kept1 Q(4) [OF col]]) (use S(6) f in auto)
  from push_task [OF this _ ready1] S(6) [of t c] t push
  have rep2: "queue_rep q2 m2 (map Task_node (collected a c @ [t]))"
    and kept2: "\<And>v. v \<notin> set (collected a c) \<union> {t} \<Longrightarrow> m2 (Task_node v) = m1 (Task_node v)" by auto
  let ?S = "set (t # ts) \<union> set (collected a c)"
  have kept: "v \<notin> ?S \<Longrightarrow> m2 (Task_node v) = pnodes w (Task_node v)" for v
    using kept1 [of v] kept2 [of v] by auto
  note keep = nodes_kept [where S = ?S and mem' = m2 and mem = "pnodes w", OF kept]
    and ready = ready_kept [where S = ?S and mem' = m2 and mem = "pnodes w", OF kept]
  let ?a = "a\<lparr>place := (place a)(t := Collected c), finished := (finished a)(c := ts),
    collected := (collected a)(c := collected a c @ [t])\<rparr>"
  have step: "spec_step a (Collect d t) ?a" unfolding d(1) by (rule s_collect [OF u])
  have "queues_rep w' ?a"
  proof (rule queues_repI)
    show "queue_rep (tasks w') (pnodes w') (map Task_node (queued ?a))"
      unfolding w' using keep [OF _ Q(1)] S(2,6) f by force
    show "queue_rep (finished_tasks (ctx w' e)) (pnodes w') (map Task_node (finished ?a e))" for e
    proof (cases "e = c")
      case True
      have "queue_rep q1 m2 (map Task_node ts)"
        by (rule nodes_kept [where S = "set (collected a c) \<union> {t}", OF kept2 rep1]) (use tts f_ts S(6) in auto)
      with True show ?thesis unfolding w' by simp
    next
      case False
      then show ?thesis unfolding w' using keep [OF _ Q(3) [of e]] S(4) [of _ e] S(6) [of _ c] f by force
    qed
    show "queue_rep (tasks_done w' e) (pnodes w') (map Task_node (collected ?a e))" if "collecting w' e" for e
    proof (cases "e = c")
      case False
      have "collecting w e" using that unfolding w' by (simp add: collecting_def)
      with False show ?thesis unfolding w' using keep [OF _ Q(4) [of e]] S(6) f by force
    qed (use rep2 in \<open>simp add: w'\<close>)
    show "node_ready (pnodes w') (Task_node v)" if "place ?a v = Entering e" for v e
      unfolding w' using ready [OF _ Q(6) [of v e]] S(6) [of v] f [of v] that by (auto split: if_splits)
    show "node_ready (pnodes w') (Task_node v)" if "place ?a v = Taken k e True" for v k e
      unfolding w' using ready [OF _ Q(7) [of v k e]] S(6) [of v] f [of v] that by (auto split: if_splits)
  qed (use Q(2,5) col in \<open>auto simp: w' collecting_def\<close>)
  moreover have "places_rep w' ?a"
    by (rule places_move [OF p])
      (auto simp: w' t d places_at(1) [OF p, of _ t] places_at(2) [OF p, of _ _ t] places_at(3,4) [OF p]
        split: if_splits)
  ultimately show ?thesis using step spec_ok_step [OF step ok] by (auto simp: pool_rep_def)
qed

lemma rep_done:
  assumes "loop_step c w (Done d t) w'" "pool_rep w a"
  shows "\<exists>a'. spec_step a (Done d t) a' \<and> pool_rep w' a'"
proof -
  have q: "queues_rep w a" and p: "places_rep w a" and ok: "spec_ok a"
    using assms(2) unfolding pool_rep_def by auto
  note Q = queues_repD [OF q] and S = spec_okD [OF ok]
  obtain q' mem b where d: "d = c" "lpc w c = L_done" "\<not> queue_empty (tasks_done w c)"
    and pop: "queue_pop (tasks_done w c) (pnodes w) = Inr (Some (Task_node t), q', mem)"
    and w': "w' = w\<lparr>pnodes := mem, tasks_done := (tasks_done w)(c := q'), in_done := (in_done w)(c := b),
          lpc := (lpc w)(c := if b then L_client else L_ref)\<rparr>"
    by (rule done_cases [OF assms(1)]) (rule that; assumption)
  have col: "collecting w c" using d by (simp add: collecting_def)
  from d(3) queue_rep_empty [OF Q(4) [OF col]] obtain u ts where u: "collected a c = u # ts"
    by (cases "collected a c") auto
  from pop_task [OF Q(4) [OF col, unfolded u]] pop have [simp]: "u = t"
    and rep: "queue_rep q' mem (map Task_node ts)"
    and kept: "\<And>v. v \<notin> set (t # ts) \<Longrightarrow> mem (Task_node v) = pnodes w (Task_node v)" by (auto; fail)+
  note u = u [simplified]
  have f: "v \<in> set (t # ts) \<longleftrightarrow> place a v = Collected c" for v using S(6) [of v c] u by simp
  then have t: "place a t = Collected c" using f [of t] by simp
  have tts: "t \<notin> set ts" using S(5) [of c] u by simp
  note keep = nodes_kept [where S = "set (t # ts)" and mem' = mem and mem = "pnodes w", OF kept]
    and ready = ready_kept [where S = "set (t # ts)" and mem' = mem and mem = "pnodes w", OF kept]
  let ?a = "a\<lparr>place := (place a)(t := Idle), collected := (collected a)(c := ts)\<rparr>"
  have step: "spec_step a (Done d t) ?a" unfolding d(1) by (rule s_done [OF u])
  have cw: "collecting w' e = collecting w e" for e
    using col d(2) by (auto simp: w' collecting_def)
  have "queues_rep w' ?a"
  proof (rule queues_repI)
    show "queue_rep (tasks w') (pnodes w') (map Task_node (queued ?a))"
      unfolding w' using keep [OF _ Q(1)] S(2) f by force
    show "queue_rep (finished_tasks (ctx w' e)) (pnodes w') (map Task_node (finished ?a e))" for e
      unfolding w' using keep [OF _ Q(3) [of e]] S(4) f by force
    show "queue_rep (tasks_done w' e) (pnodes w') (map Task_node (collected ?a e))" if "collecting w' e" for e
    proof (cases "e = c")
      case False
      with that show ?thesis unfolding w' using keep [OF _ Q(4) [of e]] cw [of e] S(6) f w' by force
    qed (use rep in \<open>simp add: w'\<close>)
    show "node_ready (pnodes w') (Task_node v)" if "place ?a v = Entering e" for v e
      unfolding w' using ready [OF _ Q(6) [of v e]] f [of v] that by (auto split: if_splits)
    show "node_ready (pnodes w') (Task_node v)" if "place ?a v = Taken k e True" for v k e
      unfolding w' using ready [OF _ Q(7) [of v k e]] f [of v] that by (auto split: if_splits)
  qed (use Q(2,5) cw col in \<open>auto simp: w'\<close>)
  moreover have "places_rep w' ?a"
    by (rule places_move [OF p])
      (auto simp: w' t d places_at(1) [OF p, of _ t] places_at(2) [OF p, of _ _ t] places_at(3,4) [OF p]
        split: if_splits)
  ultimately show ?thesis using step spec_ok_step [OF step ok] by (auto simp: pool_rep_def)
qed

section \<open>Runs refine the specification\<close>

lemma worker_step_event:
  assumes "worker_step i w e w'"
  obtains "e = Tau" | t where "e = Take i t" | t where "e = Work i t" | c t where "e = Finish c t"
  using assms by cases auto

lemma loop_step_event:
  assumes "loop_step c w e w'"
  obtains "e = Tau" | t where "e = Enqueue c t" | t where "e = Collect c t" | t where "e = Done c t"
  using assms by cases auto

lemma internal_simulated:
  assumes "internal_step w e w'" "pool_rep w a"
  shows "\<exists>a'. spec_step a e a' \<and> pool_rep w' a'"
  using assms(1)
proof cases
  case (of_worker i)
  from of_worker show ?thesis
  proof (cases rule: worker_step_event)
    case 1
    with of_worker have "pool_rep w' a" using rep_worker_tau assms(2) by simp
    with 1 show ?thesis using s_tau by blast
  next
    case (2 t)
    with of_worker show ?thesis using rep_take assms(2) by simp
  next
    case (3 t)
    with of_worker show ?thesis using rep_work assms(2) by simp
  next
    case (4 c t)
    with of_worker show ?thesis using rep_finish assms(2) by simp
  qed
next
  case (of_loop c)
  from of_loop show ?thesis
  proof (cases rule: loop_step_event)
    case 1
    with of_loop have "pool_rep w' a" using rep_loop_tau assms(2) by simp
    with 1 show ?thesis using s_tau by blast
  next
    case (2 t)
    with of_loop show ?thesis using rep_enqueue assms(2) by simp
  next
    case (3 t)
    with of_loop show ?thesis using rep_collect assms(2) by simp
  next
    case (4 t)
    with of_loop show ?thesis using rep_done assms(2) by simp
  qed
next
  case of_ender
  then show ?thesis using assms(2) rep_ender s_tau by blast
qed

lemma environment_simulated:
  assumes "environment_step w e w'" "pool_rep w a" "control w" "\<And>c t. e = Accept c t \<Longrightarrow> place a t = Idle"
  shows "\<exists>a'. spec_step a e a' \<and> pool_rep w' a'"
  using assms(1)
proof cases
  case (of_client c)
  show ?thesis
  proof (cases e)
    case Tau
    then show ?thesis using of_client rep_client_tau assms(2) s_tau by blast
  next
    case (Refused d t)
    then have "w' = w" using of_client by (auto elim: client_step.cases)
    then show ?thesis using Refused assms(2) s_refused by blast
  next
    case (Accept d t)
    moreover have "d = c" using of_client Accept by (auto elim: client_step.cases)
    ultimately show ?thesis using of_client rep_accept assms(2,4) by blast
  qed (use of_client in \<open>auto elim: client_step.cases\<close>)
next
  case (wake_up i)
  have "pool_rep w' a" unfolding wake_up(2)
    by (rule pool_rep_tau [OF assms(2)])
      (use assms(2) wake_up in \<open>auto simp: collecting_def pool_rep_def split: if_splits dest: places_repD(5)\<close>)
  then show ?thesis using wake_up s_tau by blast
next
  case (init n)
  have "pool_rep (pd_threadpool_init n w) a"
  proof (cases "nthreads w = 0")
    case True
    then have "wpc w i = W_exited" for i using assms(3) by (auto simp: control_def workers_ok_def)
    then show ?thesis
      by - (rule pool_rep_tau [OF assms(2)],
        use assms(2) True in \<open>auto simp: pd_threadpool_init_def Let_def collecting_def pool_rep_def dest: places_repD(5)\<close>)
  next
    case False
    then show ?thesis using assms(2) by (simp add: pd_threadpool_init_def)
  qed
  then show ?thesis using init s_tau by blast
next
  case end_call
  have "pool_rep w' a" unfolding end_call(2)
    by (rule pool_rep_tau [OF assms(2)])
      (use assms(2) in \<open>auto simp: collecting_def pool_rep_def dest: places_repD(5)\<close>)
  then show ?thesis using end_call s_tau by blast
qed

text \<open>The state in which the process starts: no pool, no task, no loop in the code of the pool.\<close>

definition pool_start :: "pool \<Rightarrow> bool" where
  "pool_start w \<longleftrightarrow> nthreads w = 0 \<and> waiting_threads w = 0 \<and> mux w = Destroyed \<and> queue_empty (tasks w) \<and>
     ntasks w = 0 \<and> \<not> abort_threads w \<and> wpc w = (\<lambda>_. W_exited) \<and> lpc w = (\<lambda>_. L_client) \<and> epc w = E_idle \<and>
     in_done w = (\<lambda>_. False) \<and> event_count w = (\<lambda>_. 0) \<and>
     (\<forall>c. queue_empty (finished_tasks (ctx w c)) \<and> \<not> task_signaled (ctx w c))"

lemma queue_rep_Nil: "queue_rep q mem [] \<longleftrightarrow> queue_empty q"
  by (simp add: queue_rep_def queue_empty_def)

lemma start_control: "pool_start w \<Longrightarrow> control w"
  by (simp add: pool_start_def control_def exclusive_iff workers_ok_def ender_ok_def sleeping_def)

lemma start_rep: "pool_start w \<Longrightarrow> pool_rep w spec_start"
  by (simp add: pool_start_def pool_rep_def queues_rep_def places_rep_def spec_start_def queue_rep_Nil
      collecting_def spec_ok_start [unfolded spec_start_def])

lemma pool_step_refines:
  assumes "pool_step w e w'" "pool_rep w a" "control w" "\<And>c t. e = Accept c t \<Longrightarrow> place a t = Idle"
  shows "\<exists>a'. spec_step a e a' \<and> pool_rep w' a'"
  using assms internal_simulated environment_simulated unfolding pool_step_def by metis

lemma pool_run_refines:
  "pool_run w es w' \<Longrightarrow> pool_start w \<Longrightarrow> proper {} es \<Longrightarrow> \<exists>a. spec_run es a \<and> pool_rep w' a \<and> control w'"
proof (induction rule: pool_run.induct)
  case pool_run_start
  then show ?case using start_rep start_control spec_run_start by blast
next
  case (pool_run_step es w1 e w2)
  then obtain a where a: "spec_run es a" "pool_rep w1 a" "control w1" by auto
  have "place a t = Idle" if "e = Accept c t" for c t
    using pool_run_step(5) that spec_run_under_way [OF a(1)] by simp
  then obtain a' where "spec_step a e a'" "pool_rep w2 a'"
    using pool_step_refines [OF pool_run_step(2) a(2,3)] by metis
  moreover have "control w2" by (rule control_step [OF pool_run_step(2) a(3)])
  ultimately show ?case using spec_run_step [OF a(1)] by blast
qed

end
