(* ===== verification/Threadpool_Wakeup.thy ===== *)
theory Threadpool_Wakeup
  imports Threadpool_Refines
begin

text \<open>
  No wake-up is lost: while a worker sleeps there are enough workers awake for the queued tasks; when the pool
  is being ended somebody is left to pass the signal on; a loop with finished tasks has been notified. And the
  references each loop holds are exactly its tasks under way.
\<close>

section \<open>Workers\<close>

definition idle :: "worker_pc \<Rightarrow> bool" where
  "idle p \<longleftrightarrow> p \<in> {W_lock, W_loop, W_woken, W_finish_unlock}"

lemma idle_simps [simp]:
  "idle W_lock" "idle W_loop" "idle W_woken" "idle W_finish_unlock" "\<not> idle W_waiting" "\<not> idle (W_unlock t)"
  "\<not> idle (W_work t)" "\<not> idle (W_finish_lock t)" "\<not> idle (W_push t)" "\<not> idle W_abort_unlock" "\<not> idle W_exited"
  by (simp_all add: idle_def)

definition awake :: "pool \<Rightarrow> nat" where
  "awake w = card {i. idle (wpc w i)}"

definition sleepers :: "pool \<Rightarrow> bool" where
  "sleepers w \<longleftrightarrow> (\<exists>i. wpc w i = W_waiting)"

definition signaling :: "pool \<Rightarrow> bool" where
  "signaling w \<longleftrightarrow> (\<exists>c. lpc w c = L_submit_signal)"

text \<open>A submission that has not signaled yet counts as one more worker.\<close>

definition enough_awake :: "pool \<Rightarrow> bool" where
  "enough_awake w \<longleftrightarrow>
     (\<not> abort_threads w \<longrightarrow> sleepers w \<longrightarrow> unat (ntasks w) \<le> awake w + of_bool (signaling w))"

definition signal_passed_on :: "pool \<Rightarrow> bool" where
  "signal_passed_on w \<longleftrightarrow>
     (abort_threads w \<longrightarrow> sleepers w \<longrightarrow> (\<exists>i. wpc w i \<notin> {W_waiting, W_exited, W_abort_unlock}))"

lemma idle_finite: "workers_ok w \<Longrightarrow> finite {i. idle (wpc w i)}"
  unfolding workers_ok_def by (rule finite_subset [of _ "{..<unat (nthreads w)}"]) (auto simp: idle_def)

lemma awake_upd:
  assumes "workers_ok w" "\<And>k. k \<noteq> i \<Longrightarrow> wpc w' k = wpc w k"
  shows "awake w' + of_bool (idle (wpc w i)) = awake w + of_bool (idle (wpc w' i))"
proof -
  have upd: "wpc w' = (wpc w)(i := wpc w' i)" using assms(2) by auto
  have "card {k. idle (wpc w' k)} + (if idle (wpc w i) then 1 else 0) =
      card {k. idle (wpc w k)} + (if idle (wpc w' i) then 1 else 0)"
    by (subst upd) (rule card_fun_upd [where P = idle, OF idle_finite [OF assms(1)]])
  then show ?thesis by (auto simp: awake_def split: if_splits)
qed

lemma awake_cong: "wpc w' = wpc w \<Longrightarrow> awake w' = awake w"
  by (simp add: awake_def)

lemma signal_awake:
  assumes "cond_signal w w'" "workers_ok w"
  shows "sleepers w' \<Longrightarrow> sleepers w \<and> awake w' = awake w + 1"
    "sleepers w' \<Longrightarrow> \<exists>j. wpc w j = W_waiting \<and> wpc w' j = W_woken \<and> (\<forall>k. k \<noteq> j \<longrightarrow> wpc w' k = wpc w k)"
proof -
  from assms have ex: "sleepers w' \<Longrightarrow>
      (\<exists>j. wpc w j = W_waiting \<and> wpc w' j = W_woken \<and> (\<forall>k. k \<noteq> j \<longrightarrow> wpc w' k = wpc w k))"
  proof (induction rule: cond_signal.induct)
    case (signal_none w)
    then obtain i where "wpc w i = W_waiting" by (auto simp: sleepers_def)
    then show ?case using signal_none workers_live [of w i] by auto
  qed auto
  then show "sleepers w' \<Longrightarrow> \<exists>j. wpc w j = W_waiting \<and> wpc w' j = W_woken \<and> (\<forall>k. k \<noteq> j \<longrightarrow> wpc w' k = wpc w k)" .
  have "awake w' = awake w + 1"
    if "wpc w j = W_waiting" "wpc w' j = W_woken" "\<forall>k. k \<noteq> j \<longrightarrow> wpc w' k = wpc w k" for j
    using awake_upd [OF assms(2), of j w'] that by simp
  with ex show "sleepers w' \<Longrightarrow> sleepers w \<and> awake w' = awake w + 1" by (auto simp: sleepers_def)
qed

lemma nobody_waits:
  assumes "workers_ok w" "waiting_threads w = 0"
  shows "\<not> sleepers w"
proof -
  have sub: "{i. sleeping (wpc w i)} \<subseteq> {..<unat (nthreads w)}"
    using workers_live [OF assms(1)] by (auto simp: sleeping_def)
  then have "card {i. sleeping (wpc w i)} \<le> unat (nthreads w)"
    using card_mono [OF _ sub] by simp
  also have "unat (nthreads w) < 2 ^ 64" using unsigned_less [of "nthreads w", where 'a = nat] by simp
  finally have lt: "card {i. sleeping (wpc w i)} < 2 ^ 64" .
  have "of_nat (card {i. sleeping (wpc w i)}) = (0 :: size_t)" using assms by (simp add: workers_ok_def)
  then have "unat (of_nat (card {i. sleeping (wpc w i)}) :: size_t) = 0" by simp
  then have "card {i. sleeping (wpc w i)} = 0" using lt by (simp add: unat_of_nat take_bit_nat_eq_self)
  then show ?thesis using workers_finite [OF assms(1)] by (auto simp: sleepers_def sleeping_def)
qed

lemma awake_worker:
  assumes "worker_step i w e w'" "workers_ok w" "enough_awake w"
  shows "enough_awake w'"
proof -
  have same: "signaling w' = signaling w"
    using assms(1) by cases (simp_all add: signaling_def cond_signal_same)
  have upd: "k \<noteq> i \<Longrightarrow> wpc w' k = wpc w k" if "\<not> abort_threads w" for k
    using assms(1) that by cases simp_all
  have ab: "abort_threads w' = abort_threads w"
    using assms(1) by cases (simp_all add: cond_signal_same)
  show ?thesis
  proof (cases "abort_threads w")
    case True
    with ab show ?thesis by (simp add: enough_awake_def)
  next
    case False
    have upd: "awake w' + of_bool (idle (wpc w i)) = awake w + of_bool (idle (wpc w' i))"
      by (rule awake_upd [OF assms(2)]) (rule upd [OF False])
    show ?thesis
      using assms(1)
    proof cases
      case (w_take t q mem)
      have "unat (ntasks w') = unat (ntasks w) - 1" using w_take(4) by (simp add: w_take(2) unat_minus_one)
      moreover have "sleepers w' \<Longrightarrow> sleepers w"
        by (auto simp: w_take(2) sleepers_def split: if_splits)
      moreover have "awake w' + 1 = awake w" using upd w_take(3) by (simp add: w_take(2))
      ultimately show ?thesis
        using assms(3) False same by (auto simp: enough_awake_def ab)
    next
      case w_wait
      then show ?thesis by (simp add: enough_awake_def)
    qed (use assms(3) False same upd in
        \<open>auto simp: enough_awake_def sleepers_def split: if_splits; fail\<close>)+
  qed
qed

lemma unat_inc_le: "unat ((x :: size_t) + 1) \<le> unat x + 1"
  by (simp add: unat_word_ariths)

lemma signaling_upd:
  assumes "\<And>d. d \<noteq> c \<Longrightarrow> lpc w' d = lpc w d" "lpc w c \<noteq> L_submit_signal" "lpc w' c \<noteq> L_submit_signal"
  shows "signaling w' = signaling w"
  unfolding signaling_def using assms by metis

lemma enough_awake_same:
  assumes "enough_awake w" "ntasks w' = ntasks w" "wpc w' = wpc w" "abort_threads w' = abort_threads w"
    "signaling w' = signaling w"
  shows "enough_awake w'"
  using assms by (simp add: enough_awake_def sleepers_def awake_def)

lemma awake_loop:
  assumes "loop_step c w e w'" "workers_ok w" "exclusive w" "enough_awake w"
  shows "enough_awake w'"
  using assms(1)
proof cases
  case (l_push t q mem)
  have "signaling w'" by (auto simp: l_push(2) signaling_def)
  moreover have "sleepers w' = sleepers w" "awake w' = awake w"
    by (simp_all add: l_push(2) sleepers_def awake_def)
  moreover have "\<not> signaling w"
  proof
    assume "signaling w"
    then obtain d where "lpc w d = L_submit_signal" by (auto simp: signaling_def)
    then show False using exclusiveD(2) [OF assms(3), of d] exclusiveD(2) [OF assms(3), of c] l_push(3) by auto
  qed
  ultimately show ?thesis
    using assms(4) unat_inc_le [of "ntasks w"] by (auto simp: l_push(2) enough_awake_def)
next
  case l_no_signal
  then have "\<not> sleepers w'" using nobody_waits [OF assms(2)] by (simp add: sleepers_def word_gt_0)
  then show ?thesis by (simp add: enough_awake_def)
next
  case (l_signal w1)
  note same = cond_signal_same [OF l_signal(5)] cond_signal_tasks [OF l_signal(5)]
  have "signaling w" using l_signal(3) by (auto simp: signaling_def)
  moreover have "sleepers w' = sleepers w1" "awake w' = awake w1"
    by (simp_all add: l_signal(2) sleepers_def awake_def)
  ultimately show ?thesis
    using assms(4) signal_awake(1) [OF l_signal(5) assms(2)]
    by (auto simp: l_signal(2) enough_awake_def same)
qed (rule enough_awake_same [OF assms(4)]; (rule signaling_upd [where c = c])?; simp; fail)+

lemma awake_client:
  assumes "client_step c w e w'" "enough_awake w"
  shows "enough_awake w'"
  using assms(1)
  by cases (rule enough_awake_same [OF assms(2)]; (rule signaling_upd [where c = c])?; simp; fail)+

lemma awake_ender:
  assumes "ender_step w w'" "workers_ok w" "ender_ok w" "enough_awake w"
  shows "enough_awake w'"
  using assms(1)
proof cases
  case (e_abort w1)
  then show ?thesis by (simp add: enough_awake_def cond_signal_same)
qed (rule enough_awake_same [OF assms(4)]; simp add: signaling_def; fail)+

lemma awake_wake_up:
  assumes "wpc w i = W_waiting" "workers_ok w" "enough_awake w"
  shows "enough_awake (set_wpc i W_woken w)"
proof -
  have "awake (set_wpc i W_woken w) = awake w + 1"
    using awake_upd [OF assms(2), of i "set_wpc i W_woken w"] assms(1) by simp
  moreover have "sleepers w" using assms(1) by (auto simp: sleepers_def)
  moreover have "signaling (set_wpc i W_woken w) = signaling w" by (simp add: signaling_def)
  ultimately show ?thesis using assms(3) by (auto simp: enough_awake_def)
qed

lemma init_awake:
  assumes "control w" "nthreads w = 0"
  shows "\<not> sleepers (pd_threadpool_init n w)"
proof -
  have "wpc w i = W_exited" for i using assms by (auto simp: control_def workers_ok_def)
  then show ?thesis using assms(2) by (simp add: pd_threadpool_init_def Let_def sleepers_def)
qed

section \<open>Ending\<close>

lemma passed_on_I: "wpc w i \<notin> {W_waiting, W_exited, W_abort_unlock} \<Longrightarrow> signal_passed_on w"
  by (auto simp: signal_passed_on_def)

lemma passed_on_signal:
  assumes "cond_signal w w1" "workers_ok w" "\<And>k. wpc w k = W_waiting \<Longrightarrow> wpc w' k = wpc w1 k" "sleepers w' \<Longrightarrow> sleepers w1"
  shows "signal_passed_on w'"
proof (cases "sleepers w'")
  case True
  then obtain j where "wpc w j = W_waiting" "wpc w1 j = W_woken"
    using signal_awake(2) [OF assms(1,2) assms(4)] by blast
  then show ?thesis using assms(3) [of j] by (intro passed_on_I [of _ j]) simp
qed (simp add: signal_passed_on_def)

lemma passed_on_worker:
  assumes "worker_step i w e w'" "workers_ok w" "signal_passed_on w"
  shows "signal_passed_on w'"
  using assms(1)
proof cases
  case (w_abort w1)
  show ?thesis
    by (rule passed_on_signal [OF w_abort(5) assms(2)])
      (use w_abort in \<open>auto simp: sleepers_def split: if_splits\<close>)
next
  case w_exit
  show ?thesis
  proof (cases "sleepers w' \<and> abort_threads w'")
    case True
    then have "sleepers w" "abort_threads w" by (auto simp: w_exit(2) sleepers_def split: if_splits)
    then obtain k where "wpc w k \<notin> {W_waiting, W_exited, W_abort_unlock}"
      using assms(3) by (auto simp: signal_passed_on_def)
    then show ?thesis using w_exit by (intro passed_on_I [of w' k]) auto
  qed (auto simp: signal_passed_on_def)
next
  case w_wait
  then show ?thesis by (simp add: signal_passed_on_def)
qed (rule passed_on_I [of _ i]; simp; fail)+

lemma passed_on_same:
  assumes "signal_passed_on w" "wpc w' = wpc w" "abort_threads w' = abort_threads w"
  shows "signal_passed_on w'"
  using assms by (simp add: signal_passed_on_def sleepers_def)

lemma passed_on_loop:
  assumes "loop_step c w e w'" "workers_ok w" "signal_passed_on w"
  shows "signal_passed_on w'"
  using assms(1)
proof cases
  case (l_signal w1)
  show ?thesis
    by (rule passed_on_signal [OF l_signal(5) assms(2)]) (simp_all add: l_signal(2) sleepers_def)
qed (rule passed_on_same [OF assms(3)]; simp; fail)+

lemma passed_on_client: "client_step c w e w' \<Longrightarrow> signal_passed_on w \<Longrightarrow> signal_passed_on w'"
  by (erule client_step.cases) (erule passed_on_same; simp; fail)+

lemma passed_on_ender:
  assumes "ender_step w w'" "workers_ok w" "signal_passed_on w"
  shows "signal_passed_on w'"
  using assms(1)
proof cases
  case (e_abort w1)
  show ?thesis
    by (rule passed_on_signal [OF e_abort(3) workers_abort [OF assms(2)]]) (simp_all add: e_abort(1) sleepers_def)
qed (rule passed_on_same [OF assms(3)]; simp; fail)+

section \<open>Notification of the loops\<close>

definition notified :: "pool \<Rightarrow> bool" where
  "notified w \<longleftrightarrow> (\<forall>c. \<not> queue_empty (finished_tasks (ctx w c)) \<longrightarrow>
     event_count w c \<noteq> 0 \<or> lpc w c \<in> {L_collect_lock, L_collect})"

lemma eventfd_write_positive: "eventfd_write n \<noteq> 0"
proof (cases "n < - 2")
  case True
  then have "n \<noteq> - 1" using word_order.extremum [of "- 2 :: uint64"] leD by blast
  then have "n + 1 \<noteq> 0" by (simp add: eq_neg_iff_add_eq_0)
  then show ?thesis using True by (simp add: eventfd_write_def)
next
  case False
  then show ?thesis by (auto simp: eventfd_write_def word_gt_0)
qed

lemma notified_worker:
  assumes "worker_step i w e w'" "\<And>c. \<not> task_signaled (ctx w c)" "notified w"
  shows "notified w'"
  using assms by cases (auto simp: notified_def cond_signal_same cond_signal_tasks eventfd_write_positive)

lemma notified_loop:
  assumes "loop_step c w e w'" "notified w"
  shows "notified w'"
  using assms by cases (auto simp: notified_def cond_signal_same cond_signal_tasks)

lemma notified_client: "client_step c w e w' \<Longrightarrow> notified w \<Longrightarrow> notified w'"
  by (erule client_step.cases) (auto simp: notified_def)

lemma notified_ender: "ender_step w w' \<Longrightarrow> notified w \<Longrightarrow> notified w'"
  by (erule ender_step.cases) (auto simp: notified_def cond_signal_same cond_signal_tasks)

section \<open>All of it\<close>

definition alert :: "pool \<Rightarrow> bool" where
  "alert w \<longleftrightarrow> enough_awake w \<and> signal_passed_on w \<and> notified w"

lemma alert_internal:
  assumes "internal_step w e w'" "control w" "alert w"
  shows "alert w'"
proof -
  have C: "exclusive w" "workers_ok w" "ender_ok w" "\<And>c. \<not> task_signaled (ctx w c)"
    and A: "enough_awake w" "signal_passed_on w" "notified w"
    using assms(2,3) by (auto simp: control_def alert_def)
  from assms(1) show ?thesis
  proof cases
    case (of_worker i)
    show ?thesis unfolding alert_def
      using awake_worker [OF of_worker C(2) A(1)] passed_on_worker [OF of_worker C(2) A(2)]
        notified_worker [OF of_worker C(4) A(3)] by blast
  next
    case (of_loop c)
    show ?thesis unfolding alert_def
      using awake_loop [OF of_loop C(2,1) A(1)] passed_on_loop [OF of_loop C(2) A(2)]
        notified_loop [OF of_loop A(3)] by blast
  next
    case of_ender
    show ?thesis unfolding alert_def
      using awake_ender [OF of_ender(2) C(2,3) A(1)] passed_on_ender [OF of_ender(2) C(2) A(2)]
        notified_ender [OF of_ender(2) A(3)] by blast
  qed
qed

lemma alert_environment:
  assumes "environment_step w e w'" "control w" "alert w"
  shows "alert w'"
proof -
  have C: "workers_ok w" and A: "enough_awake w" "signal_passed_on w" "notified w"
    using assms(2,3) by (auto simp: control_def alert_def)
  from assms(1) show ?thesis
  proof cases
    case (of_client c)
    show ?thesis unfolding alert_def
      using awake_client [OF of_client A(1)] passed_on_client [OF of_client A(2)]
        notified_client [OF of_client A(3)] by blast
  next
    case (wake_up i)
    have "signal_passed_on w'" using wake_up by (intro passed_on_I [of _ i]) simp
    moreover have "notified w'" using A(3) by (simp add: wake_up(2) notified_def)
    ultimately show ?thesis using awake_wake_up [OF wake_up(3) C A(1)] wake_up(2) by (simp add: alert_def)
  next
    case (init n)
    show ?thesis
    proof (cases "nthreads w = 0")
      case True
      have "notified w'" using A(3) by (simp add: init(2) notified_def pd_threadpool_init_def Let_def)
      then show ?thesis using init_awake [OF assms(2) True, of n] init(2)
        by (simp add: alert_def enough_awake_def signal_passed_on_def)
    next
      case False
      then show ?thesis using assms(3) init(2) by (simp add: pd_threadpool_init_def)
    qed
  next
    case end_call
    then show ?thesis
      using assms(3) by (simp add: alert_def enough_awake_def signal_passed_on_def notified_def sleepers_def
          awake_def signaling_def)
  qed
qed

lemma start_alert: "pool_start w \<Longrightarrow> alert w"
  by (simp add: alert_def pool_start_def enough_awake_def signal_passed_on_def notified_def sleepers_def)

lemma alert_run: "pool_run w es w' \<Longrightarrow> pool_start w \<Longrightarrow> alert w'"
proof (induction rule: pool_run.induct)
  case (pool_run_step es w1 e w2)
  have "control w1" by (rule control_run [OF pool_run_step(1) start_control [OF pool_run_step(4)]])
  with pool_run_step show ?case
    using alert_internal alert_environment unfolding pool_step_def by blast
qed (rule start_alert)

end
