(* ===== verification/Threadpool_Progress.thy ===== *)
theory Threadpool_Progress
  imports Threadpool_Wakeup
begin

text \<open>
  What the pool achieves when it is left to itself. A state in which no step of the code of the pool is
  enabled is one in which all work is done (\<open>settled\<close>), and every sequence of such steps ends: a measure
  of the work left decreases with each. Hence a settled state is reached on every schedule
  (\<open>inevitable\<close>), and so is the end of \<open>pd_threadpool_end\<close>.
\<close>

section \<open>References\<close>

definition loop_tasks :: "pool_spec \<Rightarrow> nat \<Rightarrow> nat" where
  "loop_tasks a c = card {t. owner_loop (place a t) = Some c}"

definition reporting :: "pool \<Rightarrow> nat \<Rightarrow> bool" where
  "reporting w c \<longleftrightarrow> in_done w c \<or> lpc w c = L_ref"

text \<open>\<open>r c\<close>: the references loop \<open>c\<close> holds for other reasons.\<close>

definition refs_exact :: "(nat \<Rightarrow> size_t) \<Rightarrow> pool \<Rightarrow> pool_spec \<Rightarrow> bool" where
  "refs_exact r w a \<longleftrightarrow> (\<forall>c. refs (ctx w c) = r c + of_nat (loop_tasks a c) + of_bool (reporting w c))"

lemma loop_tasks_upd:
  assumes "place a' = (place a)(t := p)"
  shows "loop_tasks a' c + of_bool (owner_loop (place a t) = Some c) = loop_tasks a c + of_bool (owner_loop p = Some c)"
proof -
  have "card {k. owner_loop (((place a)(t := p)) k) = Some c} + (if owner_loop (place a t) = Some c then 1 else 0) =
      card {k. owner_loop (place a k) = Some c} + (if owner_loop p = Some c then 1 else 0)"
    by (rule card_fun_upd [where P = "\<lambda>p. owner_loop p = Some c"]) simp
  then show ?thesis
    unfolding loop_tasks_def assms by (auto simp del: fun_upd_apply split: if_splits)
qed

lemma spec_step_refs:
  assumes "spec_step a e a'" "spec_ok a"
  shows "loop_tasks a' c + of_bool (\<exists>t. e = Done c t) = loop_tasks a c + of_bool (\<exists>t. e = Accept c t)"
  using assms(1)
proof cases
  case (s_collect d t ts)
  then have "place a t = Finished d" using spec_okD(4) [OF assms(2), of t d] by simp
  with s_collect loop_tasks_upd [of a' a t "Collected d" c] show ?thesis by (auto split: if_splits)
next
  case (s_done d t ts)
  then have "place a t = Collected d" using spec_okD(6) [OF assms(2), of t d] by simp
  with s_done loop_tasks_upd [of a' a t Idle c] show ?thesis by (auto split: if_splits)
next
  case (s_accept t d)
  with loop_tasks_upd [of a' a t "Entering d" c] show ?thesis by (auto split: if_splits)
next
  case (s_enqueue t d)
  with loop_tasks_upd [of a' a t "Queued d" c] show ?thesis by (auto split: if_splits)
next
  case (s_take t ts d i)
  with loop_tasks_upd [of a' a t "Taken i d False" c] show ?thesis by (auto split: if_splits)
next
  case (s_work t i d)
  with loop_tasks_upd [of a' a t "Taken i d True" c] show ?thesis by (auto split: if_splits)
next
  case (s_finish t i d)
  with loop_tasks_upd [of a' a t "Finished d" c] show ?thesis by (auto split: if_splits)
qed auto

text \<open>The references and the flag \<open>reporting\<close> change at the events \<open>Accept\<close> and \<open>Done\<close> and at \<open>l_ref\<close> only.\<close>

lemma refs_internal:
  assumes "internal_step w e w'" "pool_rep w a"
  shows "refs (ctx w' c) - of_bool (reporting w' c) = refs (ctx w c) - of_bool (reporting w c) - of_bool (\<exists>t. e = Done c t)"
proof -
  have p: "places_rep w a" using assms(2) by (simp add: pool_rep_def)
  have nd: "in_done w d \<Longrightarrow> lpc w d \<noteq> L_done \<and> lpc w d \<noteq> L_ref" for d using places_at(4) [OF p] by blast
  from assms(1) show ?thesis
  proof cases
    case (of_worker i)
    then show ?thesis
      by cases (auto simp: reporting_def cond_signal_same cond_signal_tasks)
  next
    case (of_loop d)
    then show ?thesis
      by cases (use nd [of d] in \<open>auto simp: reporting_def cond_signal_same cond_signal_tasks\<close>)
  next
    case of_ender
    from of_ender(2) show ?thesis
      by cases (auto simp: reporting_def cond_signal_same cond_signal_tasks of_ender(1))
  qed
qed

lemma refs_environment:
  assumes "environment_step w e w'"
  shows "refs (ctx w' c) - of_bool (reporting w' c) = refs (ctx w c) - of_bool (reporting w c) + of_bool (\<exists>t. e = Accept c t)"
  using assms
proof cases
  case (of_client d)
  then show ?thesis by cases (auto simp: reporting_def)
qed (auto simp: reporting_def pd_threadpool_init_def Let_def)

lemma balance:
  fixes x :: "'a::comm_ring_1"
  assumes "x - f' = y - f - d + b" "t' + d = t + b" "y = s + t + f"
  shows "x = s + t' + f'"
proof -
  have "x = (x - f') + f'" by simp
  also have "\<dots> = s + (t + b) - d + f'" unfolding assms(1,3) by (simp add: algebra_simps)
  also have "\<dots> = s + t' + f'" unfolding assms(2) [symmetric] by (simp add: algebra_simps)
  finally show ?thesis .
qed

lemma refs_step:
  assumes "pool_step w e w'" "pool_rep w a"
  shows "refs (ctx w' c) - of_bool (reporting w' c) =
      refs (ctx w c) - of_bool (reporting w c) - of_bool (\<exists>t. e = Done c t) + of_bool (\<exists>t. e = Accept c t)"
proof -
  have e: "\<And>t. e = Accept c t \<Longrightarrow> \<not> internal_step w e w'" "\<And>t. e = Done c t \<Longrightarrow> \<not> environment_step w e w'"
    by (auto elim!: internal_step.cases worker_step.cases loop_step.cases environment_step.cases client_step.cases)
  show ?thesis
    using assms(1) unfolding pool_step_def
  proof
    assume i: "internal_step w e w'"
    then have "\<not> (\<exists>t. e = Accept c t)" using e(1) by blast
    then show ?thesis using refs_internal [OF i assms(2), of c] by simp
  next
    assume i: "environment_step w e w'"
    then have "\<not> (\<exists>t. e = Done c t)" using e(2) by blast
    then show ?thesis using refs_environment [OF i, of c] by simp
  qed
qed

lemma refs_exact_step:
  assumes "pool_step w e w'" "pool_rep w a" "spec_step a e a'" "refs_exact r w a"
  shows "refs_exact r w' a'"
  unfolding refs_exact_def
proof
  fix c
  note r = refs_step [OF assms(1,2), of c]
  have "spec_ok a" using assms(2) by (simp add: pool_rep_def)
  from arg_cong [OF spec_step_refs [OF assms(3) this, of c], of "of_nat :: nat \<Rightarrow> size_t"]
  have t: "of_nat (loop_tasks a' c) + of_bool (\<exists>t. e = Done c t) =
      (of_nat (loop_tasks a c) + of_bool (\<exists>t. e = Accept c t) :: size_t)" by simp
  show "refs (ctx w' c) = r c + of_nat (loop_tasks a' c) + of_bool (reporting w' c)"
    using balance [OF r t] assms(4) unfolding refs_exact_def by blast
qed

section \<open>When nothing is left to do\<close>

definition quiet :: "pool \<Rightarrow> bool" where
  "quiet w \<longleftrightarrow> (\<forall>e w'. \<not> internal_step w e w')"

lemma signal_possible: "\<exists>w'. cond_signal w w'"
  by (metis signal_none signal_one)

lemma quietD:
  assumes "quiet w"
  shows "\<not> worker_step i w e w'" "\<not> loop_step c w e w'" "\<not> ender_step w w'"
  using assms internal_step.intros unfolding quiet_def by blast+

lemma pops_step: "pops q mem t \<Longrightarrow> \<exists>q' mem'. queue_pop q mem = Inr (Some (Task_node t), q', mem')"
  by (simp add: pops_def)

lemma quiet_unlocked:
  assumes "quiet w" "control w" "pool_rep w a" "mux w \<noteq> Destroyed"
  shows "mux w = Unlocked"
proof (rule ccontr)
  note nf = pool_rep_no_fault [OF assms(3)] and N = quietD [OF assms(1)]
  have ex: "exclusive w" using assms(2) by (simp add: control_def)
  assume "mux w \<noteq> Unlocked"
  then obtain th where "mux w = Locked th" using assms(4) by (cases "mux w") auto
  show False
  proof (cases th)
    case (Worker i)
    with \<open>mux w = Locked th\<close> have "in_section (wpc w i)" using exclusiveD(1) [OF ex] by blast
    then show False
    proof (cases rule: in_section.elims(2))
      case 1
      show False
      proof (cases "abort_threads w")
        case True
        obtain w1 where "cond_signal w w1" using signal_possible by blast
        then show False using N(1) w_abort 1 True by blast
      next
        case False
        have "ntasks w \<noteq> 0 \<Longrightarrow> \<exists>t. pops (tasks w) (pnodes w) t" using nf pool_fault.intros(1) 1 by blast
        then show False using N(1) w_wait w_take pops_step 1 False by metis
      qed
    next
      case (3 t)
      have "\<not> isl (queue_push (finished_tasks (ctx w (task_ctx (taskmem w t)))) (pnodes w) (Task_node t))"
        using nf pool_fault.intros(2) 3 by blast
      then obtain q mem where
        "queue_push (finished_tasks (ctx w (task_ctx (taskmem w t)))) (pnodes w) (Task_node t) = Inr (q, mem)"
        by (metis isl_def old.prod.exhaust sum.exhaust)
      then show False using N(1) w_push 3 by blast
    qed (use N(1) w_unlock w_finish_unlock w_exit in blast)+
  next
    case (Loop c)
    with \<open>mux w = Locked th\<close> have "loop_in_section (lpc w c)" using exclusiveD(2) [OF ex] by blast
    then show False
    proof (cases rule: loop_in_section.elims(2))
      case (1 t)
      then have "\<not> isl (queue_push (tasks w) (pnodes w) (Task_node t))" using nf pool_fault.intros(3) by blast
      then obtain q mem where "queue_push (tasks w) (pnodes w) (Task_node t) = Inr (q, mem)"
        by (metis isl_def old.prod.exhaust sum.exhaust)
      then show False using N(2) l_push 1 by blast
    next
      case 2
      obtain w1 where "cond_signal w w1" using signal_possible by blast
      then show False using N(2) l_signal l_no_signal 2 by blast
    next
      case 4
      show False
      proof (cases "queue_empty (finished_tasks (ctx w c))")
        case True
        then show False using N(2) l_moved 4 by blast
      next
        case False
        then obtain t q mem where pop: "queue_pop (finished_tasks (ctx w c)) (pnodes w) = Inr (Some (Task_node t), q, mem)"
          using nf pool_fault.intros(4) 4 pops_step by metis
        then have "\<not> isl (queue_push (tasks_done w c) mem (Task_node t))"
          using nf pool_fault.intros(5) 4 False by blast
        then obtain q' mem' where "queue_push (tasks_done w c) mem (Task_node t) = Inr (q', mem')"
          by (metis isl_def old.prod.exhaust sum.exhaust)
        then show False using N(2) l_move 4 False pop by blast
      qed
    qed (use N(2) l_unlock l_collect_unlock in blast)+
  next
    case Ender
    with \<open>mux w = Locked th\<close> have "ender_in_section (epc w)" using exclusiveD(3) [OF ex] by blast
    moreover obtain w1 where "cond_signal (w\<lparr>abort_threads := True\<rparr>) w1" using signal_possible by blast
    ultimately show False
      using N(3) e_abort e_unlock by (cases "epc w") auto
  qed
qed

lemma quiet_worker:
  assumes "quiet w" "control w" "mux w = Unlocked"
  shows "wpc w i \<in> {W_waiting, W_exited}"
proof -
  note N = quietD(1) [OF assms(1)]
  have s: "\<not> in_section (wpc w i)" using assms(2,3) exclusiveD(1) by (simp add: control_def)
  show ?thesis
  proof (cases "wpc w i")
    case W_lock
    then show ?thesis using N w_lock assms(3) by blast
  next
    case W_woken
    then show ?thesis using N w_woken assms(3) by blast
  next
    case (W_work t)
    then show ?thesis using N w_work by blast
  next
    case (W_finish_lock t)
    then show ?thesis using N w_finish_lock assms(3) by blast
  qed (use s in auto)
qed

lemma quiet_loop:
  assumes "quiet w" "control w" "pool_rep w a" "mux w = Unlocked"
  shows "lpc w c = L_client \<and> \<not> in_done w c \<and> event_count w c = 0"
proof -
  note N = quietD(2) [OF assms(1)]
  have s: "\<not> loop_in_section (lpc w c)" using assms(2,4) exclusiveD(2) by (simp add: control_def)
  have d: "lpc w c \<noteq> L_done"
  proof
    assume l: "lpc w c = L_done"
    show False
    proof (cases "queue_empty (tasks_done w c)")
      case True
      then show False using N l_finished l by blast
    next
      case False
      then obtain t q mem where "queue_pop (tasks_done w c) (pnodes w) = Inr (Some (Task_node t), q, mem)"
        using pool_rep_no_fault [OF assms(3)] pool_fault.intros(6) l pops_step by metis
      then show False using N l_done l False by blast
    qed
  qed
  have "lpc w c = L_client"
  proof (cases "lpc w c")
    case (L_submit_lock t)
    then show ?thesis using N l_lock assms(4) by blast
  next
    case L_collect_lock
    then show ?thesis using N l_collect_lock assms(4) by blast
  next
    case L_ref
    then show ?thesis using N l_ref by blast
  qed (use s d in auto)
  then show ?thesis using N l_return l_poll by blast
qed

lemma quiet_ender:
  assumes "quiet w" "control w" "alert w" "mux w = Unlocked"
  shows "epc w = E_idle"
proof (cases "epc w")
  case E_lock
  then show ?thesis using quietD(3) [OF assms(1)] e_lock assms(4) by blast
next
  case (E_join k)
  have "abort_threads w" using assms(2) E_join by (simp add: control_def ender_ok_def)
  then have "\<not> sleepers w"
    using assms(3) quiet_worker [OF assms(1,2,4)] by (auto simp: alert_def signal_passed_on_def)
  then have "wpc w k = W_exited" using quiet_worker [OF assms(1,2,4), of k] by (auto simp: sleepers_def)
  then show ?thesis using quietD(3) [OF assms(1)] e_join e_destroy E_join assms(4) by blast
qed (use assms(2,4) exclusiveD(3) [of w] in \<open>auto simp: control_def\<close>)

text \<open>All workers sleep, every queue is empty, no loop is in the code of the pool or has a notification.\<close>

definition settled :: "pool \<Rightarrow> bool" where
  "settled w \<longleftrightarrow> (\<forall>i < unat (nthreads w). wpc w i = W_waiting) \<and> queue_empty (tasks w) \<and> epc w = E_idle \<and>
     (\<forall>c. lpc w c = L_client \<and> \<not> in_done w c \<and> event_count w c = 0 \<and> queue_empty (finished_tasks (ctx w c)))"

lemma quiet_settled:
  assumes "quiet w" "control w" "pool_rep w a" "alert w" "mux w \<noteq> Destroyed"
  shows "settled w" "place a t = Idle"
proof -
  note u = quiet_unlocked [OF assms(1-3,5)]
  note W = quiet_worker [OF assms(1,2) u] and L = quiet_loop [OF assms(1-3) u] and E = quiet_ender [OF assms(1,2,4) u]
  have q: "queues_rep w a" and p: "places_rep w a" and ok: "spec_ok a"
    using assms(3) by (auto simp: pool_rep_def)
  note Q = queues_repD [OF q] and P = places_at [OF p] and S = spec_okD [OF ok]
  have n: "nthreads w \<noteq> 0" "\<not> abort_threads w" using assms(2,5) E by (auto simp: control_def ender_ok_def)
  have wait: "wpc w i = W_waiting" if "i < unat (nthreads w)" for i
    using W [of i] that n(2) assms(2) by (auto simp: control_def workers_ok_def)
  have "sleepers w" using wait [of 0] n(1) by (auto simp: sleepers_def unat_gt_0)
  moreover have "\<not> idle (wpc w i)" for i using W [of i] by auto
  then have "awake w = 0" by (simp add: awake_def)
  moreover have "\<not> signaling w" using L by (simp add: signaling_def)
  ultimately have "unat (ntasks w) = 0" using assms(4) n(2) by (auto simp: alert_def enough_awake_def)
  then have "ntasks w = 0" by (simp add: unat_eq_0)
  then have qd: "queued a = []" using ntasks_0 [OF assms(3)] by simp
  have fin: "queue_empty (finished_tasks (ctx w c))" for c
    using assms(4) L [of c] by (auto simp: alert_def notified_def)
  show "settled w"
    using wait E L fin queue_rep_empty [OF Q(1)] qd by (simp add: settled_def)
  have f: "finished a c = []" for c using fin [of c] queue_rep_empty [OF Q(3), of c] by simp
  have "\<not> collecting w c" for c using L [of c] by (simp add: collecting_def)
  then have col: "collected a c = []" for c using Q(5) by blast
  show "place a t = Idle"
  proof (cases "place a t")
    case (Entering c)
    then show ?thesis using P(1) [of c t] L [of c] by simp
  next
    case (Queued c)
    then show ?thesis using S(2) [of t] qd by simp
  next
    case (Taken i c b)
    then have "has_taken (wpc w i) b t" using P(2) by blast
    then show ?thesis using W [of i] by auto
  next
    case (Finished c)
    then show ?thesis using S(4) [of t c] f by simp
  next
    case (Collected c)
    then show ?thesis using S(6) [of t c] col by simp
  qed simp
qed

section \<open>A measure of the work left\<close>

fun worker_left :: "worker_pc \<Rightarrow> nat" where
  "worker_left W_exited = 0"
| "worker_left W_abort_unlock = 1"
| "worker_left W_waiting = 3"
| "worker_left W_loop = 4"
| "worker_left W_lock = 5"
| "worker_left W_woken = 5"
| "worker_left W_finish_unlock = 6"
| "worker_left (W_push t) = 16"
| "worker_left (W_finish_lock t) = 17"
| "worker_left (W_work t) = 18"
| "worker_left (W_unlock t) = 19"

fun loop_left :: "loop_pc \<Rightarrow> nat" where
  "loop_left L_client = 0"
| "loop_left L_submit_unlock = 1"
| "loop_left L_submit_signal = 4"
| "loop_left (L_submit_push t) = 21"
| "loop_left (L_submit_lock t) = 22"
| "loop_left L_done = 1"
| "loop_left L_ref = 2"
| "loop_left L_collect_unlock = 2"
| "loop_left L_collect = 3"
| "loop_left L_collect_lock = 4"

definition at_loop :: "pool \<Rightarrow> pool_spec \<Rightarrow> nat \<Rightarrow> nat" where
  "at_loop w a c = loop_left (lpc w c) + 3 * of_bool (in_done w c) + 5 * of_bool (event_count w c \<noteq> 0) +
     4 * length (finished a c) + 3 * length (collected a c)"

definition at_worker :: "pool \<Rightarrow> nat \<Rightarrow> nat" where
  "at_worker w i = worker_left (wpc w i)"

definition at_ender :: "pool \<Rightarrow> nat" where
  "at_ender w = (case epc w of E_idle \<Rightarrow> 0 | E_lock \<Rightarrow> unat (nthreads w) + 6 | E_abort \<Rightarrow> unat (nthreads w) + 5
     | E_unlock \<Rightarrow> unat (nthreads w) + 2 | E_join i \<Rightarrow> unat (nthreads w) - i + 1)"

definition work_left :: "pool \<Rightarrow> pool_spec \<Rightarrow> nat" where
  "work_left w a = 16 * length (queued a) + sum_at (at_worker w) + sum_at (at_loop w a) + at_ender w"

definition busy_finite :: "pool \<Rightarrow> pool_spec \<Rightarrow> bool" where
  "busy_finite w a \<longleftrightarrow> finite {c. at_loop w a c \<noteq> 0}"

lemma workers_total_finite: "workers_ok w \<Longrightarrow> finite {i. at_worker w i \<noteq> 0}"
  by (rule finite_subset [of _ "{..<unat (nthreads w)}"])
    (auto simp: at_worker_def intro!: workers_live [of w] simp del: not_gr_zero)

lemma worker_total:
  assumes "workers_ok w" "\<And>k. k \<noteq> i \<Longrightarrow> wpc w' k = wpc w k"
  shows "sum_at (at_worker w') + worker_left (wpc w i) = sum_at (at_worker w) + worker_left (wpc w' i)"
  using sum_at_upd [OF workers_total_finite [OF assms(1)], of i "at_worker w'"] assms(2)
  unfolding at_worker_def by simp

lemma worker_total_cong: "wpc w' = wpc w \<Longrightarrow> sum_at (at_worker w') = sum_at (at_worker w)"
  by (simp add: at_worker_def [abs_def])

lemma worker_total_signal:
  assumes "cond_signal w w'" "workers_ok w"
  shows "sum_at (at_worker w') \<le> sum_at (at_worker w) + 2"
  using assms
proof (induction rule: cond_signal.induct)
  case (signal_one i w)
  then show ?case using worker_total [of w i "set_wpc i W_woken w"] by simp
qed simp

lemma loop_total:
  assumes "busy_finite w a" "\<And>k. k \<noteq> c \<Longrightarrow> at_loop w' a' k = at_loop w a k"
  shows "sum_at (at_loop w' a') + at_loop w a c = sum_at (at_loop w a) + at_loop w' a' c"
  using sum_at_upd [OF assms(1) [unfolded busy_finite_def], of c "at_loop w' a'"] assms(2) by blast

lemma loop_total_cong: "(\<And>c. at_loop w' a' c = at_loop w a c) \<Longrightarrow> sum_at (at_loop w' a') = sum_at (at_loop w a)"
  by (metis ext)

lemma busy_finite_upd:
  assumes "busy_finite w a" "\<And>k. k \<noteq> c \<Longrightarrow> at_loop w' a' k = at_loop w a k"
  shows "busy_finite w' a'"
proof -
  have "{k. at_loop w' a' k \<noteq> 0} \<subseteq> insert c {k. at_loop w a k \<noteq> 0}" using assms(2) by auto
  then show ?thesis using assms(1) unfolding busy_finite_def by (meson finite_insert finite_subset)
qed

inductive_cases spec_tau: "spec_step a Tau a'"
inductive_cases spec_take: "spec_step a (Take i t) a'"
inductive_cases spec_work: "spec_step a (Work i t) a'"
inductive_cases spec_finish: "spec_step a (Finish c t) a'"
inductive_cases spec_enqueue: "spec_step a (Enqueue c t) a'"
inductive_cases spec_collect: "spec_step a (Collect c t) a'"
inductive_cases spec_done: "spec_step a (Done c t) a'"

lemmas spec_cases = spec_tau spec_take spec_work spec_finish spec_enqueue spec_collect spec_done

lemma at_loop_cong:
  assumes "lpc w' c = lpc w c" "in_done w' c = in_done w c" "event_count w' c = event_count w c"
    "finished a' c = finished a c" "collected a' c = collected a c"
  shows "at_loop w' a' c = at_loop w a c"
  using assms by (simp add: at_loop_def)

text \<open>A step of worker \<open>i\<close> changes the work left at the worker, and at one loop by at most 9, when it finishes a task.\<close>

lemma left_worker:
  assumes "worker_step i w e w'" "spec_step a e a'" "workers_ok w" "busy_finite w a"
  shows "work_left w' a' < work_left w a \<and> busy_finite w' a'"
  using assms(1)
proof cases
  case (w_push t c q mem n)
  note upd = worker_total [OF assms(3), of i w']
  from assms(2) w_push(1) have a': "finished a' c = finished a c @ [t]" "collected a' = collected a" "queued a' = queued a"
    "\<And>d. d \<noteq> c \<Longrightarrow> finished a' d = finished a d" by (auto elim!: spec_finish)
  have other: "\<And>d. d \<noteq> c \<Longrightarrow> at_loop w' a' d = at_loop w a d"
    using a' by (intro at_loop_cong) (simp_all add: w_push(2))
  have "at_loop w' a' c \<le> at_loop w a c + 9" using a' by (simp add: at_loop_def w_push(2))
  moreover have "sum_at (at_loop w' a') + at_loop w a c = sum_at (at_loop w a) + at_loop w' a' c"
    by (rule loop_total [OF assms(4) other])
  moreover have "busy_finite w' a'" by (rule busy_finite_upd [OF assms(4) other])
  moreover have "sum_at (at_worker w') + 16 = sum_at (at_worker w) + 6" using upd w_push(3) by (simp add: w_push(2))
  moreover have "at_ender w' = at_ender w" by (cases "epc w") (simp_all add: at_ender_def w_push(2))
  ultimately show ?thesis using a' by (simp add: work_left_def)
next
  case (w_abort w1)
  have "wpc w1 i = W_loop" using w_abort(3,5) by (auto elim!: cond_signal.cases)
  then have "sum_at (at_worker w') + 4 = sum_at (at_worker w1) + 1"
    using worker_total [OF workers_signal [OF w_abort(5) assms(3)], of i w'] by (simp add: w_abort(2))
  moreover note worker_total_signal [OF w_abort(5) assms(3)]
  moreover have "a' = a" using assms(2) w_abort(1) by (auto elim: spec_tau)
  moreover have "at_loop w' a d = at_loop w a d" for d
    by (rule at_loop_cong) (simp_all add: w_abort(2) cond_signal_same [OF w_abort(5)] cond_signal_tasks [OF w_abort(5)])
  moreover have "at_ender w' = at_ender w"
    by (cases "epc w") (simp_all add: at_ender_def w_abort(2) cond_signal_same [OF w_abort(5)])
  ultimately show ?thesis
    using assms(4) loop_total_cong [of w' a w a] by (simp add: work_left_def busy_finite_def)
next
  case (w_take q mem t)
  have "sum_at (at_worker w') + 4 = sum_at (at_worker w) + 19"
    using worker_total [OF assms(3), of i w'] w_take(3) by (simp add: w_take(2))
  moreover obtain u ts where a': "queued a = u # ts" "queued a' = ts" "finished a' = finished a" "collected a' = collected a"
    using assms(2) w_take(1) by (auto elim!: spec_take)
  moreover have "at_loop w' a' d = at_loop w a d" for d
    by (rule at_loop_cong) (simp_all add: w_take(2) a')
  moreover have "at_ender w' = at_ender w" by (cases "epc w") (simp_all add: at_ender_def w_take(2))
  ultimately show ?thesis
    using assms(4) loop_total_cong [of w' a' w a] by (simp add: work_left_def busy_finite_def)
next
  case (w_work t)
  have "sum_at (at_worker w') + 18 = sum_at (at_worker w) + 17"
    using worker_total [OF assms(3), of i w'] w_work(3) by (simp add: w_work(2))
  moreover have a': "queued a' = queued a" "finished a' = finished a" "collected a' = collected a"
    using assms(2) w_work(1) by (auto elim!: spec_work)
  moreover have "at_loop w' a' d = at_loop w a d" for d
    by (rule at_loop_cong) (simp_all add: w_work(2) a')
  moreover have "at_ender w' = at_ender w" by (cases "epc w") (simp_all add: at_ender_def w_work(2))
  ultimately show ?thesis
    using assms(4) loop_total_cong [of w' a' w a] by (simp add: work_left_def busy_finite_def)
qed (use assms(2,4) worker_total [OF assms(3), of i w'] loop_total_cong [of w' a w a] in
    \<open>auto elim!: spec_tau simp: work_left_def busy_finite_def at_ender_def at_loop_def split: ender_pc.split; fail\<close>)+

text \<open>A step of loop \<open>c\<close> changes the work left there, and wakes at most one worker.\<close>

lemma left_loop:
  assumes "loop_step c w e w'" "spec_step a e a'" "workers_ok w" "places_rep w a" "busy_finite w a"
  shows "work_left w' a' < work_left w a \<and> busy_finite w' a'"
proof -
  have nd: "in_done w c \<Longrightarrow> lpc w c \<noteq> L_done \<and> lpc w c \<noteq> L_ref" using places_at(4) [OF assms(4)] by blast
  have other: "d \<noteq> c \<Longrightarrow> at_loop w' a' d = at_loop w a d" for d
    using assms(1,2) by cases
      (auto elim!: spec_cases intro!: at_loop_cong simp: cond_signal_same cond_signal_tasks)
  have ender: "at_ender w' = at_ender w"
    using assms(1) by cases (auto simp: at_ender_def cond_signal_same split: ender_pc.split)
  have here: "16 * length (queued a') + sum_at (at_worker w') + at_loop w' a' c <
      16 * length (queued a) + sum_at (at_worker w) + at_loop w a c"
    using assms(1)
  proof cases
    case (l_signal w1)
    have "at_loop w' a' c + 3 = at_loop w a c" "queued a' = queued a"
      using assms(2) l_signal(1,3) cond_signal_same [OF l_signal(5)] cond_signal_tasks [OF l_signal(5)]
      by (auto elim!: spec_tau simp: at_loop_def l_signal(2))
    moreover have "sum_at (at_worker w') = sum_at (at_worker w1)"
      by (rule worker_total_cong) (simp add: l_signal(2))
    ultimately show ?thesis using worker_total_signal [OF l_signal(5) assms(3)] by simp
  next
    case (l_push t q mem)
    then show ?thesis
      using assms(2) worker_total_cong [of w' w] by (auto elim!: spec_enqueue simp: at_loop_def)
  next
    case (l_move t q mem q' mem')
    then show ?thesis
      using assms(2) worker_total_cong [of w' w] by (auto elim!: spec_collect simp: at_loop_def)
  next
    case (l_done t q mem b)
    then show ?thesis
      using assms(2) worker_total_cong [of w' w] nd by (auto elim!: spec_done simp: at_loop_def)
  qed (use assms(2) worker_total_cong [of w' w] in \<open>auto elim!: spec_tau simp: at_loop_def; fail\<close>)+
  have "sum_at (at_loop w' a') + at_loop w a c = sum_at (at_loop w a) + at_loop w' a' c"
    by (rule loop_total [OF assms(5) other])
  moreover have "busy_finite w' a'" by (rule busy_finite_upd [OF assms(5) other])
  ultimately show ?thesis using here ender by (simp add: work_left_def)
qed

lemma left_ender:
  assumes "ender_step w w'" "workers_ok w" "ender_ok w" "busy_finite w a"
  shows "work_left w' a < work_left w a \<and> busy_finite w' a"
proof -
  have loop: "at_loop w' a d = at_loop w a d" for d
    using assms(1) by cases (auto intro!: at_loop_cong simp: cond_signal_same cond_signal_tasks)
  have "sum_at (at_worker w') + at_ender w' < sum_at (at_worker w) + at_ender w"
    using assms(1)
  proof cases
    case (e_abort w1)
    have "sum_at (at_worker w') = sum_at (at_worker w1)"
      "sum_at (at_worker (w\<lparr>abort_threads := True\<rparr>)) = sum_at (at_worker w)"
      by (auto intro!: worker_total_cong simp: e_abort(1))
    moreover have "at_ender w' + 3 = at_ender w"
      using e_abort(2) by (simp add: at_ender_def e_abort(1) cond_signal_same [OF e_abort(3)])
    ultimately show ?thesis using worker_total_signal [OF e_abort(3) workers_abort [OF assms(2)]] by simp
  qed (use worker_total_cong [of w' w] assms(3) in \<open>auto simp: at_ender_def split: ender_pc.split; fail\<close>)+
  with loop assms(4) show ?thesis
    using loop_total_cong [of w' a w a] by (simp add: work_left_def busy_finite_def)
qed

section \<open>Every schedule gets there\<close>

text \<open>
  \<open>inevitable P es w\<close>: from \<open>w\<close>, with the events \<open>es\<close> behind it, every sequence of steps of the code of the pool
  reaches a state (and events) with \<open>P\<close>: it neither ends nor goes on forever before.
\<close>

inductive inevitable :: "(pool_event list \<Rightarrow> pool \<Rightarrow> bool) \<Rightarrow> pool_event list \<Rightarrow> pool \<Rightarrow> bool" for P where
  reached: "P es w \<Longrightarrow> inevitable P es w"
| reaches: "internal_step w e1 w1 \<Longrightarrow> (\<And>e w'. internal_step w e w' \<Longrightarrow> inevitable P (es @ [e]) w') \<Longrightarrow>
     inevitable P es w"

definition good :: "(nat \<Rightarrow> size_t) \<Rightarrow> pool \<Rightarrow> pool_spec \<Rightarrow> bool" where
  "good r w a \<longleftrightarrow> control w \<and> pool_rep w a \<and> alert w \<and> refs_exact r w a \<and> busy_finite w a"

lemma good_internal:
  assumes "internal_step w e w'" "good r w a"
  shows "\<exists>a'. spec_step a e a' \<and> good r w' a' \<and> work_left w' a' < work_left w a"
proof -
  have C: "control w" "pool_rep w a" "alert w" "refs_exact r w a" "busy_finite w a"
    using assms(2) by (auto simp: good_def)
  have W: "workers_ok w" "ender_ok w" "places_rep w a" using C by (auto simp: control_def pool_rep_def)
  obtain a' where a': "spec_step a e a'" "pool_rep w' a'" using internal_simulated [OF assms(1) C(2)] by blast
  have step: "pool_step w e w'" using assms(1) by (simp add: pool_step_def)
  have "work_left w' a' < work_left w a \<and> busy_finite w' a'"
    using assms(1)
  proof cases
    case (of_worker i)
    then show ?thesis using left_worker a'(1) W(1) C(5) by blast
  next
    case (of_loop c)
    then show ?thesis using left_loop a'(1) W(1,3) C(5) by blast
  next
    case of_ender
    moreover have "a' = a" using a'(1) of_ender(1) by (auto elim: spec_tau)
    ultimately show ?thesis using left_ender W(1,2) C(5) by blast
  qed
  then show ?thesis
    using control_step [OF step C(1)] a'(2) alert_internal [OF assms(1) C(1,3)]
      refs_exact_step [OF step C(2) a'(1) C(4)] a'(1) by (auto simp: good_def)
qed

lemma good_environment:
  assumes "environment_step w e w'" "good r w a" "\<And>c t. e = Accept c t \<Longrightarrow> place a t = Idle"
  shows "\<exists>a'. spec_step a e a' \<and> good r w' a'"
proof -
  have C: "control w" "pool_rep w a" "alert w" "refs_exact r w a" "busy_finite w a"
    using assms(2) by (auto simp: good_def)
  obtain a' where a': "spec_step a e a'" "pool_rep w' a'"
    using environment_simulated [OF assms(1) C(2,1)] assms(3) by blast
  have step: "pool_step w e w'" using assms(1) by (simp add: pool_step_def)
  have "busy_finite w' a'"
    using assms(1)
  proof cases
    case (of_client c)
    have "d \<noteq> c \<Longrightarrow> at_loop w' a' d = at_loop w a d" for d
      using of_client a'(1)
      by cases (auto elim!: spec_step.cases intro!: at_loop_cong)
    then show ?thesis by (rule busy_finite_upd [OF C(5)])
  qed (use C(5) a'(1) in \<open>auto elim!: spec_tau simp: busy_finite_def at_loop_def pd_threadpool_init_def Let_def; fail\<close>)+
  then show ?thesis
    using control_step [OF step C(1)] a' alert_environment [OF assms(1) C(1,3)]
      refs_exact_step [OF step C(2) a'(1) C(4)] by (auto simp: good_def)
qed

lemma good_run:
  "pool_run w es w' \<Longrightarrow> pool_start w \<Longrightarrow> proper {} es \<Longrightarrow> \<exists>a. spec_run es a \<and> good (\<lambda>c. refs (ctx w c)) w' a"
proof (induction rule: pool_run.induct)
  case pool_run_start
  have "refs_exact (\<lambda>c. refs (ctx w c)) w spec_start"
    using pool_run_start(1) by (simp add: refs_exact_def loop_tasks_def spec_start_def reporting_def pool_start_def)
  moreover have "busy_finite w spec_start"
    using pool_run_start(1) by (simp add: busy_finite_def at_loop_def spec_start_def pool_start_def)
  ultimately show ?case
    using start_rep start_control start_alert spec_run_start pool_run_start unfolding good_def by blast
next
  case (pool_run_step es w1 e w2)
  then obtain a where a: "spec_run es a" "good (\<lambda>c. refs (ctx w c)) w1 a" by auto
  have "place a t = Idle" if "e = Accept c t" for c t
    using pool_run_step(5) that spec_run_under_way [OF a(1)] by simp
  then have "\<exists>a'. spec_step a e a' \<and> good (\<lambda>c. refs (ctx w c)) w2 a'"
    using pool_run_step(2) good_environment [OF _ a(2)] good_internal [OF _ a(2)] unfolding pool_step_def by metis
  then show ?case using spec_run_step [OF a(1)] by blast
qed

lemma good_inevitable:
  assumes "good r w a" "spec_run es a" "Q w"
    and keeps: "\<And>w e w'. internal_step w e w' \<Longrightarrow> Q w \<Longrightarrow> control w \<Longrightarrow> Q w'"
  shows "inevitable (\<lambda>es v. \<exists>a. good r v a \<and> spec_run es a \<and> quiet v \<and> Q v) es w"
  using assms(1-3)
proof (induction "work_left w a" arbitrary: w a es rule: less_induct)
  case less
  show ?case
  proof (cases "quiet w")
    case True
    then show ?thesis using less.prems by (intro reached) blast
  next
    case False
    then obtain e1 w1 where "internal_step w e1 w1" by (auto simp: quiet_def)
    then show ?thesis
    proof (rule reaches)
      fix e w'
      assume step: "internal_step w e w'"
      then obtain a' where "spec_step a e a'" "good r w' a'" "work_left w' a' < work_left w a"
        using good_internal less.prems(1) by blast
      moreover have "control w" using less.prems(1) by (simp add: good_def)
      ultimately show "inevitable (\<lambda>es v. \<exists>a. good r v a \<and> spec_run es a \<and> quiet v \<and> Q v) (es @ [e]) w'"
        using less.hyps keeps [OF step less.prems(3)] spec_run_step [OF less.prems(2)] by blast
    qed
  qed
qed

lemma inevitable_mono:
  assumes "inevitable P es w" "\<And>es w. P es w \<Longrightarrow> P' es w"
  shows "inevitable P' es w"
  using assms(1)
proof (induction rule: inevitable.induct)
  case (reached es w)
  then show ?case by (rule inevitable.reached [OF assms(2)])
next
  case (reaches w e1 w1 es)
  show ?case by (rule inevitable.reaches [OF reaches(1)]) (rule reaches(3))
qed

text \<open>Without \<open>pd_threadpool_end\<close> the pool stays; with it, it goes.\<close>

definition kept_up :: "pool \<Rightarrow> bool" where
  "kept_up w \<longleftrightarrow> mux w \<noteq> Destroyed \<and> epc w = E_idle"

definition going_down :: "pool \<Rightarrow> bool" where
  "going_down w \<longleftrightarrow> mux w = Destroyed \<or> epc w \<noteq> E_idle"

lemma kept_up_step:
  assumes "internal_step w e w'" "kept_up w"
  shows "kept_up w'"
  using assms(1)
proof cases
  case (of_worker i)
  then show ?thesis using assms(2) by cases (auto simp: kept_up_def cond_signal_same)
next
  case (of_loop c)
  then show ?thesis using assms(2) by cases (auto simp: kept_up_def cond_signal_same)
next
  case of_ender
  from of_ender(2) show ?thesis using assms(2) by cases (auto simp: kept_up_def)
qed

lemma going_down_step:
  assumes "internal_step w e w'" "going_down w" "control w"
  shows "going_down w'"
  using assms(1)
proof cases
  case (of_worker i)
  have "exclusive w" using assms(3) by (simp add: control_def)
  from of_worker exclusiveD(1) [OF this, of i] show ?thesis
    using assms(2) by cases (auto simp: going_down_def cond_signal_same)
next
  case (of_loop c)
  have "exclusive w" using assms(3) by (simp add: control_def)
  from of_loop exclusiveD(2) [OF this, of c] show ?thesis
    using assms(2) by cases (auto simp: going_down_def cond_signal_same)
next
  case of_ender
  from of_ender(2) show ?thesis using assms(2) by cases (auto simp: going_down_def)
qed

lemma run_settles:
  assumes "pool_run w es w'" "pool_start w" "proper {} es" "kept_up w'"
  shows "inevitable (\<lambda>es v. settled v \<and>
    (\<forall>c t. count_list (select (accepted c) es) t = count_list (select (reported c) es) t) \<and>
    (\<forall>c. refs (ctx v c) = refs (ctx w c))) es w'"
proof -
  obtain a where a: "spec_run es a" "good (\<lambda>c. refs (ctx w c)) w' a" using good_run [OF assms(1-3)] by blast
  show ?thesis
  proof (rule inevitable_mono [OF good_inevitable [where Q = kept_up, OF a(2,1) assms(4)]])
    fix es v
    assume "\<exists>a. good (\<lambda>c. refs (ctx w c)) v a \<and> spec_run es a \<and> quiet v \<and> kept_up v"
    then obtain a where b: "good (\<lambda>c. refs (ctx w c)) v a" "spec_run es a" "quiet v" "mux v \<noteq> Destroyed"
      by (auto simp: kept_up_def)
    then have G: "control v" "pool_rep v a" "alert v" "refs_exact (\<lambda>c. refs (ctx w c)) v a" by (auto simp: good_def)
    note S = quiet_settled [OF b(3) G(1-3) b(4)]
    have "\<not> reporting v c" for c using S(1) by (simp add: reporting_def settled_def)
    then have "refs (ctx v c) = refs (ctx w c)" for c
      using G(4) S(2) by (simp add: refs_exact_def loop_tasks_def)
    then show "settled v \<and>
      (\<forall>c t. count_list (select (accepted c) es) t = count_list (select (reported c) es) t) \<and>
      (\<forall>c. refs (ctx v c) = refs (ctx w c))"
      using S spec_reported_once [OF b(2)] by simp
  qed (rule kept_up_step)
qed

lemma run_ends:
  assumes "pool_run w es w'" "pool_start w" "proper {} es" "epc w' \<noteq> E_idle"
  shows "inevitable (\<lambda>es v. nthreads v = 0 \<and> mux v = Destroyed \<and> epc v = E_idle \<and> (\<forall>i. wpc v i = W_exited)) es w'"
proof -
  obtain a where a: "spec_run es a" "good (\<lambda>c. refs (ctx w c)) w' a" using good_run [OF assms(1-3)] by blast
  have g: "going_down w'" using assms(4) by (simp add: going_down_def)
  show ?thesis
  proof (rule inevitable_mono [OF good_inevitable [where Q = going_down, OF a(2,1) g]])
    fix es v
    assume "\<exists>a. good (\<lambda>c. refs (ctx w c)) v a \<and> spec_run es a \<and> quiet v \<and> going_down v"
    then obtain a where b: "good (\<lambda>c. refs (ctx w c)) v a" "quiet v" "going_down v" by blast
    then have G: "control v" "pool_rep v a" "alert v" by (auto simp: good_def)
    have d: "mux v = Destroyed"
      using quiet_settled(1) [OF b(2) G] b(3) by (auto simp: going_down_def settled_def)
    then have n: "nthreads v = 0" "epc v = E_idle" using G(1) by (auto simp: control_def ender_ok_def)
    moreover have "wpc v i = W_exited" for i using G(1) n(1) by (auto simp: control_def workers_ok_def)
    ultimately show "nthreads v = 0 \<and> mux v = Destroyed \<and> epc v = E_idle \<and> (\<forall>i. wpc v i = W_exited)" using d by blast
  qed (rule going_down_step)
qed

section \<open>When the pool is ended\<close>

text \<open>A run in which the pool is not started again once it has been ended.\<close>

inductive unrestarted :: "pool \<Rightarrow> pool_event list \<Rightarrow> pool \<Rightarrow> bool" for w where
  unrestarted_start: "unrestarted w [] w"
| unrestarted_step: "unrestarted w es w' \<Longrightarrow> pool_step w' e w'' \<Longrightarrow> nthreads w' = 0 \<longrightarrow> nthreads w'' = 0 \<Longrightarrow>
     unrestarted w (es @ [e]) w''"

lemma unrestarted_run: "unrestarted w es w' \<Longrightarrow> pool_run w es w'"
  by (induction rule: unrestarted.induct) (auto intro: pool_run.intros)

lemma abort_stays:
  assumes "pool_step w e w'" "abort_threads w" "nthreads w = 0 \<longrightarrow> nthreads w' = 0"
  shows "abort_threads w' \<and> (\<forall>i t. e \<noteq> Take i t)"
  using assms(1) unfolding pool_step_def
proof
  assume "internal_step w e w'"
  then show ?thesis
  proof cases
    case (of_worker i)
    then show ?thesis using assms(2) by cases (auto simp: cond_signal_same)
  next
    case (of_loop c)
    then show ?thesis using assms(2) by cases (auto simp: cond_signal_same)
  next
    case of_ender
    from of_ender(2) show ?thesis using of_ender(1) assms(2) by cases (auto simp: cond_signal_same)
  qed
next
  assume "environment_step w e w'"
  then show ?thesis
  proof cases
    case (of_client c)
    then show ?thesis using assms(2) by cases auto
  next
    case (init n)
    have "nthreads w \<noteq> 0" using assms(3) init(2) by (auto simp: pd_threadpool_init_def PD_THREADPOOL_SIZE_def Let_def split: if_splits)
    then show ?thesis using init assms(2) by (simp add: pd_threadpool_init_def)
  qed (use assms(2) in auto)
qed

lemma queued_stays:
  assumes "spec_step a e a'" "spec_ok a" "\<And>i t. e \<noteq> Take i t" "t \<in> set (queued a)"
  shows "place a' t = place a t \<and> (\<forall>i. e \<noteq> Take i t \<and> e \<noteq> Work i t \<and> e \<noteq> Done i t)"
proof -
  obtain c where c: "place a t = Queued c" using spec_okD(2) [OF assms(2), of t] assms(4) by blast
  from assms(1) show ?thesis
  proof cases
    case (s_collect d u us)
    then have "place a u = Finished d" using spec_okD(4) [OF assms(2), of u d] by simp
    then show ?thesis using c s_collect by auto
  next
    case (s_done d u us)
    then have "place a u = Collected d" using spec_okD(6) [OF assms(2), of u d] by simp
    then show ?thesis using c s_done by auto
  qed (use c assms(3) in auto)
qed

lemma queue_grows: "spec_step a e a' \<Longrightarrow> (\<And>i t. e \<noteq> Take i t) \<Longrightarrow> \<exists>ts. queued a' = queued a @ ts"
  by (induction rule: spec_step.induct) auto

lemma abandoned_stays:
  assumes "unrestarted w1 fs w2" "good r w1 a1" "spec_run es a1" "abort_threads w1" "proper (fold under_way es {}) fs"
  shows "\<exists>a2 ts. spec_run (es @ fs) a2 \<and> good r w2 a2 \<and> abort_threads w2 \<and> queued a2 = queued a1 @ ts \<and>
    (\<forall>t \<in> set (queued a1). place a2 t = place a1 t \<and> (\<forall>i. Take i t \<notin> set fs \<and> Work i t \<notin> set fs \<and> Done i t \<notin> set fs))"
  using assms
proof (induction rule: unrestarted.induct)
  case unrestarted_start
  then show ?case by (intro exI [of _ a1] exI [of _ "[]"]) simp
next
  case (unrestarted_step fs w' e w'')
  then obtain a2 ts where a2: "spec_run (es @ fs) a2" "good r w' a2" "abort_threads w'" "queued a2 = queued a1 @ ts"
      "\<And>t. t \<in> set (queued a1) \<Longrightarrow> place a2 t = place a1 t \<and>
        (\<forall>i. Take i t \<notin> set fs \<and> Work i t \<notin> set fs \<and> Done i t \<notin> set fs)"
    by auto
  have "place a2 t = Idle" if "e = Accept c t" for c t
    using unrestarted_step(8) that spec_run_under_way [OF a2(1)] by simp
  then obtain a3 where a3: "spec_step a2 e a3" "good r w'' a3"
    using unrestarted_step(2) good_environment [OF _ a2(2)] good_internal [OF _ a2(2)] unfolding pool_step_def by metis
  note stays = abort_stays [OF unrestarted_step(2) a2(3) unrestarted_step(3)]
  have ok: "spec_ok a2" by (rule spec_run_ok [OF a2(1)])
  obtain us where "queued a3 = queued a2 @ us" using queue_grows [OF a3(1)] stays by blast
  moreover have "place a3 t = place a1 t \<and> (\<forall>i. e \<noteq> Take i t \<and> e \<noteq> Work i t \<and> e \<noteq> Done i t)"
    if "t \<in> set (queued a1)" for t
    using queued_stays [OF a3(1) ok, of t] stays a2(4,5) that by auto
  moreover have "spec_run (es @ fs @ [e]) a3" using spec_run_step [OF a2(1) a3(1)] by simp
  ultimately show ?case using a2(4,5) a3(2) stays by (intro exI [of _ a3] exI [of _ "ts @ us"]) auto
qed

text \<open>The loop of a task that is under way holds a reference for it.\<close>

lemma task_referenced:
  assumes "good r w a" "owner_loop (place a t) = Some c"
  shows "\<exists>n. 0 < n \<and> n < 2 ^ 64 \<and> refs (ctx w c) = r c + of_nat n + of_bool (in_done w c \<or> lpc w c = L_ref)"
proof -
  have fin: "finite {t. owner_loop (place a t) = Some c}" by (rule finite_subset [OF subset_UNIV]) simp
  then have "0 < loop_tasks a c" using assms(2) by (auto simp: loop_tasks_def card_gt_0_iff)
  moreover have "loop_tasks a c \<le> card (UNIV :: task set)" unfolding loop_tasks_def by (rule card_mono) simp_all
  moreover have "card (UNIV :: task set) < 2 ^ 64" by (simp add: card_word)
  ultimately show ?thesis using assms(1)
    by (intro exI [of _ "loop_tasks a c"]) (auto simp: good_def refs_exact_def reporting_def)
qed

end
