(* ===== verification/Threadpool_Play.thy ===== *)
theory Threadpool_Play
  imports Threadpool
begin

text \<open>
  The threadpool under a given schedule: \<open>play\<close> executes a list of moves, each naming the thread that takes its
  next step, and gives the events and the last state. Every play is a run of the step relation, so concrete runs
  are obtained by evaluation. A signal wakes the waiting worker with the lowest number.
\<close>

section \<open>One move\<close>

datatype move =
    Worker_moves nat
  | Loop_moves nat
  | Ender_moves
  | Submits nat task
  | Fills nat task "callback option" "callback option"
  | Starts size_t
  | Ends
  | Wakes nat

type_synonym outcome = "(pool_event \<times> pool) option"

definition signal_first :: "pool \<Rightarrow> pool" where
  "signal_first w =
     (case List.find (\<lambda>i. wpc w i = W_waiting) [0..<unat (nthreads w)] of
        None \<Rightarrow> w
      | Some i \<Rightarrow> set_wpc i W_woken w)"

abbreviation only_if :: "bool \<Rightarrow> pool_event \<Rightarrow> pool \<Rightarrow> outcome" where
  "only_if b e w \<equiv> (if b then Some (e, w) else None)"

abbreviation set_lpc :: "nat \<Rightarrow> loop_pc \<Rightarrow> pool \<Rightarrow> pool" where
  "set_lpc c p w \<equiv> w\<lparr>lpc := (lpc w)(c := p)\<rparr>"

definition move_worker :: "nat \<Rightarrow> pool \<Rightarrow> outcome" where
  "move_worker i w =
     (case wpc w i of
        W_lock \<Rightarrow> only_if (mux w = Unlocked) Tau (set_wpc i W_loop (w\<lparr>mux := Locked (Worker i)\<rparr>))
      | W_loop \<Rightarrow>
          if abort_threads w then Some (Tau, set_wpc i W_abort_unlock (signal_first w))
          else if ntasks w = 0 then
            Some (Tau, set_wpc i W_waiting (w\<lparr>waiting_threads := waiting_threads w + 1, mux := Unlocked\<rparr>))
          else
            (case queue_pop (tasks w) (pnodes w) of
               Inr (Some (Task_node t), q, mem) \<Rightarrow>
                 Some (Take i t, set_wpc i (W_unlock t) (w\<lparr>tasks := q, pnodes := mem, ntasks := ntasks w - 1\<rparr>))
             | _ \<Rightarrow> None)
      | W_woken \<Rightarrow> only_if (mux w = Unlocked) Tau
          (set_wpc i W_loop (w\<lparr>mux := Locked (Worker i), waiting_threads := waiting_threads w - 1\<rparr>))
      | W_unlock t \<Rightarrow> Some (Tau, set_wpc i (W_work t) (w\<lparr>mux := Unlocked\<rparr>))
      | W_work t \<Rightarrow>
          Some (Work i t, set_wpc i (W_finish_lock t) (w\<lparr>pnodes := queue_init_node (pnodes w) (Task_node t)\<rparr>))
      | W_finish_lock t \<Rightarrow> only_if (mux w = Unlocked) Tau (set_wpc i (W_push t) (w\<lparr>mux := Locked (Worker i)\<rparr>))
      | W_push t \<Rightarrow>
          (let c = task_ctx (taskmem w t)
           in case queue_push (finished_tasks (ctx w c)) (pnodes w) (Task_node t) of
                Inr (q, mem) \<Rightarrow>
                  Some (Finish c t, set_wpc i W_finish_unlock
                    (w\<lparr>ctx := (ctx w)(c := (ctx w c)\<lparr>finished_tasks := q\<rparr>), pnodes := mem,
                       event_count := (event_count w)(c := (if task_signaled (ctx w c) then event_count w c
                         else eventfd_write (event_count w c)))\<rparr>))
              | _ \<Rightarrow> None)
      | W_finish_unlock \<Rightarrow> Some (Tau, set_wpc i W_lock (w\<lparr>mux := Unlocked\<rparr>))
      | W_abort_unlock \<Rightarrow> Some (Tau, set_wpc i W_exited (w\<lparr>mux := Unlocked\<rparr>))
      | _ \<Rightarrow> None)"

definition move_loop :: "nat \<Rightarrow> pool \<Rightarrow> outcome" where
  "move_loop c w =
     (case lpc w c of
        L_client \<Rightarrow>
          if in_done w c then Some (Tau, set_lpc c L_ref (w\<lparr>in_done := (in_done w)(c := False)\<rparr>))
          else only_if (event_count w c \<noteq> 0) Tau (set_lpc c L_collect_lock (w\<lparr>event_count := (event_count w)(c := 0)\<rparr>))
      | L_submit_lock t \<Rightarrow> only_if (mux w = Unlocked) Tau (set_lpc c (L_submit_push t) (w\<lparr>mux := Locked (Loop c)\<rparr>))
      | L_submit_push t \<Rightarrow>
          (case queue_push (tasks w) (pnodes w) (Task_node t) of
             Inr (q, mem) \<Rightarrow>
               Some (Enqueue c t, set_lpc c L_submit_signal (w\<lparr>tasks := q, pnodes := mem, ntasks := ntasks w + 1\<rparr>))
           | _ \<Rightarrow> None)
      | L_submit_signal \<Rightarrow>
          Some (Tau, set_lpc c L_submit_unlock (if waiting_threads w > 0 then signal_first w else w))
      | L_submit_unlock \<Rightarrow> Some (Tau, set_lpc c L_client (w\<lparr>mux := Unlocked\<rparr>))
      | L_collect_lock \<Rightarrow> only_if (mux w = Unlocked) Tau
          (set_lpc c L_collect
            (w\<lparr>tasks_done := (tasks_done w)(c := queue_init (tasks_done w c)), mux := Locked (Loop c)\<rparr>))
      | L_collect \<Rightarrow>
          if queue_empty (finished_tasks (ctx w c)) then
            Some (Tau, set_lpc c L_collect_unlock (w\<lparr>ctx := (ctx w)(c := (ctx w c)\<lparr>task_signaled := False\<rparr>)\<rparr>))
          else
            (case queue_pop (finished_tasks (ctx w c)) (pnodes w) of
               Inr (Some (Task_node t), q, mem) \<Rightarrow>
                 (case queue_push (tasks_done w c) mem (Task_node t) of
                    Inr (q', mem') \<Rightarrow>
                      Some (Collect c t, w\<lparr>ctx := (ctx w)(c := (ctx w c)\<lparr>finished_tasks := q\<rparr>), pnodes := mem',
                        tasks_done := (tasks_done w)(c := q')\<rparr>)
                  | _ \<Rightarrow> None)
             | _ \<Rightarrow> None)
      | L_collect_unlock \<Rightarrow> Some (Tau, set_lpc c L_done (w\<lparr>mux := Unlocked\<rparr>))
      | L_done \<Rightarrow>
          if queue_empty (tasks_done w c) then Some (Tau, set_lpc c L_client w)
          else
            (case queue_pop (tasks_done w c) (pnodes w) of
               Inr (Some (Task_node t), q, mem) \<Rightarrow>
                 (let b = (task_done_cb (taskmem w t) \<noteq> None)
                  in Some (Done c t, w\<lparr>pnodes := mem, tasks_done := (tasks_done w)(c := q),
                       in_done := (in_done w)(c := b), lpc := (lpc w)(c := if b then L_client else L_ref)\<rparr>))
             | _ \<Rightarrow> None)
      | L_ref \<Rightarrow>
          Some (Tau, set_lpc c L_done (w\<lparr>ctx := (ctx w)(c := (ctx w c)\<lparr>refs := refs (ctx w c) - 1\<rparr>)\<rparr>)))"

definition move_ender :: "pool \<Rightarrow> outcome" where
  "move_ender w =
     (case epc w of
        E_idle \<Rightarrow> None
      | E_lock \<Rightarrow> only_if (mux w = Unlocked) Tau (w\<lparr>mux := Locked Ender, epc := E_abort\<rparr>)
      | E_abort \<Rightarrow> Some (Tau, (signal_first (w\<lparr>abort_threads := True\<rparr>))\<lparr>epc := E_unlock\<rparr>)
      | E_unlock \<Rightarrow> Some (Tau, w\<lparr>mux := Unlocked, epc := E_join 0\<rparr>)
      | E_join i \<Rightarrow>
          if i < unat (nthreads w) then only_if (wpc w i = W_exited) Tau (w\<lparr>epc := E_join (i + 1)\<rparr>)
          else only_if (mux w = Unlocked) Tau (w\<lparr>nthreads := 0, mux := Destroyed, epc := E_idle\<rparr>))"

definition move_client :: "nat \<Rightarrow> task \<Rightarrow> pool \<Rightarrow> outcome" where
  "move_client c t w =
     (if lpc w c \<noteq> L_client then None
      else if abort_threads w \<or> nthreads w = 0 then Some (Refused c t, w)
      else
        Some (Accept c t, set_lpc c (L_submit_lock t)
          (w\<lparr>taskmem := (taskmem w)(t := (taskmem w t)\<lparr>task_ctx := c\<rparr>),
             ctx := (ctx w)(c := (ctx w c)\<lparr>refs := refs (ctx w c) + 1\<rparr>),
             pnodes := queue_init_node (pnodes w) (Task_node t)\<rparr>)))"

fun one_move :: "move \<Rightarrow> pool \<Rightarrow> outcome" where
  "one_move (Worker_moves i) w = move_worker i w"
| "one_move (Loop_moves c) w = move_loop c w"
| "one_move Ender_moves w = move_ender w"
| "one_move (Submits c t) w = move_client c t w"
| "one_move (Fills c t f g) w = only_if (lpc w c = L_client) Tau
     (w\<lparr>taskmem := (taskmem w)(t := (taskmem w t)\<lparr>task_work := f, task_done_cb := g\<rparr>)\<rparr>)"
| "one_move (Starts n) w = only_if (epc w = E_idle) Tau (pd_threadpool_init n w)"
| "one_move Ends w = only_if (epc w = E_idle \<and> nthreads w \<noteq> 0) Tau (w\<lparr>epc := E_lock\<rparr>)"
| "one_move (Wakes i) w = only_if (wpc w i = W_waiting) Tau (set_wpc i W_woken w)"

fun play :: "move list \<Rightarrow> pool \<Rightarrow> (pool_event list \<times> pool) option" where
  "play [] w = Some ([], w)"
| "play (m # ms) w =
     (case one_move m w of
        None \<Rightarrow> None
      | Some (e, w') \<Rightarrow> map_option (\<lambda>(es, v). (e # es, v)) (play ms w'))"

section \<open>A play is a run\<close>

lemma signal_first_signals: "cond_signal w (signal_first w)"
proof (cases "List.find (\<lambda>i. wpc w i = W_waiting) [0..<unat (nthreads w)]")
  case None
  then have "i < unat (nthreads w) \<Longrightarrow> wpc w i \<noteq> W_waiting" for i by (auto simp: find_None_iff)
  then have "cond_signal w w" by (rule signal_none)
  with None show ?thesis by (simp add: signal_first_def)
next
  case (Some i)
  then have "i < unat (nthreads w)" "wpc w i = W_waiting" by (auto simp: find_Some_iff)
  then have "cond_signal w (set_wpc i W_woken w)" by (rule signal_one)
  with Some show ?thesis by (simp add: signal_first_def)
qed

lemma move_worker_step: "move_worker i w = Some (e, w') \<Longrightarrow> worker_step i w e w'"
  using w_abort [OF _ _ signal_first_signals, of w i]
  by (auto simp: move_worker_def Let_def simp del: fun_upd_triv intro: worker_step.intros
      split: worker_pc.splits if_splits sum.splits prod.splits option.splits qnode.splits)

lemma move_loop_step: "move_loop c w = Some (e, w') \<Longrightarrow> loop_step c w e w'"
  using l_signal [OF _ _ signal_first_signals, of w c]
    l_done [where w = w and c = c and b = True] l_done [where w = w and c = c and b = False]
  by (auto simp: move_loop_def Let_def intro: loop_step.intros
      split: loop_pc.splits if_splits sum.splits prod.splits option.splits qnode.splits)

lemma move_ender_step: "move_ender w = Some (e, w') \<Longrightarrow> e = Tau \<and> ender_step w w'"
  using e_abort [OF _ signal_first_signals, of w] e_join [of w]
  by (auto simp: move_ender_def intro: ender_step.intros split: ender_pc.splits if_splits)

lemma move_client_step: "move_client c t w = Some (e, w') \<Longrightarrow> client_step c w e w'"
  by (auto simp: move_client_def intro: client_step.intros split: if_splits)

lemma one_move_step: "one_move m w = Some (e, w') \<Longrightarrow> pool_step w e w'"
  unfolding pool_step_def
  by (cases m) (auto dest!: move_worker_step move_loop_step move_ender_step move_client_step
      intro: internal_step.intros environment_step.intros client_step.intros split: if_splits)

lemma pool_run_append: "pool_run w1 fs w2 \<Longrightarrow> pool_run w es w1 \<Longrightarrow> pool_run w (es @ fs) w2"
proof (induction rule: pool_run.induct)
  case (pool_run_step fs w2 e w3)
  then have "pool_run w ((es @ fs) @ [e]) w3" by (intro pool_run.pool_run_step)
  then show ?case by simp
qed simp

lemma play_run: "play ms w = Some (es, w') \<Longrightarrow> pool_run w es w'"
proof (induction ms arbitrary: w es)
  case Nil
  then show ?case by (simp add: pool_run_start)
next
  case (Cons m ms)
  then obtain e w1 fs where m: "one_move m w = Some (e, w1)" "play ms w1 = Some (fs, w')" "es = e # fs"
    by (auto split: option.splits)
  have "pool_run w ([] @ [e]) w1" by (rule pool_run_step [OF pool_run_start one_move_step [OF m(1)]])
  with Cons.IH [OF m(2)] show ?case unfolding m(3) using pool_run_append by fastforce
qed

end
