(* ===== verification/Threadpool_Properties.thy ===== *)
theory Threadpool_Properties
  imports Threadpool_Progress Threadpool_Play
begin

text \<open>
  The properties of the threadpool, for every interleaving: C22 to C29. A run starts where the process does, and
  its events are those of clients that do not submit a task that is still under way (\<open>proper\<close>).
\<close>

section \<open>A state to start in, and a run\<close>

abbreviation nil_queue :: "qnode queue" where
  "nil_queue \<equiv> \<lparr>q_head = None, q_tail = None\<rparr>"

definition sample_loop :: pd_io where
  "sample_loop = \<lparr>poll_fd = 3, now = 0, refs = 1, timers = \<lparr>root = None, heap_size = 0, comparator = (\<lambda>_ _ _. 0)\<rparr>,
     pending_closes = nil_queue, finished_tasks = nil_queue, task_signal = None, after_tick = None,
     task_signaled = False\<rparr>"

definition sample_pool :: pool where
  "sample_pool = \<lparr>nthreads = 0, waiting_threads = 0, mux = Destroyed, tasks = nil_queue, ntasks = 0,
     abort_threads = False, taskmem = (\<lambda>_. \<lparr>task_ctx = 0, task_work = None, task_done_cb = None\<rparr>),
     pnodes = (\<lambda>_. \<lparr>qnext = None, qprev = None\<rparr>), ctx = (\<lambda>_. sample_loop), event_count = (\<lambda>_. 0),
     tasks_done = (\<lambda>_. nil_queue), in_done = (\<lambda>_. False), wpc = (\<lambda>_. W_exited), lpc = (\<lambda>_. L_client),
     epc = E_idle\<rparr>"

definition events_of :: "move list \<Rightarrow> pool_event list" where
  "events_of ms = (case play ms sample_pool of Some (es, w) \<Rightarrow> es | None \<Rightarrow> [])"

definition pool_after :: "move list \<Rightarrow> pool" where
  "pool_after ms = (case play ms sample_pool of Some (es, w) \<Rightarrow> w | None \<Rightarrow> sample_pool)"

lemma pool_sample_run: "pool_run sample_pool (events_of ms) (pool_after ms)"
  using play_run [of ms sample_pool]
  by (auto simp: events_of_def pool_after_def pool_run_start split: option.split)

lemma pool_sample_start: "pool_start sample_pool"
  by (simp add: pool_start_def sample_pool_def sample_loop_def queue_empty_def)

text \<open>
  One worker falls asleep; loop 0 submits task 7, which wakes it, and then task 8; the worker finishes task 7 while
  task 8 waits in the queue, and loop 0 is notified.
\<close>

definition busy :: "move list" where
  "busy = [Starts 1, Worker_moves 0, Worker_moves 0] @
     [Fills 0 7 (Some 1) (Some 2), Submits 0 7] @ replicate 4 (Loop_moves 0) @
     [Submits 0 8] @ replicate 4 (Loop_moves 0) @ replicate 6 (Worker_moves 0)"

lemma busy_events:
  "events_of busy = [Tau, Tau, Tau, Tau, Accept 0 7, Tau, Enqueue 0 7, Tau, Tau, Accept 0 8, Tau, Enqueue 0 8, Tau, Tau,
     Tau, Take 0 7, Tau, Work 0 7, Tau, Finish 0 7]"
  by code_simp

lemma busy_proper: "proper {} (events_of busy)"
  unfolding busy_events by simp

lemma busy_up: "kept_up (pool_after busy)"
  unfolding kept_up_def by code_simp

section \<open>Order, number and ownership of the tasks\<close>

text \<open>
  C22. Every run of the threads is a run of the specification with the same events, the queues in memory hold
  the tasks it says, and nowhere does a queue operation follow \<open>NULL\<close> or find no task where the code expects one.
\<close>

theorem pool_refines_spec:
  assumes "pool_run w es w'" "pool_start w" "proper {} es"
  shows "(\<exists>a. spec_run es a \<and> pool_rep w' a) \<and> \<not> pool_fault w'"
  using pool_run_refines [OF assms] pool_rep_no_fault by blast

theorem pool_refines_spec_witness:
  "(\<exists>a. spec_run (events_of busy) a \<and> pool_rep (pool_after busy) a) \<and> \<not> pool_fault (pool_after busy)"
  by (rule pool_refines_spec [OF pool_sample_run pool_sample_start busy_proper])

text \<open>
  C23. Workers take the tasks in the order in which they were queued, a loop reports its tasks in the order in
  which they were finished, and every task accepted from a loop is reported to that loop exactly once - or is still
  under way. \<open>work\<close> is called at most once per time a task is taken, and a task is handed back only after it.
\<close>

theorem tasks_in_order_once:
  assumes "pool_run w es w'" "pool_start w" "proper {} es"
  shows "(\<exists>ts. select enqueued es = select taken es @ ts \<and> queue_rep (tasks w') (pnodes w') (map Task_node ts)) \<and>
    (\<forall>c. \<exists>ts. select (delivered c) es = select (reported c) es @ ts) \<and>
    (\<forall>c t. count_list (select (accepted c) es) t = count_list (select (reported c) es) t +
       of_bool (t \<in> fold under_way es {} \<and> task_ctx (taskmem w' t) = c)) \<and>
    (\<forall>t. count_list (select worked es) t \<le> count_list (select enqueued es) t \<and>
       count_list (select enqueued es) t \<le> count_list (select worked es) t + 1)"
proof -
  obtain a where a: "spec_run es a" "pool_rep w' a" using pool_run_refines [OF assms] by blast
  have q: "queue_rep (tasks w') (pnodes w') (map Task_node (queued a))" and p: "places_rep w' a"
    using a(2) queues_repD(1) by (auto simp: pool_rep_def)
  have under: "t \<in> fold under_way es {} \<and> task_ctx (taskmem w' t) = c \<longleftrightarrow> owner_loop (place a t) = Some c" for c t
    using spec_run_under_way [OF a(1)] places_at(3) [OF p] by (cases "place a t") auto
  show ?thesis
    using spec_fifo [OF a(1)] q spec_reports_in_order [OF a(1)] spec_reported_once [OF a(1)]
      spec_worked_once [OF a(1)] under by auto
qed

theorem tasks_in_order_once_witness:
  "(\<exists>ts. select enqueued (events_of busy) = select taken (events_of busy) @ ts \<and>
      queue_rep (tasks (pool_after busy)) (pnodes (pool_after busy)) (map Task_node ts)) \<and>
    (\<forall>c. \<exists>ts. select (delivered c) (events_of busy) = select (reported c) (events_of busy) @ ts) \<and>
    (\<forall>c t. count_list (select (accepted c) (events_of busy)) t = count_list (select (reported c) (events_of busy)) t +
       of_bool (t \<in> fold under_way (events_of busy) {} \<and> task_ctx (taskmem (pool_after busy) t) = c)) \<and>
    (\<forall>t. count_list (select worked (events_of busy)) t \<le> count_list (select enqueued (events_of busy)) t \<and>
       count_list (select enqueued (events_of busy)) t \<le> count_list (select worked (events_of busy)) t + 1)"
  by (rule tasks_in_order_once [OF pool_sample_run pool_sample_start busy_proper])

text \<open>
  C24. At most one thread is between taking the mutex and giving it back, so the variables of the pool and the queues
  of the loops are never changed by two threads at once.
\<close>

theorem pool_sections_exclusive:
  assumes "pool_run w es w'" "pool_start w" "holds w' th" "holds w' th'"
  shows "th = th'"
proof -
  have "exclusive w'" using control_run [OF assms(1) start_control [OF assms(2)]] by (simp add: control_def)
  then show ?thesis using assms(3,4) by (auto simp: exclusive_def)
qed

text \<open>After \<open>busy\<close> worker 0 has just handed back task 7.\<close>

theorem pool_sections_exclusive_witness:
  "{th. holds (pool_after busy) th} = {Worker 0}"
proof -
  have "holds (pool_after busy) (Worker 0)" by code_simp
  then show ?thesis using pool_sections_exclusive [OF pool_sample_run pool_sample_start] by auto
qed

text \<open>
  C25. No wake-up is lost. Unless the pool is being ended, the tasks in the queue are at most as many as the workers
  that will look at the queue again before they sleep (a submission about to signal counts as one), as soon as
  any worker sleeps. While the pool is being ended, somebody is left to pass the signal on to a sleeping
  worker. A loop with finished tasks has been notified and not read it yet, or is about to collect them.
\<close>

theorem no_wakeup_lost:
  assumes "pool_run w es w'" "pool_start w" "wpc w' i = W_waiting"
  shows "(\<not> abort_threads w' \<longrightarrow> unat (ntasks w') \<le> card {k. idle (wpc w' k)} + of_bool (\<exists>c. lpc w' c = L_submit_signal)) \<and>
    (abort_threads w' \<longrightarrow> (\<exists>k. wpc w' k \<notin> {W_waiting, W_exited, W_abort_unlock})) \<and>
    (\<forall>c. \<not> queue_empty (finished_tasks (ctx w' c)) \<longrightarrow> event_count w' c \<noteq> 0 \<or> lpc w' c \<in> {L_collect_lock, L_collect})"
  using alert_run [OF assms(1,2)] assms(3)
  unfolding alert_def enough_awake_def signal_passed_on_def notified_def awake_def signaling_def sleepers_def by blast

text \<open>Two workers sleep, a task has just been queued.\<close>

definition asleep :: "move list" where
  "asleep = Starts 2 # [Worker_moves 0, Worker_moves 0, Worker_moves 1, Worker_moves 1] @
     Submits 0 7 # [Loop_moves 0, Loop_moves 0]"

theorem no_wakeup_lost_witness:
  "wpc (pool_after asleep) 1 = W_waiting \<and> unat (ntasks (pool_after asleep)) = 1 \<and>
    unat (ntasks (pool_after asleep)) \<le> card {k. idle (wpc (pool_after asleep) k)} +
      of_bool (\<exists>c. lpc (pool_after asleep) c = L_submit_signal)"
proof -
  have "wpc (pool_after asleep) 1 = W_waiting" "unat (ntasks (pool_after asleep)) = 1"
    "\<not> abort_threads (pool_after asleep)" by code_simp+
  then show ?thesis using no_wakeup_lost [OF pool_sample_run pool_sample_start, of asleep 1] by blast
qed

text \<open>
  C26. The references a loop holds for the pool are exactly the tasks it has submitted and not been told of, plus
  the one whose report is just being made: \<open>pd_io_run\<close> cannot return while a task is under way.
\<close>

lemma refs_of_run:
  "pool_run w es w' \<Longrightarrow> pool_start w \<Longrightarrow> proper {} es \<Longrightarrow>
   refs (ctx w' c) - of_bool (reporting w' c) =
   refs (ctx w c) + of_nat (length (select (accepted c) es)) - of_nat (length (select (reported c) es))"
proof (induction rule: pool_run.induct)
  case pool_run_start
  then show ?case by (simp add: reporting_def pool_start_def List.map_filter_def)
next
  case (pool_run_step es w1 e w2)
  then have "proper {} es" by simp
  note IH = pool_run_step(3) [OF pool_run_step(4) this]
  obtain a where a: "pool_rep w1 a"
    using pool_run_refines [OF pool_run_step(1,4) \<open>proper {} es\<close>] by blast
  have acc: "of_nat (length (select (accepted c) (es @ [e]))) =
      (of_nat (length (select (accepted c) es)) + of_bool (\<exists>t. e = Accept c t) :: size_t)"
    by (cases e) (simp_all add: select_snoc)
  have rep: "of_nat (length (select (reported c) (es @ [e]))) =
      (of_nat (length (select (reported c) es)) + of_bool (\<exists>t. e = Done c t) :: size_t)"
    by (cases e) (simp_all add: select_snoc)
  show ?case unfolding refs_step [OF pool_run_step(2) a, of c] acc rep IH by (simp only: algebra_simps)
qed

theorem references_count_tasks:
  assumes "pool_run w es w'" "pool_start w" "proper {} es"
  shows "refs (ctx w' c) = refs (ctx w c) + of_nat (length (select (accepted c) es)) -
    of_nat (length (select (reported c) es)) + of_bool (in_done w' c \<or> lpc w' c = L_ref)"
  using refs_of_run [OF assms, of c] by (simp add: reporting_def algebra_simps)

theorem references_count_tasks_witness:
  "refs (ctx (pool_after busy) 0) = 1 + of_nat (length [7 :: task, 8]) - of_nat (length ([] :: task list)) +
    of_bool (in_done (pool_after busy) 0 \<or> lpc (pool_after busy) 0 = L_ref)"
  using references_count_tasks [OF pool_sample_run pool_sample_start busy_proper, of 0]
  unfolding busy_events by (simp add: List.map_filter_def sample_pool_def sample_loop_def)

section \<open>What becomes of them\<close>

text \<open>
  C27. While no new task is submitted, the pool finishes on every schedule: all workers end up asleep with no task
  in any queue, every task that was ever accepted has been reported, and each loop has its references back. In
  particular no schedule goes on forever or stops before.
\<close>

theorem pool_settles:
  assumes "pool_run w es w'" "pool_start w" "proper {} es" "mux w' \<noteq> Destroyed" "epc w' = E_idle"
  shows "inevitable (\<lambda>es v. settled v \<and>
    (\<forall>c t. count_list (select (accepted c) es) t = count_list (select (reported c) es) t) \<and>
    (\<forall>c. refs (ctx v c) = refs (ctx w c))) es w'"
  by (rule run_settles [OF assms(1-3)]) (simp add: kept_up_def assms(4,5))

theorem pool_settles_witness:
  "inevitable (\<lambda>es v. settled v \<and>
    (\<forall>c t. count_list (select (accepted c) es) t = count_list (select (reported c) es) t) \<and>
    (\<forall>c. refs (ctx v c) = refs (ctx sample_pool c))) (events_of busy) (pool_after busy)"
  by (rule pool_settles [OF pool_sample_run pool_sample_start busy_proper])
    (use busy_up in \<open>simp_all add: kept_up_def\<close>)

text \<open>
  C28. \<open>pd_threadpool_end\<close> comes to its end on every schedule, whatever the workers are doing: all of them are
  woken and leave.
\<close>

theorem pool_end_completes:
  assumes "pool_run w es w'" "pool_start w" "proper {} es" "epc w' \<noteq> E_idle"
  shows "inevitable (\<lambda>es v. nthreads v = 0 \<and> mux v = Destroyed \<and> epc v = E_idle \<and> (\<forall>i. wpc v i = W_exited)) es w'"
  by (rule run_ends [OF assms])

definition ending :: "move list" where
  "ending = busy @ [Ends]"

theorem pool_end_completes_witness:
  "inevitable (\<lambda>es v. nthreads v = 0 \<and> mux v = Destroyed \<and> epc v = E_idle \<and> (\<forall>i. wpc v i = W_exited))
    (events_of ending) (pool_after ending)"
proof (rule pool_end_completes [OF pool_sample_run pool_sample_start])
  have "events_of ending = events_of busy @ [Tau]" by code_simp
  then show "proper {} (events_of ending)" using busy_proper by simp
  show "epc (pool_after ending) \<noteq> E_idle" by code_simp
qed

text \<open>
  C29. A task in the queue when the pool is ended is abandoned: nothing of the pool will ever happen again, and
  the loop it was accepted from keeps a reference and is never told.
\<close>

lemma quiet_rest:
  assumes "\<And>i. wpc w i = W_exited" "\<And>c. lpc w c = L_client \<and> \<not> in_done w c \<and> event_count w c = 0" "epc w = E_idle"
  shows "quiet w"
  unfolding quiet_def
proof (intro allI notI)
  fix e w'
  assume "internal_step w e w'"
  then show False
  proof cases
    case (of_worker i)
    then show False using assms(1) [of i] by cases auto
  next
    case (of_loop c)
    then show False using assms(2) [of c] by cases auto
  next
    case of_ender
    from of_ender(2) show False using assms(3) by cases auto
  qed
qed

definition abandon :: "move list" where
  "abandon = [Starts 1, Submits 0 7] @ replicate 4 (Loop_moves 0) @ Ends # replicate 3 Ender_moves @
     replicate 3 (Worker_moves 0) @ replicate 2 Ender_moves"


end
