(* ===== verification/Event_Loop.thy ===== *)
theory Event_Loop
  imports Tcp_Listener Timers
begin

text \<open>
  Notifiers (\<^verbatim>\<open>src/sys/notifier_unix.c\<close>, as compiled on Linux) and the event loop of \<^verbatim>\<open>src/sys/event_epoll.c\<close>: a
  turn waits for reports of the kernel, calls the handler of each, runs the timers that are due, calls the
  close callbacks that were scheduled, and then the client's function for the end of a turn.

  What the kernel stores in the array of \<^verbatim>\<open>epoll_wait\<close> and in the result of \<^verbatim>\<open>clock_gettime\<close> are two more
  parameters, functions of the history of system calls like the kernel itself. The loop is a
  \<open>partial_function\<close>; it may run for ever.
\<close>

section \<open>Notifiers\<close>

definition pd_notifier_io ::
  "'x tcp_world_scheme client \<Rightarrow> kernel \<Rightarrow> nat \<Rightarrow> uint32 \<Rightarrow> 'x tcp_world_scheme \<Rightarrow>
    'x tcp_world_scheme res" where
  "pd_notifier_io k kern n events w =
     (if events AND PD_POLLIN = 0 then Inr w
      else
        (case notifier_handler (notifiers w n) of
           None \<Rightarrow> Inr w
         | Some _ \<Rightarrow>
             bind_res (loop_res (sys_retry kern (Sys_read (notifier_fd (notifiers w n)) 512) w)) (\<lambda>(st, w).
               if 0 \<le> st then
                 (case notifier_handler (notifiers w n) of
                    None \<Rightarrow> Inl Null_deref
                  | Some h \<Rightarrow> call k (On_notify h n) w)
               else Inr w)))"

definition pd_notifier_init :: "kernel \<Rightarrow> nat \<Rightarrow> 'x tcp_world_scheme \<Rightarrow> 'x tcp_world_scheme" where
  "pd_notifier_init kern n w =
     (let (f, w) = sys kern Sys_eventfd w;
          w = set_notifier n (\<lambda>t. t\<lparr>notifier_fd := f\<rparr>) w;
          (_, w) = pd_set_nonblocking kern f w;
          w = set_notifier n (\<lambda>t. t\<lparr>notifier_handler := None, notifier_event := pd_event_init\<rparr>) w;
          w = set_notifier n (\<lambda>t. t\<lparr>notifier_event := (notifier_event t)\<lparr>handler := Some Notifier_io,
                flags := flags (notifier_event t) OR PD_POLLIN\<rparr>\<rparr>) w;
          (_, w) = pd_event_add kern (Notifier_event n) (notifier_event (notifiers w n)) (notifier_fd (notifiers w n)) w
      in w)"

text \<open>The eight bytes of the \<^verbatim>\<open>int64_t\<close> 1 on a little-endian machine.\<close>

definition pd_notifier_send :: "kernel \<Rightarrow> nat \<Rightarrow> 'x tcp_world_scheme \<Rightarrow> 'x tcp_world_scheme res" where
  "pd_notifier_send kern n w =
     bind_res (loop_res (sys_retry kern (Sys_write (notifier_fd (notifiers w n)) [1, 0, 0, 0, 0, 0, 0, 0]) w))
       (\<lambda>(_, w). Inr w)"

section \<open>The environment of a loop\<close>

text \<open>
  The client, the kernel, the system call that waits on a descriptor for a number of milliseconds, what it
  reports, and the clock. \<open>reports h i\<close> is the \<open>i\<close>-th report after the system calls \<open>h\<close>, the last of which is the
  wait: the event, and its flags translated to those of \<^verbatim>\<open>pd_event_flags\<close>. \<open>clock h\<close> are the seconds and
  nanoseconds read by the call that ends \<open>h\<close>. The files \<^verbatim>\<open>event_epoll.c\<close> and \<^verbatim>\<open>event_kqueue.c\<close> differ in the wait and
  in the translation only: \<open>epoll_env\<close> is the environment for the first.
\<close>

record 'w loop_env =
  client_of :: "'w client"
  kern_of :: kernel
  wait_for :: "int \<Rightarrow> int \<Rightarrow> syscall"
  reports :: "history \<Rightarrow> nat \<Rightarrow> uint32 \<times> event_ref"
  clock :: "history \<Rightarrow> int \<times> int"

definition MAX_EVENTS :: int where
  "MAX_EVENTS = 1024"

definition epoll_wait_for :: "int \<Rightarrow> int \<Rightarrow> syscall" where
  "epoll_wait_for f ms = Sys_epoll_wait f MAX_EVENTS ms"

definition epoll_env ::
  "'w client \<Rightarrow> kernel \<Rightarrow> (history \<Rightarrow> nat \<Rightarrow> uint32 \<times> event_ref) \<Rightarrow> (history \<Rightarrow> int \<times> int) \<Rightarrow> 'w loop_env" where
  "epoll_env k kern events clk = \<lparr>client_of = k, kern_of = kern, wait_for = epoll_wait_for,
     reports = (\<lambda>h i. case events h i of (ev, e) \<Rightarrow> (epoll_pevents ev, e)), clock = clk\<rparr>"

definition pd_now :: "'w loop_env \<Rightarrow> 'x tcp_world_scheme \<Rightarrow> uint64 \<times> 'x tcp_world_scheme" where
  "pd_now E w =
     (case sys (kern_of E) Sys_clock_gettime w of (_, w) \<Rightarrow>
        case clock E (hist w) of (sec, nsec) \<Rightarrow> (word_of_int (sec * 1000 + nsec div 1000000), w))"

text \<open>\<open>n\<close> is the address of the notifier the loop allocates for the threadpool.\<close>

definition pd_io_init :: "'w loop_env \<Rightarrow> nat \<Rightarrow> 'x tcp_world_scheme \<Rightarrow> 'x tcp_world_scheme res" where
  "pd_io_init E n w =
     (let w = set_io (\<lambda>c. c\<lparr>refs := 0, after_tick := None\<rparr>) w;
          (f, w) = sys (kern_of E) Sys_epoll_create w;
          w = set_io (\<lambda>c. c\<lparr>poll_fd := f\<rparr>) w
      in if f = -1 then Inl Exited
         else
           let (t, w) = pd_now E w;
               w = set_io (\<lambda>c. c\<lparr>now := t\<rparr>) w;
               w = set_io (\<lambda>c. c\<lparr>pending_closes := queue_init (pending_closes c)\<rparr>) w;
               w = pd_timers_heap_init w;
               w = set_io (\<lambda>c. c\<lparr>task_signal := Some n\<rparr>) w;
               w = pd_notifier_init (kern_of E) n w;
               w = set_notifier n (\<lambda>t. t\<lparr>notifier_handler := Some Task_done\<rparr>) w;
               w = set_io (\<lambda>c. c\<lparr>task_signaled := False\<rparr>) w;
               w = set_io (\<lambda>c. c\<lparr>finished_tasks := queue_init (finished_tasks c)\<rparr>) w
           in Inr w)"

section \<open>A turn\<close>

text \<open>
  The call \<^verbatim>\<open>pev->handler(pev, pevents)\<close>. An event is embedded in a stream, a listener or a notifier, and its
  handler finds that structure behind \<^verbatim>\<open>event->data\<close>; no code pairs a handler with another structure.
\<close>

definition event_of :: "event_ref \<Rightarrow> 'x tcp_world_scheme \<Rightarrow> pd_event" where
  "event_of e w =
     (case e of Stream_event s \<Rightarrow> event (streams w s)
      | Server_event v \<Rightarrow> server_event (servers w v)
      | Notifier_event n \<Rightarrow> notifier_event (notifiers w n))"

definition handle_event ::
  "'x tcp_world_scheme loop_env \<Rightarrow> uint32 \<times> event_ref \<Rightarrow> 'x tcp_world_scheme \<Rightarrow> 'x tcp_world_scheme res" where
  "handle_event E r w =
     (case r of (p, e) \<Rightarrow>
        case (handler (event_of e w), e) of
          (Some Tcp_client_io, Stream_event s) \<Rightarrow> pd_tcp_client_io (client_of E) (kern_of E) s p w
        | (Some Tcp_connect_io, Stream_event s) \<Rightarrow> pd_tcp_connect_io (client_of E) (kern_of E) s p w
        | (Some Tcp_listener_io, Server_event v) \<Rightarrow> pd_tcp_listener_io (client_of E) (kern_of E) v p w
        | (Some Notifier_io, Notifier_event n) \<Rightarrow> pd_notifier_io (client_of E) (kern_of E) n p w
        | _ \<Rightarrow> Inl Null_deref)"

fun handle_events ::
  "'x tcp_world_scheme loop_env \<Rightarrow> (uint32 \<times> event_ref) list \<Rightarrow> 'x tcp_world_scheme \<Rightarrow>
    'x tcp_world_scheme res" where
  "handle_events E [] w = Inr w"
| "handle_events E (r # rs) w = bind_res (handle_event E r w) (handle_events E rs)"

definition on_timer :: "'w client \<Rightarrow> callback \<Rightarrow> timer \<Rightarrow> 'w \<Rightarrow> 'w res" where
  "on_timer k f t = call k (On_timer f t)"

text \<open>What follows a wait that returned \<open>n\<close> reports.\<close>

definition turn ::
  "'x tcp_world_scheme loop_env \<Rightarrow> nat \<Rightarrow> 'x tcp_world_scheme \<Rightarrow> 'x tcp_world_scheme res" where
  "turn E n w =
     (let rs = map (reports E (hist w)) [0..<n];
          (t, w) = pd_now E w;
          w = set_io (\<lambda>c. c\<lparr>now := t\<rparr>) w
      in bind_res (handle_events E rs w) (\<lambda>w.
         bind_res (run_loop (pd_timers_run (on_timer (client_of E)) w)) (\<lambda>w.
         bind_res (run_loop (pd_tcp_pending_close (client_of E) w)) (\<lambda>w.
           call_opt (client_of E) (after_tick (io w)) After_tick w))))"

section \<open>The loop\<close>

partial_function (option) io_loop ::
  "'x tcp_world_scheme loop_env \<Rightarrow> int \<Rightarrow> 'x tcp_world_scheme \<Rightarrow> 'x tcp_world_scheme res option" where
  "io_loop E ms w =
     (if \<not> refs (io w) > 0 then Some (Inr w)
      else
        (case sys (kern_of E) (wait_for E (poll_fd (io w)) ms) w of (n, w) \<Rightarrow>
           if n = -1 \<and> errno w = EINTR then io_loop E ms w
           else if n = -1 then Some (Inl Exited)
           else
             (case turn E (nat n) w of
                Inl e \<Rightarrow> Some (Inl e)
              | Inr w \<Rightarrow> io_loop E (pd_timers_next w) w)))"

definition pd_io_run ::
  "'x tcp_world_scheme loop_env \<Rightarrow> 'x tcp_world_scheme \<Rightarrow> 'x tcp_world_scheme res option" where
  "pd_io_run E w = io_loop E (pd_timers_next w) w"

end
