(* ===== verification/Loop_Correct.thy ===== *)
theory Loop_Correct
  imports Event_Loop Tcp_Correct
begin

text \<open>
  The event loop keeps the invariant of the streams and the heap of timers, for any client whose calls keep it:
  the lemmas extend the locale \<open>tcp_callbacks\<close> by the timers, listeners, notifiers, a turn and the loop. Of the
  kernel they ask that it reports only events that belong to a structure whose handler is set (\<open>known\<close>). A report of a
  listener without \<^verbatim>\<open>PD_POLLIN\<close> (\<open>unpolled\<close>) ends in the assertion of its handler.
\<close>

section \<open>Registered structures\<close>

definition handled :: "nat set \<Rightarrow> nat set \<Rightarrow> 'x tcp_world_scheme \<Rightarrow> bool" where
  "handled V N w \<longleftrightarrow>
     (\<forall>v \<in> V. handler (server_event (servers w v)) = Some Tcp_listener_io) \<and>
     (\<forall>n \<in> N. handler (notifier_event (notifiers w n)) = Some Notifier_io)"

definition known :: "nat set \<Rightarrow> nat set \<Rightarrow> history \<Rightarrow> uint32 \<times> event_ref \<Rightarrow> bool" where
  "known V N h r \<longleftrightarrow>
     (case r of (p, Stream_event s) \<Rightarrow> Stream_event s \<in> registered h
      | (p, Server_event v) \<Rightarrow> v \<in> V
      | (p, Notifier_event n) \<Rightarrow> n \<in> N)"

text \<open>What a wait stores when it returns \<open>n\<close>: the first \<open>n\<close> reports are of structures that were registered.\<close>

definition reporting :: "nat set \<Rightarrow> nat set \<Rightarrow> 'w loop_env \<Rightarrow> bool" where
  "reporting V N E \<longleftrightarrow>
     (\<forall>h f ms i. let x = (wait_for E f ms, kern_of E h (wait_for E f ms)) in
        int i < snd x \<longrightarrow> known V N (h @ [x]) (reports E (h @ [x]) i))"

definition unpolled :: "uint32 \<times> event_ref \<Rightarrow> bool" where
  "unpolled r \<longleftrightarrow> (\<exists>p v. r = (p, Server_event v) \<and> p AND PD_POLLIN = 0)"

text \<open>Some wait reports a listener so.\<close>

definition reports_unpolled :: "'w loop_env \<Rightarrow> bool" where
  "reports_unpolled E \<longleftrightarrow>
     (\<exists>h f ms i. let x = (wait_for E f ms, kern_of E h (wait_for E f ms)) in
        int i < snd x \<and> unpolled (reports E (h @ [x]) i))"

lemma handled_evolves: "handled V N w \<Longrightarrow> evolves w cl w' cl' \<Longrightarrow> handled V N w'"
  by (simp add: handled_def evolves_def grows_def settled_def)

lemma set_now_inv: "tcp_inv fl w Q cl \<Longrightarrow> tcp_inv fl (set_io (\<lambda>c. c\<lparr>now := t\<rparr>) w) Q cl"
  by (rule tcp_inv_view) (simp_all add: same_view_def same_memory_def)

lemma set_now_evolves [simp]: "evolves w cl (set_io (\<lambda>c. c\<lparr>now := t\<rparr>) w) cl"
  by (simp add: evolves_def grows_def settled_def)

lemma pd_now_view:
  assumes "pd_now E w = (t, w')"
  shows "same_view w w'"
proof -
  obtain r w1 where s: "sys (kern_of E) Sys_clock_gettime w = (r, w1)" by fastforce
  have "same_view w w1" by (rule sys_view [OF _ s]) simp
  moreover have "w' = w1" using assms s by (auto simp: pd_now_def split: prod.splits)
  ultimately show ?thesis by simp
qed

text \<open>A chain of steps, each of which keeps the invariant.\<close>

lemma ok_after_bind:
  assumes "ok_after w cl r"
    and "\<And>w' Q' cl'. tcp_inv None w' Q' cl' \<Longrightarrow> evolves w cl w' cl' \<Longrightarrow> ok_after w' cl' (f w')"
  shows "ok_after w cl (bind_res r f)"
  using assms(1)
proof (cases rule: ok_afterE)
  case (2 w' Q' cl')
  then show ?thesis using ok_after_weaken [OF assms(2) [OF 2(2,3)] 2(3)] by simp
qed simp

lemma ok_after_view:
  assumes "same_view w w'" "ok_after w' cl r"
  shows "ok_after w cl r"
  by (rule ok_after_weaken [OF assms(2) evolves_view [OF assms(1)]])

text \<open>
  The loop ends without references, in a fatal error of the wait, in a callback that never returns, or - if \<open>P\<close> - in the
  assertion of a listener's handler.
\<close>

definition loop_ok :: "bool \<Rightarrow> 'x client_world_scheme \<Rightarrow> sid list \<Rightarrow> 'x client_world_scheme res \<Rightarrow> bool" where
  "loop_ok P w cl r \<longleftrightarrow>
     (case r of Inl e \<Rightarrow> e = Exited \<or> e = Diverged \<or> P \<and> e = Assert_failed | Inr w' \<Rightarrow> refs (io w') = 0 \<and> ok_after w cl r)"

section \<open>Timers\<close>

context tcp_callbacks
begin

lemma timer_fire_ok:
  assumes inv: "tcp_inv None w Q cl"
  shows "ok_after w cl (timer_fire (on_timer k) t w)"
proof -
  obtain w1 where w1: "pd_timer_stop t w = Inr w1" "timer_change w w1"
    using timer_stop_change [OF tcp_invD(15) [OF inv]] .
  have stop: "ok_after w cl (pd_timer_stop t w)"
    unfolding w1(1) by (rule ok_afterI [OF timer_change_inv [OF w1(2) inv]])
  have cb: "ok_after v d (case on_timeout (tmem v t) of None \<Rightarrow> Inr v | Some f \<Rightarrow> on_timer k f t v)"
    if "tcp_inv None v P d" for v P d
    using call_ok [OF log_other [OF that]] ok_afterI [OF that]
    by (auto simp: on_timer_def split: option.split)
  have again: "ok_after v d (if interval (tmem v t) \<noteq> 0
      then pd_timer_start t (on_timeout (tmem v t)) (interval (tmem v t)) v else Inr v)"
    if v: "tcp_inv None v P d" for v P d
  proof -
    obtain v' where "pd_timer_start t (on_timeout (tmem v t)) (interval (tmem v t)) v = Inr v'" "timer_change v v'"
      using timer_start_change [OF tcp_invD(15) [OF v]] .
    then show ?thesis using ok_afterI [OF timer_change_inv [OF _ v]] ok_afterI [OF v] by simp
  qed
  show ?thesis unfolding timer_fire_def
    by (rule ok_after_bind [OF stop ok_after_bind [OF cb again]])
qed

lemma pd_timers_run_ok:
  assumes "pd_timers_run (on_timer k) w = Some r" "tcp_inv None w Q cl"
  shows "ok_after w cl r"
proof -
  have "k' = on_timer k \<longrightarrow> (\<forall>Q cl. tcp_inv None w Q cl \<longrightarrow> ok_after w cl r)"
    if "pd_timers_run k' w = Some r" for k'
  proof (rule pd_timers_run.raw_induct [OF _ that], intro impI allI)
    fix run k' and w :: "'x client_world_scheme" and r Q cl
    assume IH: "\<And>k' w r. run k' w = Some r \<Longrightarrow> k' = on_timer k \<longrightarrow> (\<forall>Q cl. tcp_inv None w Q cl \<longrightarrow> ok_after w cl r)"
      and body: "(case heap_peek (timers (io w)) of None \<Rightarrow> Some (Inr w)
        | Some t \<Rightarrow> if now (io w) < timeout (tmem w t) then Some (Inr w)
            else case timer_fire k' t w of Inl e \<Rightarrow> Some (Inl e) | Inr w \<Rightarrow> run k' w) = Some r"
      and k: "k' = on_timer k" and inv: "tcp_inv None w Q cl"
    show "ok_after w cl r"
    proof (cases "\<exists>t. heap_peek (timers (io w)) = Some t \<and> \<not> now (io w) < timeout (tmem w t)")
      case False
      then have "r = Inr w" using body by (auto split: option.splits if_splits)
      then show ?thesis using ok_afterI [OF inv evolves_refl] by simp
    next
      case True
      then obtain t where t: "heap_peek (timers (io w)) = Some t" "\<not> now (io w) < timeout (tmem w t)" by blast
      from timer_fire_ok [OF inv, of t] show ?thesis
      proof (cases rule: ok_afterE)
        case 1
        then have "r = Inl Diverged" using body t k by auto
        then show ?thesis by simp
      next
        case (2 w2 Q2 cl2)
        then have "run (on_timer k) w2 = Some r" using body t k by simp
        then show ?thesis using IH 2(2) ok_after_weaken [OF _ 2(3)] by blast
      qed
    qed
  qed
  then show ?thesis using assms by blast
qed

section \<open>Listeners and notifiers\<close>

lemma pd_notifier_io_ok:
  assumes inv: "tcp_inv None w Q cl"
  shows "ok_after w cl (pd_notifier_io k kern n events w)"
proof (cases "events AND PD_POLLIN \<noteq> 0 \<and> notifier_handler (notifiers w n) \<noteq> None")
  case False
  then show ?thesis using ok_afterI [OF inv evolves_refl] by (auto simp: pd_notifier_io_def)
next
  case True
  then obtain h where h: "notifier_handler (notifiers w n) = Some h" by blast
  show ?thesis
  proof (cases "sys_retry kern (Sys_read (notifier_fd (notifiers w n)) 512) w")
    case None
    then show ?thesis using True h by (simp add: pd_notifier_io_def)
  next
    case (Some sw)
    then obtain st w1 where rd: "sys_retry kern (Sys_read (notifier_fd (notifiers w n)) 512) w = Some (st, w1)"
      by (cases sw) auto
    have v: "same_view w w1" by (rule sys_retry_view [OF rd]) simp
    note i = tcp_inv_view [OF v inv]
    have h1: "notifier_handler (notifiers w1 n) = Some h" using h v by (simp add: same_view_def same_memory_def)
    have "ok_after w1 cl (call k (On_notify h n) w1)" by (rule call_ok [OF log_other [OF i]]) simp_all
    then show ?thesis
      using True h h1 rd ok_afterI [OF i evolves_view [OF v]] ok_after_view [OF v]
      by (simp add: pd_notifier_io_def)
  qed
qed

section \<open>A turn and the loop\<close>

lemma handle_event_ok:
  assumes inv: "tcp_inv None w Q cl" and "handled V N w" "known V N h r" "\<forall>s. Stream_event s \<in> registered h \<longrightarrow> attached w s"
    and E: "client_of E = k" "kern_of E = kern"
  shows "ok_polled (unpolled r) w cl (handle_event E r w)"
proof -
  obtain p e where r: "r = (p, e)" by fastforce
  show ?thesis
  proof (cases e)
    case (Stream_event s)
    then have "handler (event (streams w s)) = Some Tcp_client_io"
      using assms(3,4) sockets_okD(3) [OF tcp_invD(9) [OF inv]] by (simp add: r known_def)
    then show ?thesis using Stream_event assms(5,6) ok_polledI [OF pd_tcp_client_io_ok [OF inv]]
      by (simp add: r handle_event_def event_of_def)
  next
    case (Server_event v)
    then show ?thesis using assms ok_polled_mono [OF listener_io_polled [OF inv], of p "unpolled r" v]
      by (simp add: r handle_event_def event_of_def handled_def known_def unpolled_def)
  next
    case (Notifier_event n)
    then show ?thesis using assms ok_polledI [OF pd_notifier_io_ok [OF inv]]
      by (simp add: r handle_event_def event_of_def handled_def known_def)
  qed
qed

lemma handle_events_ok:
  assumes "tcp_inv None w Q cl" "handled V N w" "\<forall>r \<in> set rs. known V N h r"
    and "\<forall>s. Stream_event s \<in> registered h \<longrightarrow> attached w s"
    and E: "client_of E = k" "kern_of E = kern"
  shows "ok_polled (\<exists>r \<in> set rs. unpolled r) w cl (handle_events E rs w)"
  using assms(1-4)
proof (induction rs arbitrary: w Q cl)
  case Nil
  then show ?case using ok_afterI [OF _ evolves_refl] by simp
next
  case (Cons r rs)
  let ?P = "\<exists>x \<in> set (r # rs). unpolled x"
  have "ok_polled (unpolled r) w cl (handle_event E r w)"
    by (rule handle_event_ok [OF Cons.prems(1,2) _ Cons.prems(4) E]) (use Cons in auto)
  then have "ok_polled ?P w cl (handle_event E r w)" by (rule ok_polled_mono) simp
  then have "ok_polled ?P w cl (bind_res (handle_event E r w) (handle_events E rs))"
  proof (rule ok_polled_bind)
    fix w' Q' cl'
    assume inv': "tcp_inv None w' Q' cl'" and ev: "evolves w cl w' cl'"
    have "\<forall>s. Stream_event s \<in> registered h \<longrightarrow> attached w' s"
      using Cons.prems(4) ev by (auto simp: evolves_def grows_def attached_def)
    then have "ok_polled (\<exists>r \<in> set rs. unpolled r) w' cl' (handle_events E rs w')"
      using Cons.IH [OF inv' handled_evolves [OF Cons.prems(2) ev]] Cons.prems(3) by simp
    then show "ok_polled ?P w' cl' (handle_events E rs w')" by (rule ok_polled_mono) simp
  qed
  then show ?case by simp
qed

lemma turn_ok:
  assumes inv: "tcp_inv None w Q cl" and h: "handled V N w" and rs: "\<And>i. i < n \<Longrightarrow> known V N (hist w) (reports E (hist w) i)"
    and E: "client_of E = k" "kern_of E = kern"
  shows "ok_polled (\<exists>i < n. unpolled (reports E (hist w) i)) w cl (turn E n w)"
proof -
  obtain t w1 where now: "pd_now E w = (t, w1)" by fastforce
  note v = pd_now_view [OF now]
  let ?w = "set_io (\<lambda>c. c\<lparr>now := t\<rparr>) w1"
  have i: "tcp_inv None ?w Q cl" by (rule set_now_inv [OF tcp_inv_view [OF v inv]])
  have ev: "evolves w cl ?w cl" by (rule evolves_trans [OF evolves_view [OF v] set_now_evolves])
  let ?P = "\<exists>i < n. unpolled (reports E (hist w) i)"
  have "ok_polled (\<exists>r \<in> set (map (reports E (hist w)) [0..<n]). unpolled r) ?w cl
      (handle_events E (map (reports E (hist w)) [0..<n]) ?w)"
  proof (rule handle_events_ok [OF i handled_evolves [OF h ev] _ _ E])
    show "\<forall>r \<in> set (map (reports E (hist w)) [0..<n]). known V N (hist w) r" using rs by simp
    show "\<forall>s. Stream_event s \<in> registered (hist w) \<longrightarrow> attached ?w s"
      using sockets_okD(9) [OF tcp_invD(9) [OF inv]] ev by (auto simp: evolves_def grows_def attached_def)
  qed
  then have events: "ok_polled ?P ?w cl (handle_events E (map (reports E (hist w)) [0..<n]) ?w)"
    by (rule ok_polled_mono) auto
  have timers: "ok_after v d (run_loop (pd_timers_run (on_timer k) v))" if "tcp_inv None v P d" for v P d
    using pd_timers_run_ok [OF _ that] by (auto simp: run_loop_def split: option.split)
  have closes: "ok_after v d (run_loop (pd_tcp_pending_close k v))" if "tcp_inv None v P d" for v P d
    using pd_tcp_pending_close_ok [OF _ that] by (auto simp: run_loop_def split: option.split)
  have tick: "ok_after v d (call_opt k (after_tick (io v)) After_tick v)" if "tcp_inv None v P d" for v P d
    by (rule other_cb_ok(2) [OF that]) simp_all
  have "ok_polled ?P ?w cl (turn E n w)"
    unfolding turn_def now Let_def E prod.case
    by (rule ok_polled_bind [OF events ok_polledI [OF ok_after_bind [OF timers ok_after_bind [OF closes tick]]]])
  then show ?thesis by (rule ok_polled_weaken [OF _ ev])
qed

lemma io_loop_ok:
  assumes "io_loop E ms w = Some r" "tcp_inv None w Q cl" "handled V N w"
    and rs: "reporting V N E" and E: "client_of E = k" "kern_of E = kern"
    and wait: "\<And>f ms. plain (wait_for E f ms)"
  shows "loop_ok (reports_unpolled E) w cl r"
proof -
  let ?P = "reports_unpolled E"
  have "E' = E \<longrightarrow> (\<forall>Q cl. tcp_inv None w Q cl \<longrightarrow> handled V N w \<longrightarrow> loop_ok ?P w cl r)"
    if "io_loop E' ms w = Some r" for E'
  proof (rule io_loop.raw_induct [OF _ that], intro impI allI)
    fix run E' ms and w :: "'x client_world_scheme" and r Q cl
    assume IH: "\<And>E' ms w r. run E' ms w = Some r \<Longrightarrow>
        E' = E \<longrightarrow> (\<forall>Q cl. tcp_inv None w Q cl \<longrightarrow> handled V N w \<longrightarrow> loop_ok ?P w cl r)"
      and body: "(if \<not> refs (io w) > 0 then Some (Inr w)
        else case sys (kern_of E') (wait_for E' (poll_fd (io w)) ms) w of (n, w) \<Rightarrow>
          if n = -1 \<and> errno w = EINTR then run E' ms w
          else if n = -1 then Some (Inl Exited)
          else case turn E' (nat n) w of Inl e \<Rightarrow> Some (Inl e) | Inr w \<Rightarrow> run E' (pd_timers_next w) w) = Some r"
      and E': "E' = E" and inv: "tcp_inv None w Q cl" and h: "handled V N w"
    obtain n w1 where waited: "sys kern (wait_for E (poll_fd (io w)) ms) w = (n, w1)" by fastforce
    have v: "same_view w w1" by (rule sys_view [OF wait waited])
    note i = tcp_inv_view [OF v inv] and ev = evolves_view [OF v, of cl]
    have weaken: "loop_ok ?P w cl r" if "loop_ok ?P w' cl' r" "evolves w cl w' cl'" for w' cl'
      using that ok_after_weaken by (auto simp: loop_ok_def split: sum.splits)
    consider "refs (io w) = 0" | "refs (io w) \<noteq> 0" "n = -1" "errno w1 = EINTR"
      | "refs (io w) \<noteq> 0" "n = -1" "errno w1 \<noteq> EINTR" | "refs (io w) \<noteq> 0" "n \<noteq> -1" by blast
    then show "loop_ok ?P w cl r"
    proof cases
      case 1
      then show ?thesis using body ok_afterI [OF inv evolves_refl] by (auto simp: loop_ok_def)
    next
      case 2
      then have "run E ms w1 = Some r" using body waited E E' by (simp add: word_gt_0)
      then show ?thesis using IH i handled_evolves [OF h ev] weaken [OF _ ev] by blast
    next
      case 3
      then show ?thesis using body waited E E' by (auto simp: loop_ok_def word_gt_0)
    next
      case 4
      have "known V N (hist w1) (reports E (hist w1) i)" if "i < nat n" for i
        using rs waited that unfolding reporting_def E
        by (auto simp: sys_def Let_def split: if_splits)
      then have "ok_polled (\<exists>i < nat n. unpolled (reports E (hist w1) i)) w1 cl (turn E (nat n) w1)"
        by (rule turn_ok [OF i handled_evolves [OF h ev] _ E])
      moreover have ?P if "i < nat n" "unpolled (reports E (hist w1) i)" for i
        using waited that unfolding reports_unpolled_def E
        by (intro exI [of _ "hist w"] exI [of _ "poll_fd (io w)"] exI [of _ ms] exI [of _ i])
          (auto simp: sys_def Let_def split: if_splits)
      ultimately have turn: "ok_polled ?P w1 cl (turn E (nat n) w1)" using ok_polled_mono by blast
      show ?thesis
      proof (cases "turn E (nat n) w1")
        case (Inl e)
        then have "r = Inl e" using 4 body waited E E' by (auto simp: word_gt_0)
        then show ?thesis using turn Inl by (simp add: loop_ok_def)
      next
        case (Inr w2)
        then obtain Q2 cl2 where 2: "tcp_inv None w2 Q2 cl2" "evolves w1 cl w2 cl2"
          using turn by (auto simp: ok_after_def)
        have ev2: "evolves w cl w2 cl2" by (rule evolves_trans [OF ev 2(2)])
        have "run E (pd_timers_next w2) w2 = Some r" using 4 Inr body waited E E' by (simp add: word_gt_0)
        then show ?thesis using IH 2(1) handled_evolves [OF h ev2] weaken [OF _ ev2] by blast
      qed
    qed
  qed
  then show ?thesis using assms by blast
qed

end

end
