(* ===== verification/Loop_Timers.thy ===== *)
theory Loop_Timers
  imports Loop_Correct
begin

text \<open>
  The event loop on timers alone, with a client that only listens: what it takes for the loop to come to its
  end. \<open>only_timers\<close> describes a loop all of whose references are timers that fire once.
\<close>

section \<open>A run of the timers for a listening client\<close>

definition listens :: "'x client_world_scheme client \<Rightarrow> bool" where
  "listens k \<longleftrightarrow> (\<forall>c w. call k c w = Inr (log_call c w))"

definition timer_call :: "timer_mem \<Rightarrow> timer \<Rightarrow> call option" where
  "timer_call m t = map_option (\<lambda>f. On_timer f t) (on_timeout (m t))"

abbreviation timer_calls :: "timer_mem \<Rightarrow> timer list \<Rightarrow> call list" where
  "timer_calls m ts \<equiv> List.map_filter (timer_call m) ts"

definition once :: "'x io_world_scheme \<Rightarrow> bool" where
  "once w \<longleftrightarrow> (\<forall>t. active (tmem w t) \<longrightarrow> interval (tmem w t) = 0)"

text \<open>\<open>fired_all w ts w'\<close>: the timers \<open>ts\<close> have fired and nothing else has happened.\<close>

definition fired_all :: "'x client_world_scheme \<Rightarrow> timer list \<Rightarrow> 'x client_world_scheme \<Rightarrow> bool" where
  "fired_all w ts w' \<longleftrightarrow> timers_ok w' \<and>
     tmem w' = (\<lambda>t. if t \<in> set ts then (tmem w t)\<lparr>active := False\<rparr> else tmem w t) \<and>
     calls w' = calls w @ timer_calls (tmem w) ts \<and> refs (io w') = refs (io w) - of_nat (length ts) \<and>
     now (io w') = now (io w) \<and> pending_closes (io w') = pending_closes (io w) \<and>
     after_tick (io w') = after_tick (io w) \<and> poll_fd (io w') = poll_fd (io w) \<and> hist w' = hist w"

lemma fired_none: "timers_ok w \<Longrightarrow> fired_all w [] w"
  by (simp add: fired_all_def List.map_filter_def)

lemma fired_trans:
  assumes "fired_all w ts w'" "fired_all w' us w''" "set ts \<inter> set us = {}"
  shows "fired_all w (ts @ us) w''"
proof -
  have tm: "tmem w' t = tmem w t" if "t \<in> set us" for t using assms(1,3) that by (auto simp: fired_all_def)
  have "timer_calls (tmem w') us = timer_calls (tmem w) us"
    using tm by (simp add: List.map_filter_def timer_call_def cong: map_cong filter_cong)
  moreover have "timer_calls (tmem w) (ts @ us) = timer_calls (tmem w) ts @ timer_calls (tmem w) us"
    by (simp add: List.map_filter_def)
  moreover have "tmem w'' = (\<lambda>t. if t \<in> set (ts @ us) then (tmem w t)\<lparr>active := False\<rparr> else tmem w t)"
    using assms by (auto simp: fired_all_def fun_eq_iff)
  ultimately show ?thesis using assms(1,2) by (simp add: fired_all_def diff_diff_add)
qed

lemma passive_fire:
  assumes "listens k" "timers_ok w" "active (tmem w t)" "interval (tmem w t) = 0"
  obtains w' where "timer_fire (on_timer k) t w = Inr w'" "fired_all w [t] w'"
proof -
  from pd_timer_stop_ok [OF assms(2,3)] obtain w1 h mem where w1: "pd_timer_stop t w = Inr w1" "timers_ok w1"
    "w1 = w\<lparr>tmem := (tmem w)(t := (tmem w t)\<lparr>active := False\<rparr>),
      io := (io w)\<lparr>refs := refs (io w) - 1, timers := h\<rparr>, hnodes := mem\<rparr>" .
  define w2 where "w2 = (case on_timeout (tmem w t) of None \<Rightarrow> w1 | Some f \<Rightarrow> log_call (On_timer f t) w1)"
  have call: "(case on_timeout (tmem w1 t) of None \<Rightarrow> Inr w1 | Some f \<Rightarrow> on_timer k f t w1) = Inr w2"
    using assms(1) w1(3) by (simp add: w2_def on_timer_def listens_def split: option.split)
  have same: "io w2 = io w1" "tmem w2 = tmem w1" "hist w2 = hist w1"
    by (simp_all add: w2_def log_call_def split: option.split)
  have ok2: "timers_ok w2" using w1(2) by (simp add: w2_def split: option.split)
  have "interval (tmem w2 t) = 0" using same(2) w1(3) assms(4) by simp
  then have "timer_fire (on_timer k) t w = Inr w2"
    using w1(1) call by (simp add: timer_fire_def)
  moreover have "calls w2 = calls w @ timer_calls (tmem w) [t]"
    using w1(3) by (simp add: w2_def log_call_def timer_call_def List.map_filter_def split: option.split)
  then have "fired_all w [t] w2"
    using w1(3) same ok2 by (simp add: fired_all_def fun_eq_iff)
  ultimately show thesis by (rule that)
qed

lemma passive_run:
  assumes "listens k" "timers_ok w" "once w"
  shows "\<exists>ts w'. pd_timers_run (on_timer k) w = Some (Inr w') \<and> fired_all w ts w' \<and> distinct ts \<and>
    set ts = due w \<and> sorted (map (due_at (tmem w)) ts)"
  using assms(2,3)
proof (induction "card (due w)" arbitrary: w rule: less_induct)
  case less
  show ?case
  proof (cases "due w = {}")
    case True
    then show ?thesis using pd_timers_run_done [OF less.prems(1) True] fired_none [OF less.prems(1)]
      by (intro exI [of _ "[]"] exI [of _ w]) simp
  next
    case False
    from less.prems(1) False obtain t where t: "t \<in> due w"
      "\<And>u. u \<in> due w \<Longrightarrow> due_at (tmem w) t \<le> due_at (tmem w) u"
      "\<And>k. pd_timers_run k w = (case timer_fire k t w of Inl e \<Rightarrow> Some (Inl e)
        | Inr w \<Rightarrow> pd_timers_run k w)" by (rule pd_timers_run_step) blast
    have act: "active (tmem w t)" "interval (tmem w t) = 0"
      using t(1) less.prems(2) by (auto simp: due_def once_def)
    obtain w1 where w1: "timer_fire (on_timer k) t w = Inr w1" "fired_all w [t] w1"
      using passive_fire [OF assms(1) less.prems(1) act] .
    note F = w1(2) [unfolded fired_all_def]
    have due1: "due w1 = due w - {t}" using F by (auto simp: due_def)
    have "card (due w1) < card (due w)" using due1 t(1) by (intro psubset_card_mono) auto
    moreover have "timers_ok w1" "once w1" using F less.prems(2) by (auto simp: once_def)
    ultimately obtain ts w' where w': "pd_timers_run (on_timer k) w1 = Some (Inr w')" "fired_all w1 ts w'"
      "distinct ts" "set ts = due w1" "sorted (map (due_at (tmem w1)) ts)" using less.hyps by blast
    have tm: "due_at (tmem w1) u = due_at (tmem w) u" for u using F by simp
    have "fired_all w ([t] @ ts) w'" by (rule fired_trans [OF w1(2) w'(2)]) (use w'(4) due1 in auto)
    moreover have "sorted (map (due_at (tmem w)) (t # ts))" using w'(4,5) due1 t(2) tm by auto
    moreover have "pd_timers_run (on_timer k) w = Some (Inr w')" using t(3) w1(1) w'(1) by simp
    moreover have "set (t # ts) = due w" "distinct (t # ts)" using w'(3,4) due1 t(1) by auto
    ultimately show ?thesis by (metis append_Cons append_Nil)
  qed
qed

section \<open>A turn without reports\<close>

definition only_timers :: "'x client_world_scheme \<Rightarrow> bool" where
  "only_timers w \<longleftrightarrow> timers_ok w \<and> once w \<and> refs (io w) = of_nat (card (active_timers w)) \<and>
     (\<forall>t. active (tmem w t) \<longrightarrow> now (io w) \<le> timeout (tmem w t)) \<and>
     queue_empty (pending_closes (io w)) \<and> after_tick (io w) = None"

definition millis :: "int \<times> int \<Rightarrow> int" where
  "millis t = fst t * 1000 + snd t div 1000000"

lemma refs_0_active: "only_timers w \<Longrightarrow> refs (io w) = 0 \<longleftrightarrow> active_timers w = {}"
proof -
  assume "only_timers w"
  then have "unat (refs (io w)) = card (active_timers w)"
    using card_timers_bound(2) [of "active_timers w"]
    by (simp add: only_timers_def unat_of_nat take_bit_nat_eq_self)
  moreover have "finite (active_timers w)" by (rule finite)
  ultimately show ?thesis by (metis card_0_eq unat_eq_0)
qed

text \<open>After a wait for which the kernel has nothing to report: the clock is read and the due timers fire.\<close>

lemma quiet_turn:
  assumes "only_timers w" "client_of E = k" "listens k" and clock: "uint (now (io w)) \<le> t" "t < 2 ^ 64"
    and t: "millis (clock E (hist w @ [(Sys_clock_gettime, kern_of E (hist w) Sys_clock_gettime)])) = t"
  obtains ts w' where "turn E 0 w = Inr w'" "only_timers w'" "distinct ts"
    "set ts = {u \<in> active_timers w. uint (timeout (tmem w u)) \<le> t}" "sorted (map (due_at (tmem w)) ts)"
    "active_timers w' = active_timers w - set ts" "\<And>u. u \<notin> set ts \<Longrightarrow> tmem w' u = tmem w u"
    "calls w' = calls w @ timer_calls (tmem w) ts" "uint (now (io w')) = t"
    "hist w' = hist w @ [(Sys_clock_gettime, kern_of E (hist w) Sys_clock_gettime)]" "\<And>u. active (tmem w' u) \<Longrightarrow> now (io w') < timeout (tmem w' u)"
proof -
  obtain r w1 where s: "sys (kern_of E) Sys_clock_gettime w = (r, w1)" by fastforce
  let ?r = "kern_of E (hist w) Sys_clock_gettime"
  from s have w1: "hist w1 = hist w @ [(Sys_clock_gettime, ?r)]" "io w1 = io w" "tmem w1 = tmem w"
    "calls w1 = calls w" "hnodes w1 = hnodes w" by (auto simp: sys_def Let_def split: if_splits)
  let ?t = "word_of_int t :: uint64"
  have now: "pd_now E w = (?t, w1)"
    using s t w1(1) by (auto simp: pd_now_def millis_def split: prod.split)
  let ?w = "set_io (\<lambda>c. c\<lparr>now := ?t\<rparr>) w1"
  have "0 \<le> t" using clock(1) uint_ge_0 order_trans by blast
  then have ut: "uint ?t = t" using clock by (simp add: uint_word_of_int_eq take_bit_int_eq_self)
  have W: "timers_ok ?w" "once ?w" using assms(1) w1 timers_ok_fields [of ?w w]
    by (simp_all add: only_timers_def once_def)
  obtain ts w2 where run: "pd_timers_run (on_timer k) ?w = Some (Inr w2)" "fired_all ?w ts w2" "distinct ts"
    "set ts = due ?w" "sorted (map (due_at (tmem ?w)) ts)" using passive_run [OF assms(3) W] by blast
  note F = run(2) [unfolded fired_all_def]
  have due: "set ts = {u \<in> active_timers w. uint (timeout (tmem w u)) \<le> t}"
    unfolding run(4) by (simp add: due_def active_timers_def w1(3) word_le_def ut)
  have closes: "pd_tcp_pending_close k w2 = Some (Inr w2)"
    using F assms(1) w1(2) by (simp add: pd_tcp_pending_close.simps only_timers_def)
  have "turn E 0 w = Inr w2"
    using run(1) closes F assms(1,2) w1(2)
    by (simp add: turn_def now Let_def run_loop_def call_opt_def only_timers_def)
  note the_turn = this
  have act: "active_timers w2 = active_timers w - set ts"
    using F w1(3) due by (auto simp: active_timers_def)
  have later: "now (io w2) < timeout (tmem w2 u)" if "active (tmem w2 u)" for u
    using that F w1(3) due ut by (auto simp: active_timers_def word_less_def split: if_splits)
  have ot: "only_timers w2"
  proof -
    have sub: "set ts \<subseteq> active_timers w" using due by blast
    have "card (active_timers w - set ts) = card (active_timers w) - length ts"
      using sub by (simp add: card_Diff_subset distinct_card [OF run(3)])
    moreover have "length ts \<le> card (active_timers w)"
      using card_mono [OF finite sub] by (simp add: distinct_card [OF run(3)])
    ultimately have "refs (io w2) = of_nat (card (active_timers w2))"
      using F assms(1) w1(2) act by (simp add: only_timers_def of_nat_diff)
    moreover have "once w2" using F W(2) by (auto simp: once_def)
    moreover have "timers_ok w2" "queue_empty (pending_closes (io w2))" "after_tick (io w2) = None"
      using F assms(1) w1(2) by (simp_all add: only_timers_def)
    ultimately show ?thesis using later less_imp_le unfolding only_timers_def by blast
  qed
  have rest: "sorted (map (due_at (tmem w)) ts)" "\<And>u. u \<notin> set ts \<Longrightarrow> tmem w2 u = tmem w u"
    "calls w2 = calls w @ timer_calls (tmem w) ts" "uint (now (io w2)) = t"
    "hist w2 = hist w @ [(Sys_clock_gettime, ?r)]"
    using run(5) F w1 ut by simp_all
  show thesis by (rule that [OF the_turn ot run(3) due rest(1) act rest(2-5) later])
qed

section \<open>The whole loop\<close>

text \<open>The time to wait: never past the earliest deadline, and not at all only if it has come.\<close>

lemma next_wait:
  assumes "only_timers w" "active (tmem w u)"
  obtains t where "active (tmem w t)" "0 \<le> pd_timers_next w"
    "uint (now (io w)) + pd_timers_next w \<le> uint (timeout (tmem w t))"
    "\<And>v. active (tmem w v) \<Longrightarrow> timeout (tmem w t) \<le> timeout (tmem w v)"
    "pd_timers_next w = INT_MAX \<or> uint (now (io w)) + pd_timers_next w = uint (timeout (tmem w t))"
proof -
  have ok: "timers_ok w" using assms(1) by (simp add: only_timers_def)
  obtain t where t: "heap_peek (timers (io w)) = Some t"
    using peek_due(1) [OF ok] assms(2) by (cases "heap_peek (timers (io w))") (auto simp: active_timers_def)
  note P = peek_due(2,3) [OF ok t]
  have le: "now (io w) \<le> timeout (tmem w t)" using assms(1) P(1) by (simp add: only_timers_def)
  then have d: "uint (timeout (tmem w t) - now (io w)) = uint (timeout (tmem w t)) - uint (now (io w))"
    by (simp add: uint_sub_lem [THEN iffD1] word_le_def)
  have n: "pd_timers_next w = min INT_MAX (uint (timeout (tmem w t)) - uint (now (io w)))"
    by (simp add: pd_timers_next_def t Let_def d)
  have "0 \<le> INT_MAX" by (simp add: INT_MAX_def)
  with le n P show thesis by (intro that [of t]) (auto simp: word_le_def)
qed

text \<open>
  A kernel that never has anything to report, and waits at least as long as it is asked to; the clock does not
  run past \<open>2 ^ 64\<close> milliseconds while it waits for a time in the first half of its range.
\<close>

definition sleeps :: "'w loop_env \<Rightarrow> bool" where
  "sleeps E \<longleftrightarrow> (\<forall>h f ms.
     kern_of E h (wait_for E f ms) = 0 \<and>
     (let h1 = h @ [(wait_for E f ms, 0)];
          t = millis (clock E h);
          t' = millis (clock E (h1 @ [(Sys_clock_gettime, kern_of E h1 Sys_clock_gettime)]))
      in 0 \<le> ms \<longrightarrow> t + ms < 2 ^ 63 \<longrightarrow> t + ms \<le> t' \<and> t' < 2 ^ 64))"

lemma loop_drains:
  assumes "client_of E = k" "listens k" "sleeps E"
  shows "only_timers w \<Longrightarrow> \<forall>t. active (tmem w t) \<longrightarrow> uint (timeout (tmem w t)) < 2 ^ 63 \<Longrightarrow>
    uint (now (io w)) = millis (clock E (hist w)) \<Longrightarrow>
    \<exists>ts w'. io_loop E (pd_timers_next w) w = Some (Inr w') \<and> active_timers w' = {} \<and> distinct ts \<and>
      set ts = active_timers w \<and> sorted (map (due_at (tmem w)) ts) \<and> calls w' = calls w @ timer_calls (tmem w) ts"
proof (induction "card (active_timers w) + nat (2 ^ 64 - uint (now (io w)))" arbitrary: w rule: less_induct)
  case less
  show ?case
  proof (cases "active_timers w = {}")
    case True
    then have "io_loop E (pd_timers_next w) w = Some (Inr w)"
      using refs_0_active [OF less.prems(1)] by (simp add: io_loop.simps)
    then show ?thesis using True by (intro exI [of _ "[]"] exI [of _ w]) (simp add: List.map_filter_def)
  next
    case False
    then obtain u where "active (tmem w u)" by (auto simp: active_timers_def)
    from next_wait [OF less.prems(1) this] obtain e where e: "active (tmem w e)" "0 \<le> pd_timers_next w"
      "uint (now (io w)) + pd_timers_next w \<le> uint (timeout (tmem w e))"
      "\<And>v. active (tmem w v) \<Longrightarrow> timeout (tmem w e) \<le> timeout (tmem w v)"
      "pd_timers_next w = INT_MAX \<or> uint (now (io w)) + pd_timers_next w = uint (timeout (tmem w e))" by metis
    define c where "c = wait_for E (poll_fd (io w)) (pd_timers_next w)"
    define w1 where "w1 = w\<lparr>hist := hist w @ [(c, 0)]\<rparr>"
    define t where "t = millis (clock E (hist w1 @ [(Sys_clock_gettime, kern_of E (hist w1) Sys_clock_gettime)]))"
    have k0: "kern_of E (hist w) c = 0" using assms(3) by (simp add: sleeps_def c_def)
    have wait: "sys (kern_of E) c w = (0, w1)" by (simp add: sys_def k0 w1_def)
    have below: "uint (now (io w)) + pd_timers_next w < 2 ^ 63" using e(1,3) less.prems(2) by force
    have t: "uint (now (io w)) + pd_timers_next w \<le> t" "t < 2 ^ 64"
      using assms(3) e(2) below less.prems(3) unfolding sleeps_def Let_def t_def w1_def c_def by auto
    have same: "io w1 = io w" "tmem w1 = tmem w" "calls w1 = calls w" "active_timers w1 = active_timers w"
      by (simp_all add: w1_def active_timers_def)
    have ot: "only_timers w1"
      using less.prems(1) same timers_ok_fields [of w1 w] by (simp add: only_timers_def once_def w1_def)
    have "uint (now (io w1)) \<le> t" using e(2) t(1) same(1) by simp
    note quiet = quiet_turn [OF ot assms(1,2) this t(2) t_def [symmetric], unfolded same]
    obtain ts w2 where T: "turn E 0 w1 = Inr w2" "only_timers w2" "distinct ts"
      "set ts = {u \<in> active_timers w. uint (timeout (tmem w u)) \<le> t}" "sorted (map (due_at (tmem w)) ts)"
      "active_timers w2 = active_timers w - set ts" "\<And>u. u \<notin> set ts \<Longrightarrow> tmem w2 u = tmem w u"
      "calls w2 = calls w @ timer_calls (tmem w) ts" "uint (now (io w2)) = t"
      "hist w2 = hist w1 @ [(Sys_clock_gettime, kern_of E (hist w1) Sys_clock_gettime)]"
      "\<And>u. active (tmem w2 u) \<Longrightarrow> now (io w2) < timeout (tmem w2 u)"
      by (rule quiet) (rule that; assumption)
    have step: "io_loop E (pd_timers_next w) w = io_loop E (pd_timers_next w2) w2"
      using refs_0_active [OF less.prems(1)] False wait T(1)
      by (simp add: io_loop.simps [of E "pd_timers_next w" w] c_def word_gt_0)
    have "card (active_timers w2) < card (active_timers w) \<or> uint (now (io w)) < t"
    proof (cases "pd_timers_next w = INT_MAX")
      case True
      then show ?thesis using t(1) by (simp add: INT_MAX_def)
    next
      case notmax: False
      then have "e \<in> set ts" using T(4) e(1,5) t(1) by (simp add: active_timers_def)
      then have "active_timers w2 \<subset> active_timers w" using T(4,6) by auto
      then show ?thesis by (simp add: psubset_card_mono)
    qed
    moreover have "card (active_timers w2) \<le> card (active_timers w)" unfolding T(6) by (rule card_mono) auto
    moreover have "uint (now (io w)) \<le> t" using t(1) e(2) by simp
    ultimately have "card (active_timers w2) + nat (2 ^ 64 - uint (now (io w2))) <
        card (active_timers w) + nat (2 ^ 64 - uint (now (io w)))" using t(2) T(9) by linarith
    moreover have keep: "u \<notin> set ts" if "active (tmem w2 u)" for u
      using that T(6) by (auto simp: active_timers_def)
    then have "\<forall>u. active (tmem w2 u) \<longrightarrow> uint (timeout (tmem w2 u)) < 2 ^ 63" using less.prems(2) T(7) by metis
    moreover have "uint (now (io w2)) = millis (clock E (hist w2))" by (simp add: T(9,10) t_def)
    ultimately obtain us w' where U: "io_loop E (pd_timers_next w2) w2 = Some (Inr w')" "active_timers w' = {}"
      "distinct us" "set us = active_timers w2" "sorted (map (due_at (tmem w2)) us)"
      "calls w' = calls w2 @ timer_calls (tmem w2) us" using less.hyps T(2) by blast
    have tm: "tmem w2 u = tmem w u" if "u \<in> set us" for u using that U(4) T(6,7) by auto
    have calls: "timer_calls (tmem w2) us = timer_calls (tmem w) us"
      using tm by (simp add: List.map_filter_def timer_call_def cong: map_cong filter_cong)
    have "map (due_at (tmem w2)) us = map (due_at (tmem w)) us" using tm by simp
    then have srt: "sorted (map (due_at (tmem w)) us)" using U(5) by (simp only:)
    have "due_at (tmem w) x \<le> due_at (tmem w) y" if "x \<in> set ts" "y \<in> set us" for x y
    proof -
      have "uint (timeout (tmem w x)) \<le> t" using that(1) T(4) by simp
      moreover have "active (tmem w2 y)" using that(2) U(4) by (simp add: active_timers_def)
      then have "uint (now (io w2)) < uint (timeout (tmem w2 y))" using T(11) word_less_def by blast
      then have "t < uint (timeout (tmem w y))" unfolding T(9) tm [OF that(2)] .
      ultimately show ?thesis by (simp add: word_le_def)
    qed
    then have "sorted (map (due_at (tmem w)) (ts @ us))"
      using T(5) srt by (auto simp: sorted_append)
    moreover have "set (ts @ us) = active_timers w" "distinct (ts @ us)" using T(3,4,6) U(3,4) by auto
    moreover have "calls w' = calls w @ timer_calls (tmem w) (ts @ us)"
      using U(6) T(8) calls by (simp add: List.map_filter_def)
    moreover have "io_loop E (pd_timers_next w) w = Some (Inr w')" using U(1) step by simp
    ultimately show ?thesis using U(2) by blast
  qed
qed

end
