(* ===== verification/Kqueue.thy ===== *)
theory Kqueue
  imports Event_Loop
begin

text \<open>
  The event loop on BSD and macOS (\<^verbatim>\<open>src/sys/event_kqueue.c\<close>): the registration of descriptors with a
  \<^verbatim>\<open>kqueue\<close>, notifiers over a pipe (\<^verbatim>\<open>src/sys/notifier_unix.c\<close>), the wait with its time as a \<^verbatim>\<open>timespec\<close>,
  and the translation of a report. The loop itself is the one of \<open>Event_Loop\<close>. The operations of the streams register
  through \<^verbatim>\<open>epoll_ctl\<close> in their model, so what is proved of whole runs is stated for \<^verbatim>\<open>epoll\<close>; what the two registrations
  have in common, and where they differ, is shown in \<open>Kqueue_Properties\<close>.
\<close>

section \<open>Registration\<close>

definition kqueue_changes :: "event_ref \<Rightarrow> pd_event \<Rightarrow> int \<Rightarrow> (int \<times> kfilter \<times> kaction \<times> event_ref) list" where
  "kqueue_changes e ev f =
     [(f, EVFILT_READ, if flags ev AND PD_POLLIN \<noteq> 0 then Ev_add_enable else Ev_delete, e),
      (f, EVFILT_WRITE, if flags ev AND PD_POLLOUT \<noteq> 0 then Ev_add_enable else Ev_delete, e)]"

definition kqueue_event_set ::
  "kernel \<Rightarrow> event_ref \<Rightarrow> pd_event \<Rightarrow> int \<Rightarrow> 'x tcp_world_scheme \<Rightarrow> int \<times> 'x tcp_world_scheme" where
  "kqueue_event_set kern e ev f w = sys kern (Sys_kevent_changes (poll_fd (io w)) (kqueue_changes e ev f)) w"

definition kqueue_event_add ::
  "kernel \<Rightarrow> event_ref \<Rightarrow> pd_event \<Rightarrow> int \<Rightarrow> 'x tcp_world_scheme \<Rightarrow> int \<times> 'x tcp_world_scheme" where
  "kqueue_event_add kern e ev f w = kqueue_event_set kern e ev f w"

definition kqueue_event_del :: "kernel \<Rightarrow> int \<Rightarrow> 'x tcp_world_scheme \<Rightarrow> int \<times> 'x tcp_world_scheme" where
  "kqueue_event_del kern f w = (0, w)"

section \<open>Notifiers\<close>

text \<open>
  A pipe takes the place of the \<^verbatim>\<open>eventfd\<close>. \<open>pipes h\<close> are the descriptors the last call of \<open>h\<close> stored; when it
  failed it stored none, which the code does not test for. The handler is that of \<open>Event_Loop\<close>.
\<close>

definition kqueue_notifier_init ::
  "kernel \<Rightarrow> (history \<Rightarrow> int \<times> int) \<Rightarrow> nat \<Rightarrow> 'x tcp_world_scheme \<Rightarrow> 'x tcp_world_scheme" where
  "kqueue_notifier_init kern pipes n w =
     (let (st, w) = sys kern Sys_pipe w;
          w = (if st = -1 then w
               else case pipes (hist w) of (r, s) \<Rightarrow>
                 set_notifier n (\<lambda>t. t\<lparr>notifier_fd := r, notifier_send_fd := s\<rparr>) w);
          (_, w) = pd_set_nonblocking kern (notifier_fd (notifiers w n)) w;
          (_, w) = pd_set_nonblocking kern (notifier_send_fd (notifiers w n)) w;
          w = set_notifier n (\<lambda>t. t\<lparr>notifier_handler := None, notifier_event := pd_event_init\<rparr>) w;
          w = set_notifier n (\<lambda>t. t\<lparr>notifier_event := (notifier_event t)\<lparr>handler := Some Notifier_io,
                flags := flags (notifier_event t) OR PD_POLLIN\<rparr>\<rparr>) w;
          (_, w) = kqueue_event_add kern (Notifier_event n) (notifier_event (notifiers w n)) (notifier_fd (notifiers w n)) w
      in w)"

definition kqueue_notifier_send :: "kernel \<Rightarrow> nat \<Rightarrow> 'x tcp_world_scheme \<Rightarrow> 'x tcp_world_scheme res" where
  "kqueue_notifier_send kern n w =
     bind_res (loop_res (sys_retry kern (Sys_write (notifier_send_fd (notifiers w n)) [1, 0, 0, 0, 0, 0, 0, 0]) w))
       (\<lambda>(_, w). Inr w)"

section \<open>The loop\<close>

definition kqueue_io_init ::
  "'w loop_env \<Rightarrow> (history \<Rightarrow> int \<times> int) \<Rightarrow> nat \<Rightarrow> 'x tcp_world_scheme \<Rightarrow> 'x tcp_world_scheme res" where
  "kqueue_io_init E pipes n w =
     (let w = set_io (\<lambda>c. c\<lparr>refs := 0, after_tick := None\<rparr>) w;
          (f, w) = sys (kern_of E) Sys_kqueue w;
          w = set_io (\<lambda>c. c\<lparr>poll_fd := f\<rparr>) w
      in if f < 0 then Inl Exited
         else
           let (t, w) = pd_now E w;
               w = set_io (\<lambda>c. c\<lparr>now := t\<rparr>) w;
               w = set_io (\<lambda>c. c\<lparr>pending_closes := queue_init (pending_closes c)\<rparr>) w;
               w = pd_timers_heap_init w;
               w = set_io (\<lambda>c. c\<lparr>task_signal := Some n\<rparr>) w;
               w = kqueue_notifier_init (kern_of E) pipes n w;
               w = set_notifier n (\<lambda>t. t\<lparr>notifier_handler := Some Task_done\<rparr>) w;
               w = set_io (\<lambda>c. c\<lparr>task_signaled := False\<rparr>) w;
               w = set_io (\<lambda>c. c\<lparr>finished_tasks := queue_init (finished_tasks c)\<rparr>) w
           in Inr w)"

definition kqueue_wait_for :: "int \<Rightarrow> int \<Rightarrow> syscall" where
  "kqueue_wait_for f timeout_ms = Sys_kevent_wait f MAX_EVENTS
     (if timeout_ms \<ge> 0 then Some (timeout_ms div 1000, timeout_ms mod 1000 * 1000000) else None)"

definition EV_ERROR :: uint32 where "EV_ERROR = 0x4000"
definition EV_EOF :: uint32 where "EV_EOF = 0x8000"

lemmas kqueue_flags = EV_ERROR_def EV_EOF_def

definition kqueue_pevents :: "kfilter \<Rightarrow> uint32 \<Rightarrow> uint32" where
  "kqueue_pevents flt fl =
     (let p = 0;
          p = (if flt = EVFILT_READ then p OR PD_POLLIN else p);
          p = (if flt = EVFILT_WRITE then p OR PD_POLLOUT else p)
      in if fl AND EV_ERROR \<noteq> 0 \<or> fl AND EV_EOF \<noteq> 0 then
           let p = p OR PD_CLOSE;
               p = (if fl AND EV_ERROR \<noteq> 0 then p OR PD_POLLERR else p);
               p = (if fl AND EV_EOF \<noteq> 0 then p OR PD_POLLHUP else p)
           in p
         else p)"

definition kqueue_env ::
  "'w client \<Rightarrow> kernel \<Rightarrow> (history \<Rightarrow> nat \<Rightarrow> kfilter \<times> uint32 \<times> event_ref) \<Rightarrow> (history \<Rightarrow> int \<times> int) \<Rightarrow>
    'w loop_env" where
  "kqueue_env k kern events clk = \<lparr>client_of = k, kern_of = kern, wait_for = kqueue_wait_for,
     reports = (\<lambda>h i. case events h i of (flt, fl, e) \<Rightarrow> (kqueue_pevents flt fl, e)), clock = clk\<rparr>"

definition kqueue_io_run ::
  "'x tcp_world_scheme client \<Rightarrow> kernel \<Rightarrow> (history \<Rightarrow> nat \<Rightarrow> kfilter \<times> uint32 \<times> event_ref) \<Rightarrow>
    (history \<Rightarrow> int \<times> int) \<Rightarrow> 'x tcp_world_scheme \<Rightarrow> 'x tcp_world_scheme res option" where
  "kqueue_io_run k kern events clk w = pd_io_run (kqueue_env k kern events clk) w"


end
