(* ===== verification/Loop_Properties.thy ===== *)
theory Loop_Properties
  imports Kqueue Loop_Timers Tcp_Properties
begin

text \<open>
  The properties of the event loop: C30 to C32.
\<close>


text \<open>A kernel that reports a hang-up of the only stream; its callbacks write, to no avail.\<close>

definition hangup_kernel :: kernel where
  "hangup_kernel h c = (case c of Sys_write f bs \<Rightarrow> 0
     | Sys_epoll_wait f m ms \<Rightarrow> if Stream_event 1 \<in> registered h then 1 else 0 | _ \<Rightarrow> -1)"

definition hangup_env :: "client_world loop_env" where
  "hangup_env = epoll_env (script (\<lambda>c cs. if length cs < 2 then [Write 1 [1] 4] else []) (\<lambda>_ _ _ _. None) hangup_kernel 9)
     hangup_kernel (\<lambda>_ _. (EPOLLHUP, Stream_event 1)) (\<lambda>_. (5, 0))"

definition lone_net :: client_world where
  "lone_net = sample_net\<lparr>io := (io sample_net)\<lparr>refs := 1\<rparr>, servers := (\<lambda>_. \<lparr>server_fd = -1, on_connection = None,
     server_status = PD_TCP_NONE, server_event = \<lparr>flags = 0, handler = None\<rparr>\<rparr>)\<rparr>"

lemma lone_start: "session_start lone_net"
proof -
  have "sockets_ok lone_net"
    by (rule sockets_cong [OF _ _ _ _ _ _ sample_sockets]) (simp_all add: lone_net_def)
  moreover have "timers_ok lone_net"
    using sample_net_timers timers_ok_fields [of lone_net sample_net] by (simp add: lone_net_def)
  moreover have "attached lone_net s = attached sample_net s" "wire s lone_net = wire s sample_net" for s
    by (auto simp: lone_net_def attached_def intro!: wire_cong)
  ultimately show ?thesis using sample_start by (simp add: session_start_def lone_net_def)
qed

lemmas [code] = pd_timers_run.simps io_loop.simps

lemma hangup_returns: "case pd_io_run hangup_env lone_net of Some (Inr w) \<Rightarrow> length (calls w) = 3 | _ \<Rightarrow> False"
  by code_simp

lemma hangup_reporting: "reporting {} {} hangup_env"
  by (auto simp: reporting_def known_def registered_def hangup_env_def epoll_env_def epoll_wait_for_def hangup_kernel_def Let_def)


text \<open>
  C31. A loop whose only references are timers that fire once comes to its end, on every kernel that has nothing
  to report and waits at least as long as it is asked to: no timer is forgotten or fires twice, and their
  callbacks are called in the order of the deadlines.
\<close>

theorem loop_of_timers_returns:
  assumes "only_timers w" "\<forall>t. active (tmem w t) \<longrightarrow> uint (timeout (tmem w t)) < 2 ^ 63"
    and "uint (now (io w)) = millis (clock E (hist w))" "client_of E = listener al kern" "sleeps E"
  shows "\<exists>ts w'. pd_io_run E w = Some (Inr w') \<and> active_timers w' = {} \<and> distinct ts \<and>
    set ts = active_timers w \<and> sorted (map (due_at (tmem w)) ts) \<and> calls w' = calls w @ timer_calls (tmem w) ts"
  unfolding pd_io_run_def
  by (rule loop_drains [OF assms(4) _ assms(5,1,2,3)]) (simp add: listens_def)

text \<open>A loop with two timers, one of them farther away than a wait can be long.\<close>

definition alarms :: client_world where
  "alarms = sample_net\<lparr>io := (io sample_net)\<lparr>refs := 2, timers := \<lparr>root = Some 1, heap_size = 2,
        comparator = pd_timers_comparator\<rparr>\<rparr>,
     tmem := (\<lambda>t. if t = 1 then \<lparr>timeout = 100, interval = 0, active = True, user_data = 0, on_timeout = Some 5\<rparr>
       else if t = 2 then \<lparr>timeout = 5000000000, interval = 0, active = True, user_data = 0, on_timeout = Some 6\<rparr>
       else \<lparr>timeout = 0, interval = 0, active = False, user_data = 0, on_timeout = None\<rparr>),
     hnodes := (\<lambda>t. if t = 1 then \<lparr>left = Some 2, right = None, parent = None\<rparr>
       else \<lparr>left = None, right = None, parent = Some 1\<rparr>)\<rparr>"

lemma alarms_active: "active_timers alarms = {1, 2}"
  by (auto simp: active_timers_def alarms_def)

lemma alarms_ok: "only_timers alarms"
proof -
  have "heap_rep (timers (io alarms)) (hnodes alarms) [1, 2]" by code_simp
  moreover have "heap_ordered (due_at (tmem alarms)) [1, 2]" by code_simp
  moreover have "comparator (timers (io alarms)) = pd_timers_comparator" by (simp add: alarms_def)
  ultimately have "timers_ok alarms" unfolding timers_ok_def heap_holds_def alarms_active
    by (intro conjI exI [of _ "[1, 2]"]) simp_all
  then show ?thesis unfolding only_timers_def alarms_active
    by (simp add: once_def alarms_def sample_net_def queue_empty_def)
qed

fun slept :: "syscall \<times> int \<Rightarrow> int" where
  "slept (Sys_epoll_wait f m ms, r) = (if r = 0 then ms else ms - 1)"
| "slept _ = 0"

text \<open>A wait takes as long as it is asked to, or 1 ms less when it is interrupted.\<close>

definition elapsed :: "history \<Rightarrow> int" where
  "elapsed h = sum_list (map slept h)"

definition exact_clock :: "history \<Rightarrow> int \<times> int" where
  "exact_clock h = (elapsed h div 1000, elapsed h mod 1000 * 1000000)"

lemma millis_exact [simp]: "millis (exact_clock h) = elapsed h"
  by (simp add: millis_def exact_clock_def)

definition quiet_env :: "client_world loop_env" where
  "quiet_env = epoll_env (listener (\<lambda>_ _ _ _. None) (\<lambda>_ _. 0)) (\<lambda>_ _. 0) (\<lambda>_ _. (0, Stream_event 1)) exact_clock"

theorem loop_of_timers_returns_witness:
  "\<exists>ts w'. pd_io_run quiet_env alarms = Some (Inr w') \<and> active_timers w' = {} \<and> distinct ts \<and>
    set ts = {1, 2} \<and> sorted (map (due_at (tmem alarms)) ts) \<and> calls w' = calls alarms @ timer_calls (tmem alarms) ts"
proof -
  have "uint (now (io alarms)) = millis (clock quiet_env (hist alarms))"
    by (simp add: quiet_env_def epoll_env_def alarms_def sample_net_def elapsed_def)
  moreover have "sleeps quiet_env" by (simp add: sleeps_def quiet_env_def epoll_env_def epoll_wait_for_def elapsed_def)
  moreover have "\<forall>t. active (tmem alarms t) \<longrightarrow> uint (timeout (tmem alarms t)) < 2 ^ 63" by (simp add: alarms_def)
  ultimately show ?thesis
    using loop_of_timers_returns [OF alarms_ok, of quiet_env "\<lambda>_ _ _ _. None" "\<lambda>_ _. 0"]
    unfolding alarms_active by (simp add: quiet_env_def epoll_env_def)
qed

text \<open>
  C32. A wait that is interrupted by a signal is repeated with the time to wait computed before it, so signals
  delay the timers: under a kernel that interrupts \<open>n\<close> waits, each after 99 of its 100 milliseconds, a timer that
  is due after 100 milliseconds fires after \<open>99 n + 100\<close>.
\<close>

definition interrupting :: "nat \<Rightarrow> kernel" where
  "interrupting n h c = (case c of Sys_epoll_wait f m ms \<Rightarrow> if length h < n then - EINTR else 0 | _ \<Rightarrow> 0)"

definition interrupting_env :: "nat \<Rightarrow> client_world loop_env" where
  "interrupting_env n = quiet_env\<lparr>kern_of := interrupting n\<rparr>"

definition alarm :: client_world where
  "alarm = alarms\<lparr>io := (io alarms)\<lparr>refs := 1, timers := \<lparr>root = Some 1, heap_size = 1,
        comparator = pd_timers_comparator\<rparr>\<rparr>,
     tmem := (tmem alarms)(2 := \<lparr>timeout = 0, interval = 0, active = False, user_data = 0, on_timeout = None\<rparr>),
     hnodes := (\<lambda>_. \<lparr>left = None, right = None, parent = None\<rparr>)\<rparr>"

abbreviation the_wait :: syscall where
  "the_wait \<equiv> Sys_epoll_wait 3 MAX_EVENTS 100"

definition interrupted :: "nat \<Rightarrow> client_world" where
  "interrupted i = alarm\<lparr>hist := replicate i (the_wait, - EINTR), errno := (if i = 0 then 0 else EINTR)\<rparr>"

lemma alarm_active: "active_timers alarm = {1}"
  by (auto simp: active_timers_def alarm_def alarms_def)

lemma alarm_ok: "timers_ok alarm"
proof -
  have "heap_rep (timers (io alarm)) (hnodes alarm) [1]" by code_simp
  moreover have "heap_ordered (due_at (tmem alarm)) [1]" by code_simp
  moreover have "comparator (timers (io alarm)) = pd_timers_comparator" by (simp add: alarm_def)
  ultimately show ?thesis unfolding timers_ok_def heap_holds_def alarm_active
    by (intro conjI exI [of _ "[1]"]) simp_all
qed

lemma interrupted_fields:
  "io (interrupted i) = io alarm" "tmem (interrupted i) = tmem alarm" "calls (interrupted i) = []"
  "active_timers (interrupted i) = {1}" "hist (interrupted i) = replicate i (the_wait, - EINTR)"
  using alarm_active
  by (simp_all add: interrupted_def alarm_def alarms_def sample_net_def active_timers_def)

lemma interrupted_ok: "only_timers (interrupted i)"
proof -
  have "timers_ok (interrupted i)"
    using alarm_ok timers_ok_fields [of "interrupted i" alarm] by (simp add: interrupted_def)
  then show ?thesis unfolding only_timers_def interrupted_fields once_def
    by (simp add: alarm_def alarms_def sample_net_def queue_empty_def)
qed

lemma interrupted_again:
  "i < n \<Longrightarrow> io_loop (interrupting_env n) 100 (interrupted i) = io_loop (interrupting_env n) 100 (interrupted (Suc i))"
proof -
  assume "i < n"
  then have k: "interrupting n (replicate i (the_wait, - EINTR)) the_wait = - EINTR" by (simp add: interrupting_def)
  have fields: "poll_fd (io (interrupted i)) = 3" "refs (io (interrupted i)) = 1"
    by (simp_all add: interrupted_fields alarm_def alarms_def sample_net_def)
  have "(interrupted i)\<lparr>hist := replicate i (the_wait, - EINTR) @ [(the_wait, - EINTR)], errno := EINTR\<rparr> = interrupted (Suc i)"
    by (simp add: interrupted_def replicate_append_same)
  then have "sys (interrupting n) the_wait (interrupted i) = (-1, interrupted (Suc i))"
    using k unfolding sys_def interrupted_fields Let_def by (simp add: EINTR_def)
  then show ?thesis
    using fields by (subst io_loop.simps) (simp add: interrupting_env_def quiet_env_def epoll_env_def epoll_wait_for_def interrupted_def)
qed

lemma interrupted_all:
  "i \<le> n \<Longrightarrow> io_loop (interrupting_env n) 100 (interrupted 0) = io_loop (interrupting_env n) 100 (interrupted i)"
  by (induction i) (use interrupted_again in auto)

theorem interrupted_timer_is_late:
  assumes "n < 2 ^ 32"
  shows "\<exists>w'. pd_io_run (interrupting_env n) (interrupted 0) = Some (Inr w') \<and> calls w' = [On_timer 5 1] \<and>
    hist w' = replicate n (the_wait, - EINTR) @ [(the_wait, 0), (Sys_clock_gettime, 0)] \<and>
    uint (now (io w')) = 99 * int n + 100"
proof -
  define w where "w = (interrupted n)\<lparr>hist := replicate n (the_wait, - EINTR) @ [(the_wait, 0)]\<rparr>"
  have io: "io w = io alarm" "tmem w = tmem alarm" "calls w = []" "active_timers w = {1}"
    "hist w = replicate n (the_wait, - EINTR) @ [(the_wait, 0)]"
    using interrupted_fields by (simp_all add: w_def active_timers_def)
  have ot: "only_timers w"
    using interrupted_ok [of n] timers_ok_fields [of w "interrupted n"] io interrupted_fields
    by (simp add: only_timers_def once_def w_def)
  have fields: "poll_fd (io alarm) = 3" "refs (io alarm) = 1" "now (io alarm) = 0"
    by (simp_all add: alarm_def alarms_def sample_net_def)
  have wait: "sys (kern_of (interrupting_env n)) the_wait (interrupted n) = (0, w)"
    unfolding sys_def w_def interrupted_fields Let_def
    by (simp add: interrupting_env_def interrupting_def)
  define t where "t = 99 * int n + 100"
  have clock: "millis (clock (interrupting_env n)
      (hist w @ [(Sys_clock_gettime, kern_of (interrupting_env n) (hist w) Sys_clock_gettime)])) = t"
    by (simp add: interrupting_env_def quiet_env_def epoll_env_def elapsed_def io t_def sum_list_replicate EINTR_def)
  have "uint (now (io w)) \<le> t" "t < 2 ^ 64" using assms by (simp_all add: io fields t_def)
  note le = this
  have "listens (client_of (interrupting_env n))"
    by (simp add: listens_def interrupting_env_def quiet_env_def epoll_env_def)
  note quiet = quiet_turn [OF ot refl this le clock, unfolded io(3,4) append_Nil]
  obtain ts w' where T: "turn (interrupting_env n) 0 w = Inr w'"
    "only_timers w'" "distinct ts" "set ts = {u \<in> {1}. uint (timeout (tmem w u)) \<le> t}"
    "active_timers w' = {1} - set ts" "calls w' = timer_calls (tmem w) ts" "uint (now (io w')) = t"
    "hist w' = hist w @ [(Sys_clock_gettime, kern_of (interrupting_env n) (hist w) Sys_clock_gettime)]"
    by (rule quiet) (rule that; assumption)
  have set_ts: "set ts = {1}" using T(4) by (auto simp: io t_def alarm_def alarms_def)
  then have "ts = [1]" using T(3) by (metis distinct_singleton distinct_card card.empty card_insert_disjoint
      empty_iff finite.emptyI length_0_conv length_Suc_conv list.set(1) set_ConsD singletonD list.set_intros(1))
  then have calls: "calls w' = [On_timer 5 1]"
    using T(6) by (simp add: List.map_filter_def timer_call_def io alarm_def alarms_def)
  have "refs (io w') = 0" using refs_0_active [OF T(2)] T(5) set_ts by simp
  then have "io_loop (interrupting_env n) ms w' = Some (Inr w')" for ms by (simp add: io_loop.simps)
  then have "io_loop (interrupting_env n) 100 (interrupted n) = Some (Inr w')"
    using wait T(1)
    by (subst io_loop.simps) (simp add: interrupted_fields fields interrupting_env_def quiet_env_def epoll_env_def epoll_wait_for_def)
  moreover have "pd_timers_next (interrupted 0) = 100"
    by (simp add: pd_timers_next_def heap_peek_def interrupted_fields alarm_def alarms_def sample_net_def INT_MAX_def)
  ultimately have "pd_io_run (interrupting_env n) (interrupted 0) = Some (Inr w')"
    using interrupted_all [of n n] by (simp add: pd_io_run_def)
  moreover have "kern_of (interrupting_env n) (hist w) Sys_clock_gettime = 0"
    by (simp add: interrupting_env_def interrupting_def)
  ultimately show ?thesis using calls T(7,8) by (simp add: io t_def)
qed

theorem interrupted_timer_is_late_witness:
  "\<exists>w'. pd_io_run (interrupting_env 1000) (interrupted 0) = Some (Inr w') \<and> calls w' = [On_timer 5 1] \<and>
    hist w' = replicate 1000 (the_wait, - EINTR) @ [(the_wait, 0), (Sys_clock_gettime, 0)] \<and>
    uint (now (io w')) = 99100"
  using interrupted_timer_is_late [of 1000] by simp

end
