(* ===== verification/Kqueue_Properties.thy ===== *)
theory Kqueue_Properties
  imports Kqueue Tcp_Properties
begin

text \<open>
  Registration with a \<^verbatim>\<open>kqueue\<close> compared with \<^verbatim>\<open>epoll\<close>: C33 and C34. What \<^verbatim>\<open>kevent\<close> does with a list of changes is
  a parameter, from the changes and the filters a descriptor is registered with to the result and the filters after
  it; \<open>kevent_documented\<close> is what its manual says of a call without room for error reports.
\<close>

section \<open>The filters of a descriptor\<close>

type_synonym kevent = "(kfilter \<times> kaction) list \<Rightarrow> kfilter set \<Rightarrow> int \<times> kfilter set"

definition kevent_documented :: "kevent \<Rightarrow> bool" where
  "kevent_documented kev \<longleftrightarrow>
     (\<forall>F. kev [] F = (0, F)) \<and>
     (\<forall>flt cs F. kev ((flt, Ev_add_enable) # cs) F = kev cs (insert flt F)) \<and>
     (\<forall>flt cs F. flt \<in> F \<longrightarrow> kev ((flt, Ev_delete) # cs) F = kev cs (F - {flt})) \<and>
     (\<forall>flt cs F. flt \<notin> F \<longrightarrow> kev ((flt, Ev_delete) # cs) F = (-1, F))"

text \<open>A \<^verbatim>\<open>kevent\<close> that does what is documented.\<close>

fun sample_kevent :: kevent where
  "sample_kevent [] F = (0, F)"
| "sample_kevent ((flt, Ev_add_enable) # cs) F = sample_kevent cs (insert flt F)"
| "sample_kevent ((flt, Ev_delete) # cs) F = (if flt \<in> F then sample_kevent cs (F - {flt}) else (-1, F))"

lemma sample_kevent_documented: "kevent_documented sample_kevent"
  by (simp add: kevent_documented_def)

text \<open>The filters after \<open>pd__event_set\<close>.\<close>

definition filters_after :: "kevent \<Rightarrow> pd_event \<Rightarrow> kfilter set \<Rightarrow> kfilter set" where
  "filters_after kev ev F = snd (kev (map (\<lambda>(f, flt, a, e). (flt, a)) (kqueue_changes (Stream_event 0) ev 0)) F)"

definition wanted :: "pd_event \<Rightarrow> kfilter set" where
  "wanted ev = {flt. flags ev AND (case flt of EVFILT_READ \<Rightarrow> PD_POLLIN | EVFILT_WRITE \<Rightarrow> PD_POLLOUT) \<noteq> 0}"

lemma filters_after_eq:
  assumes "kevent_documented kev"
  shows "filters_after kev ev F =
    (if flags ev AND PD_POLLIN = 0 \<and> EVFILT_READ \<notin> F then F else wanted ev)"
proof -
  have K: "\<And>F. kev [] F = (0, F)" "\<And>flt cs F. kev ((flt, Ev_add_enable) # cs) F = kev cs (insert flt F)"
    "\<And>flt cs F. flt \<in> F \<Longrightarrow> kev ((flt, Ev_delete) # cs) F = kev cs (F - {flt})"
    "\<And>flt cs F. flt \<notin> F \<Longrightarrow> kev ((flt, Ev_delete) # cs) F = (-1, F)"
    using assms by (simp_all add: kevent_documented_def)
  have all: "flt = EVFILT_READ \<or> flt = EVFILT_WRITE" for flt by (cases flt) auto
  have del: "kev [(EVFILT_WRITE, Ev_delete)] G = (if EVFILT_WRITE \<in> G then (0, G - {EVFILT_WRITE}) else (-1, G))" for G
    using K by simp
  show ?thesis
    using all by (auto simp: filters_after_def kqueue_changes_def wanted_def K del split: kfilter.splits)
qed

text \<open>
  C33. Wherever reading is registered or asked for, \<open>pd__event_set\<close> on a \<^verbatim>\<open>kqueue\<close> leaves the descriptor registered
  for exactly what the mask of the \<^verbatim>\<open>epoll\<close> variant asks for.
\<close>

theorem kqueue_agrees_with_epoll:
  assumes "kevent_documented kev" "EVFILT_READ \<in> F \<or> flags ev AND PD_POLLIN \<noteq> 0"
  shows "(EVFILT_READ \<in> filters_after kev ev F) = (epoll_mask ev AND EPOLLIN \<noteq> 0) \<and>
    (EVFILT_WRITE \<in> filters_after kev ev F) = (epoll_mask ev AND EPOLLOUT \<noteq> 0)"
proof -
  have "filters_after kev ev F = wanted ev" using filters_after_eq [OF assms(1)] assms(2) by auto
  then show ?thesis by (simp add: wanted_def epoll_mask_def Let_def epoll_flags)
qed

theorem kqueue_agrees_with_epoll_witness:
  "(EVFILT_READ \<in> filters_after sample_kevent \<lparr>flags = PD_POLLIN, handler = None\<rparr> {}) =
      (epoll_mask \<lparr>flags = PD_POLLIN, handler = None\<rparr> AND EPOLLIN \<noteq> 0) \<and>
    (EVFILT_WRITE \<in> filters_after sample_kevent \<lparr>flags = PD_POLLIN, handler = None\<rparr> {}) =
      (epoll_mask \<lparr>flags = PD_POLLIN, handler = None\<rparr> AND EPOLLOUT \<noteq> 0)"
  by (rule kqueue_agrees_with_epoll [OF sample_kevent_documented]) (simp add: PD_POLLIN_def)

text \<open>
  C34. A write queued on a paused stream is not registered on a \<^verbatim>\<open>kqueue\<close>: the flags ask for it, and so does the
  mask of the \<^verbatim>\<open>epoll\<close> variant, but the change before it, which deletes the read filter once more, fails and ends
  the list. The write waits until the stream is resumed.
\<close>

lemma sys_streams [simp]: "streams (snd (sys kern c w)) = streams w"
  by (simp add: sys_def Let_def)

lemma pause_flags:
  "event (streams (pd_tcp_pause kern s w) s) =
     (event (streams w s))\<lparr>flags := flags (event (streams w s)) AND NOT PD_POLLIN\<rparr>"
  "status (streams (pd_tcp_pause kern s w) s) = status (streams w s)"
  by (simp_all add: pd_tcp_pause_def pd_event_set_def Let_def)

lemma write_async_flags:
  assumes "pd_tcp_write_async k kern s a w = Inr w'" "status (streams w s) = PD_TCP_ACTIVE"
    "flags (event (streams w s)) AND PD_POLLOUT = 0"
  shows "flags (event (streams w' s)) = flags (event (streams w s)) OR PD_POLLOUT"
proof -
  obtain q mem where "queue_push (writes (streams w s)) (queue_init_node (qnodes w) (Write_node a)) (Write_node a) = Inr (q, mem)"
    using assms by (auto simp: pd_tcp_write_async_def Let_def bind_res_eq_Inr)
  then show ?thesis using assms by (auto simp: pd_tcp_write_async_def Let_def pd_event_set_def)
qed

lemma paused_flags:
  fixes f :: uint32
  assumes "f AND PD_POLLOUT = 0"
  shows "(f AND NOT PD_POLLIN) AND PD_POLLOUT = 0" "(f AND NOT PD_POLLIN) AND PD_POLLIN = 0"
    "((f AND NOT PD_POLLIN) OR PD_POLLOUT) AND PD_POLLIN = 0" "((f AND NOT PD_POLLIN) OR PD_POLLOUT) AND PD_POLLOUT \<noteq> 0"
proof -
  show in_off: "(f AND NOT PD_POLLIN) AND PD_POLLIN = 0" by (simp add: and.assoc)
  have "(f AND NOT PD_POLLIN) AND PD_POLLOUT = (f AND PD_POLLOUT) AND NOT PD_POLLIN" by (simp add: ac_simps)
  then show out_off: "(f AND NOT PD_POLLIN) AND PD_POLLOUT = 0" using assms by simp
  have "PD_POLLOUT AND PD_POLLIN = 0" "PD_POLLOUT \<noteq> 0" by (simp_all add: PD_POLLIN_def PD_POLLOUT_def)
  then show "((f AND NOT PD_POLLIN) OR PD_POLLOUT) AND PD_POLLIN = 0"
    "((f AND NOT PD_POLLIN) OR PD_POLLOUT) AND PD_POLLOUT \<noteq> 0"
    using in_off out_off by (simp_all add: word_ao_dist)
qed

theorem paused_write_not_registered:
  assumes "kevent_documented kev" "status (streams w s) = PD_TCP_ACTIVE"
    and "flags (event (streams w s)) AND PD_POLLOUT = 0" "F \<subseteq> {EVFILT_READ}"
    and "pd_tcp_write_async k kern s a (pd_tcp_pause kern s w) = Inr w'"
  shows "flags (event (streams w' s)) AND PD_POLLOUT \<noteq> 0 \<and> epoll_mask (event (streams w' s)) AND EPOLLOUT \<noteq> 0 \<and>
    EVFILT_WRITE \<notin> filters_after kev (event (streams w' s))
      (filters_after kev (event (streams (pd_tcp_pause kern s w) s)) F)"
proof -
  let ?w1 = "pd_tcp_pause kern s w"
  let ?f = "flags (event (streams w s))"
  note bits = paused_flags [OF assms(3)]
  have f1: "flags (event (streams ?w1 s)) = ?f AND NOT PD_POLLIN" by (simp add: pause_flags)
  have "flags (event (streams w' s)) = flags (event (streams ?w1 s)) OR PD_POLLOUT"
    by (rule write_async_flags [OF assms(5)]) (simp_all add: pause_flags assms(2) bits)
  then have f2: "flags (event (streams w' s)) = (?f AND NOT PD_POLLIN) OR PD_POLLOUT" by (simp only: f1)
  have none: "filters_after kev (event (streams ?w1 s)) F = {}"
    using assms(4) bits filters_after_eq [OF assms(1)] by (auto simp: f1 wanted_def split: kfilter.splits)
  have "filters_after kev (event (streams w' s)) {} = {}"
    using bits filters_after_eq [OF assms(1)] by (simp add: f2)
  moreover have "epoll_mask (event (streams w' s)) AND EPOLLOUT \<noteq> 0"
    using bits by (simp add: epoll_mask_def Let_def f2 epoll_flags)
  ultimately show ?thesis using bits by (simp add: f2 none)
qed

theorem paused_write_not_registered_witness:
  "\<exists>w'. pd_tcp_write_async (listener (\<lambda>_ _ _ _. None) sample_kernel) sample_kernel 1 0
        (pd_tcp_pause sample_kernel 1 sample_net) = Inr w' \<and>
    flags (event (streams w' 1)) AND PD_POLLOUT \<noteq> 0 \<and> epoll_mask (event (streams w' 1)) AND EPOLLOUT \<noteq> 0 \<and>
    EVFILT_WRITE \<notin> filters_after sample_kevent (event (streams w' 1))
      (filters_after sample_kevent (event (streams (pd_tcp_pause sample_kernel 1 sample_net) 1)) {EVFILT_READ})"
proof -
  have "\<not> isl (pd_tcp_write_async (listener (\<lambda>_ _ _ _. None) sample_kernel) sample_kernel 1 0
      (pd_tcp_pause sample_kernel 1 sample_net))" by code_simp
  then obtain w' where w': "pd_tcp_write_async (listener (\<lambda>_ _ _ _. None) sample_kernel) sample_kernel 1 0
      (pd_tcp_pause sample_kernel 1 sample_net) = Inr w'" by (metis isl_def sum.exhaust)
  show ?thesis
    using paused_write_not_registered [OF sample_kevent_documented _ _ _ w', of "{EVFILT_READ}"] w'
    by (simp add: sample_net_def sample_stream_def)
qed

end
