(* ===== verification/File_Ops.thy ===== *)
theory File_Ops
  imports Threadpool Kernel Errors
begin

text \<open>
  The file operations of \<^verbatim>\<open>include/pandio/fs.h\<close> and \<^verbatim>\<open>src/sys/fs_unix.c\<close>. An operation (\<open>pd_fs\<close>) begins with the
  task by which the threadpool knows it, so both have the same address: the task is in \<open>taskmem\<close> of the pool, the
  rest here. \<open>pd_fs_open\<close> and its like fill an operation and submit it; a worker calls the function that was put
  into its task, which makes one system call and stores what came of it; the loop calls \<open>pd__fs_work_done\<close>.

  A worker has an \<^verbatim>\<open>errno\<close> of its own, and what other threads do between two of its system calls is up to the
  kernel; so each call of a work function is given a kernel, whose history are the calls made by that function.
\<close>

section \<open>Operations\<close>

text \<open>The enumeration that \<^verbatim>\<open>FS_OPS\<close> expands to; the first constant is 0, which is what \<^verbatim>\<open>memset\<close> leaves in \<open>op_type\<close>.\<close>

datatype pd_fs_type = Pd_open_op | Pd_read_op | Pd_write_op | Pd_stat_op | Pd_close_op | Pd_unknown_op

text \<open>
  The union \<^verbatim>\<open>pd_fs_params_u\<close>, by the member that was stored last. A path is the address of a copy made by \<^verbatim>\<open>strdup\<close>;
  the buffer that is read into is an address of the client's, the one that is written is given by the bytes from
  its address on.
\<close>

datatype pd_fs_params =
    No_params
  | Open_params "nat option" int int
  | Read_params int nat size_t
  | Write_params int "byte list" size_t
  | Stat_params int
  | Close_params int

text \<open>The union \<^verbatim>\<open>result\<close>.\<close>

datatype pd_fs_result = No_result | Fd int | Size int | Stat size_t

record pd_fs =
  op_ctx :: nat
  op_type :: pd_fs_type
  op_cb :: "callback option"
  op_status :: int
  op_params :: pd_fs_params
  op_result :: pd_fs_result

text \<open>
  The operations, the strings made by \<^verbatim>\<open>strdup\<close> that have not been freed, and the callbacks that have been called:
  the operation, the function, and the status and result it found.
\<close>

record fs_mem =
  fs_ops :: "task \<Rightarrow> pd_fs"
  strings :: "nat \<Rightarrow> string option"
  fs_calls :: "(task \<times> callback \<times> int \<times> pd_fs_result) list"

type_synonym fs_state = "pool \<times> fs_mem"

abbreviation set_fs :: "task \<Rightarrow> (pd_fs \<Rightarrow> pd_fs) \<Rightarrow> fs_mem \<Rightarrow> fs_mem" where
  "set_fs t g f \<equiv> f\<lparr>fs_ops := (fs_ops f)(t := g (fs_ops f t))\<rparr>"

abbreviation set_task :: "task \<Rightarrow> (pd_task \<Rightarrow> pd_task) \<Rightarrow> pool \<Rightarrow> pool" where
  "set_task t g w \<equiv> w\<lparr>taskmem := (taskmem w)(t := g (taskmem w t))\<rparr>"

text \<open>
  The functions the file operations put into \<^verbatim>\<open>task.work\<close> and \<^verbatim>\<open>task.done\<close>, and their numbers among all functions.
\<close>

datatype fs_work = Open_work | Read_work | Write_work | Stat_work | Close_work

definition fs_work_done :: callback where
  "fs_work_done = 0"

primrec fs_function :: "fs_work \<Rightarrow> callback" where
  "fs_function Open_work = 1"
| "fs_function Read_work = 2"
| "fs_function Write_work = 3"
| "fs_function Stat_work = 4"
| "fs_function Close_work = 5"

lemma fs_function_inj [simp]: "fs_function k = fs_function j \<longleftrightarrow> k = j"
  by (cases k; cases j) simp_all

section \<open>Strings\<close>

text \<open>\<^verbatim>\<open>strdup\<close>, when \<^verbatim>\<open>malloc\<close> gives it \<open>a\<close>; and \<^verbatim>\<open>free\<close>.\<close>

definition strdup :: "nat option \<Rightarrow> string \<Rightarrow> fs_mem \<Rightarrow> fs_mem" where
  "strdup a s f = (case a of None \<Rightarrow> f | Some p \<Rightarrow> f\<lparr>strings := (strings f)(p := Some s)\<rparr>)"

definition free :: "nat option \<Rightarrow> fs_mem \<Rightarrow> fs_mem res" where
  "free a f =
     (case a of
        None \<Rightarrow> Inr f
      | Some p \<Rightarrow> if strings f p = None then Inl Bad_memory else Inr (f\<lparr>strings := (strings f)(p := None)\<rparr>))"

text \<open>The string at an address that is handed to a system call.\<close>

definition path_at :: "nat option \<Rightarrow> fs_mem \<Rightarrow> string option res" where
  "path_at a f =
     (case a of None \<Rightarrow> Inr None | Some p \<Rightarrow> (case strings f p of None \<Rightarrow> Inl Bad_memory | Some s \<Rightarrow> Inr (Some s)))"

section \<open>Filling an operation\<close>

definition PD_UNKNOWN :: int where
  "PD_UNKNOWN = -7000"

text \<open>
  The loop and the queue node of the task, which \<^verbatim>\<open>memset\<close> clears as well, are set by \<open>pd_task_submit\<close> before
  anything reads them.
\<close>

definition pd_fs_init :: "nat \<Rightarrow> task \<Rightarrow> fs_state \<Rightarrow> fs_state" where
  "pd_fs_init c t s =
     (case s of (w, f) \<Rightarrow>
        let w = set_task t (\<lambda>k. k\<lparr>task_work := None, task_done_cb := None\<rparr>) w;
            f = set_fs t (\<lambda>_. \<lparr>op_ctx = 0, op_type = Pd_open_op, op_cb = None, op_status = 0,
                  op_params = No_params, op_result = No_result\<rparr>) f;
            f = set_fs t (\<lambda>p. p\<lparr>op_ctx := c, op_status := PD_UNKNOWN, op_type := Pd_unknown_op\<rparr>) f;
            w = set_task t (\<lambda>k. k\<lparr>task_done_cb := Some fs_work_done\<rparr>) w
        in (w, f))"

text \<open>
  The functions that submit an operation, up to their last line, \<open>pd_task_submit\<close>. \<open>a\<close> is the address of the copy
  of the path.
\<close>

definition pd_fs_open ::
  "nat option \<Rightarrow> task \<Rightarrow> string \<Rightarrow> int \<Rightarrow> int \<Rightarrow> callback option \<Rightarrow> fs_state \<Rightarrow> fs_state" where
  "pd_fs_open a t path oflag mode g s =
     (case s of (w, f) \<Rightarrow>
        let f = strdup a path f;
            f = set_fs t (\<lambda>p. p\<lparr>op_params := Open_params a oflag mode\<rparr>) f;
            f = set_fs t (\<lambda>p. p\<lparr>op_type := Pd_open_op, op_cb := g\<rparr>) f
        in (set_task t (\<lambda>k. k\<lparr>task_work := Some (fs_function Open_work)\<rparr>) w, f))"

definition pd_fs_read :: "task \<Rightarrow> int \<Rightarrow> nat \<Rightarrow> size_t \<Rightarrow> callback option \<Rightarrow> fs_state \<Rightarrow> fs_state" where
  "pd_fs_read t h buf n g s =
     (case s of (w, f) \<Rightarrow>
        let f = set_fs t (\<lambda>p. p\<lparr>op_type := Pd_read_op, op_cb := g\<rparr>) f;
            f = set_fs t (\<lambda>p. p\<lparr>op_params := Read_params h buf n\<rparr>) f
        in (set_task t (\<lambda>k. k\<lparr>task_work := Some (fs_function Read_work)\<rparr>) w, f))"

definition pd_fs_write :: "task \<Rightarrow> int \<Rightarrow> byte list \<Rightarrow> size_t \<Rightarrow> callback option \<Rightarrow> fs_state \<Rightarrow> fs_state" where
  "pd_fs_write t h buf n g s =
     (case s of (w, f) \<Rightarrow>
        let f = set_fs t (\<lambda>p. p\<lparr>op_type := Pd_write_op, op_cb := g\<rparr>) f;
            f = set_fs t (\<lambda>p. p\<lparr>op_params := Write_params h buf n\<rparr>) f
        in (set_task t (\<lambda>k. k\<lparr>task_work := Some (fs_function Write_work)\<rparr>) w, f))"

definition pd_fs_stat :: "task \<Rightarrow> int \<Rightarrow> callback option \<Rightarrow> fs_state \<Rightarrow> fs_state" where
  "pd_fs_stat t h g s =
     (case s of (w, f) \<Rightarrow>
        let f = set_fs t (\<lambda>p. p\<lparr>op_type := Pd_stat_op, op_cb := g\<rparr>) f;
            f = set_fs t (\<lambda>p. p\<lparr>op_params := Stat_params h\<rparr>) f
        in (set_task t (\<lambda>k. k\<lparr>task_work := Some (fs_function Stat_work)\<rparr>) w, f))"

definition pd_fs_close :: "task \<Rightarrow> int \<Rightarrow> callback option \<Rightarrow> fs_state \<Rightarrow> fs_state" where
  "pd_fs_close t h g s =
     (case s of (w, f) \<Rightarrow>
        let f = set_fs t (\<lambda>p. p\<lparr>op_type := Pd_close_op, op_cb := g\<rparr>) f;
            f = set_fs t (\<lambda>p. p\<lparr>op_params := Close_params h\<rparr>) f
        in (set_task t (\<lambda>k. k\<lparr>task_work := Some (fs_function Close_work)\<rparr>) w, f))"

section \<open>The work functions (Unix)\<close>

text \<open>
  \<^verbatim>\<open>do ... while (r < 0 && errno == EINTR)\<close>: the result, \<^verbatim>\<open>errno\<close> if it is negative, and the calls made.
\<close>

partial_function (option) file_call :: "kernel \<Rightarrow> syscall \<Rightarrow> history \<Rightarrow> (int \<times> int \<times> history) option" where
  "file_call kern c h =
     (let r = kern h c; h = h @ [(c, r)]
      in if r < 0 \<and> - r = EINTR then file_call kern c h else Some (if r < 0 then -1 else r, - r, h))"

text \<open>
  Each work function reads the member of the union its submission has stored; with any other member there it
  would read memory nobody has written.
\<close>

definition pd_fs_open_work :: "kernel \<Rightarrow> task \<Rightarrow> fs_mem \<Rightarrow> fs_mem res" where
  "pd_fs_open_work kern t f =
     (case op_params (fs_ops f t) of
        Open_params path oflag mode \<Rightarrow>
          bind_res (path_at path f) (\<lambda>s.
          bind_res (loop_res (file_call kern (Sys_open s oflag mode) [])) (\<lambda>(r, e, _).
            let f = set_fs t (\<lambda>p. p\<lparr>op_status := if r < 0 then pd_errmap e else 0\<rparr>) f;
                f = set_fs t (\<lambda>p. p\<lparr>op_result := Fd r\<rparr>) f
            in bind_res (free path f) (\<lambda>f.
                 Inr (set_fs t (\<lambda>p. p\<lparr>op_params := Open_params None oflag mode\<rparr>) f))))
      | _ \<Rightarrow> Inl Bad_memory)"

definition pd_fs_read_work :: "kernel \<Rightarrow> task \<Rightarrow> fs_mem \<Rightarrow> fs_mem res" where
  "pd_fs_read_work kern t f =
     (case op_params (fs_ops f t) of
        Read_params d buf n \<Rightarrow>
          bind_res (loop_res (file_call kern (Sys_read d (unat n)) [])) (\<lambda>(nread, e, _).
            if nread < 0 then Inr (set_fs t (\<lambda>p. p\<lparr>op_status := pd_errmap e\<rparr>) f)
            else Inr (set_fs t (\<lambda>p. p\<lparr>op_status := 0, op_result := Size nread\<rparr>) f))
      | _ \<Rightarrow> Inl Bad_memory)"

definition pd_fs_write_work :: "kernel \<Rightarrow> task \<Rightarrow> fs_mem \<Rightarrow> fs_mem res" where
  "pd_fs_write_work kern t f =
     (case op_params (fs_ops f t) of
        Write_params d buf n \<Rightarrow>
          bind_res (loop_res (file_call kern (Sys_write d (take (unat n) buf)) [])) (\<lambda>(nwritten, e, _).
            if nwritten < 0 then Inr (set_fs t (\<lambda>p. p\<lparr>op_status := pd_errmap e\<rparr>) f)
            else Inr (set_fs t (\<lambda>p. p\<lparr>op_status := 0, op_result := Size nwritten\<rparr>) f))
      | _ \<Rightarrow> Inl Bad_memory)"

text \<open>\<open>sizes h\<close>: the size that the last call of \<open>h\<close>, an \<^verbatim>\<open>fstat\<close>, has stored in the \<^verbatim>\<open>struct stat\<close>.\<close>

definition pd_fs_stat_work :: "kernel \<Rightarrow> (history \<Rightarrow> int) \<Rightarrow> task \<Rightarrow> fs_mem \<Rightarrow> fs_mem res" where
  "pd_fs_stat_work kern sizes t f =
     (case op_params (fs_ops f t) of
        Stat_params d \<Rightarrow>
          bind_res (loop_res (file_call kern (Sys_fstat d) [])) (\<lambda>(st, e, h).
            if st < 0 then Inr (set_fs t (\<lambda>p. p\<lparr>op_status := pd_errmap e\<rparr>) f)
            else Inr (set_fs t (\<lambda>p. p\<lparr>op_result := Stat (word_of_int (sizes h)), op_status := 0\<rparr>) f))
      | _ \<Rightarrow> Inl Bad_memory)"

definition pd_fs_close_work :: "kernel \<Rightarrow> task \<Rightarrow> fs_mem \<Rightarrow> fs_mem res" where
  "pd_fs_close_work kern t f =
     (case op_params (fs_ops f t) of
        Close_params d \<Rightarrow>
          bind_res (loop_res (file_call kern (Sys_close d) [])) (\<lambda>(st, e, _).
            Inr (set_fs t (\<lambda>p. p\<lparr>op_status := if st < 0 then pd_errmap e else 0\<rparr>) f))
      | _ \<Rightarrow> Inl Bad_memory)"

section \<open>In the loop\<close>

definition pd_fs_work_done :: "task \<Rightarrow> fs_mem \<Rightarrow> fs_mem res" where
  "pd_fs_work_done t f =
     bind_res (deref (op_cb (fs_ops f t))) (\<lambda>g.
       Inr (f\<lparr>fs_calls := fs_calls f @ [(t, g, op_status (fs_ops f t), op_result (fs_ops f t))]\<rparr>))"

end
