(* ===== verification/File_Windows.thy ===== *)
theory File_Windows
  imports File_Ops
begin

text \<open>
  The file operations on Windows (\<^verbatim>\<open>src/sys/fs_win32.c\<close>). The structures are those of \<open>File_Ops\<close>; a \<^verbatim>\<open>HANDLE\<close> is an
  integer, \<open>INVALID_HANDLE_VALUE\<close> is -1. Each work function makes one call of the Windows API. What that does
  is a parameter, from the call to the values it returns and stores and the code of \<^verbatim>\<open>GetLastError\<close>.
\<close>

section \<open>Flags\<close>

text \<open>From \<^verbatim>\<open>fcntl.h\<close> of Windows, which \<^verbatim>\<open>include/pandio/fs.h\<close> names \<^verbatim>\<open>PD_FS_O_RDONLY\<close> and so on.\<close>

definition O_RDONLY :: uint32 where "O_RDONLY = 0"
definition O_WRONLY :: uint32 where "O_WRONLY = 1"
definition O_RDWR :: uint32 where "O_RDWR = 2"
definition O_APPEND :: uint32 where "O_APPEND = 8"
definition O_CREAT :: uint32 where "O_CREAT = 0x100"
definition O_TRUNC :: uint32 where "O_TRUNC = 0x200"
definition O_EXCL :: uint32 where "O_EXCL = 0x400"

lemmas open_flags = O_RDONLY_def O_WRONLY_def O_RDWR_def O_APPEND_def O_CREAT_def O_TRUNC_def O_EXCL_def

definition GENERIC_READ :: uint32 where "GENERIC_READ = 0x80000000"
definition GENERIC_WRITE :: uint32 where "GENERIC_WRITE = 0x40000000"
definition FILE_ATTRIBUTE_NORMAL :: uint32 where "FILE_ATTRIBUTE_NORMAL = 0x80"
definition FILE_APPEND_DATA :: uint32 where "FILE_APPEND_DATA = 4"
definition CREATE_NEW :: uint32 where "CREATE_NEW = 1"
definition CREATE_ALWAYS :: uint32 where "CREATE_ALWAYS = 2"
definition OPEN_EXISTING :: uint32 where "OPEN_EXISTING = 3"
definition OPEN_ALWAYS :: uint32 where "OPEN_ALWAYS = 4"

lemmas create_flags = GENERIC_READ_def GENERIC_WRITE_def FILE_ATTRIBUTE_NORMAL_def FILE_APPEND_DATA_def
  CREATE_NEW_def CREATE_ALWAYS_def OPEN_EXISTING_def OPEN_ALWAYS_def

section \<open>The Windows API\<close>

text \<open>The arguments the sources set; the number of bytes to transfer is a \<^verbatim>\<open>DWORD\<close>.\<close>

datatype win_call =
    Create_file "string option" uint32 uint32 uint32
  | Close_handle int
  | Read_file int uint32
  | Write_file int "byte list"
  | File_information int

text \<open>
  What is returned (a handle, or a \<^verbatim>\<open>BOOL\<close>), the \<^verbatim>\<open>DWORD\<close> stored through a pointer, the two halves of a size, and the
  code of the error.
\<close>

record win_result =
  returned :: int
  transferred :: uint32
  size_high :: uint32
  size_low :: uint32
  last_error :: uint32

type_synonym win_files = "win_call \<Rightarrow> win_result"

text \<open>\<open>pd_errno\<close>: the error code is looked up with the tables \<open>tab\<close> of \<^verbatim>\<open>errno.h\<close> and \<open>win\<close> of \<^verbatim>\<open>winerror.h\<close>.\<close>

type_synonym win_codes = "(string \<Rightarrow> int option) \<times> (string \<Rightarrow> uint32)"

definition win_errno :: "win_codes \<Rightarrow> win_result \<Rightarrow> int" where
  "win_errno cs r = (case cs of (tab, win) \<Rightarrow> pd_errmap_win tab win (last_error r))"

section \<open>Filling an operation\<close>

definition win_fs_init :: "nat \<Rightarrow> task \<Rightarrow> fs_state \<Rightarrow> fs_state" where
  "win_fs_init c t s =
     (case s of (w, f) \<Rightarrow>
        let w = set_task t (\<lambda>k. k\<lparr>task_work := None, task_done_cb := None\<rparr>) w;
            f = set_fs t (\<lambda>_. \<lparr>op_ctx = 0, op_type = Pd_open_op, op_cb = None, op_status = 0,
                  op_params = No_params, op_result = No_result\<rparr>) f;
            f = set_fs t (\<lambda>p. p\<lparr>op_ctx := c, op_status := PD_UNKNOWN, op_type := Pd_unknown_op\<rparr>) f;
            w = set_task t (\<lambda>k. k\<lparr>task_done_cb := Some fs_work_done\<rparr>) w
        in (w, f))"

definition win_fs_open ::
  "nat option \<Rightarrow> task \<Rightarrow> string \<Rightarrow> int \<Rightarrow> int \<Rightarrow> callback option \<Rightarrow> fs_state \<Rightarrow> fs_state" where
  "win_fs_open a t path oflag mode g s =
     (case s of (w, f) \<Rightarrow>
        let f = strdup a path f;
            f = set_fs t (\<lambda>p. p\<lparr>op_params := Open_params a oflag mode\<rparr>) f;
            f = set_fs t (\<lambda>p. p\<lparr>op_type := Pd_open_op, op_cb := g\<rparr>) f
        in (set_task t (\<lambda>k. k\<lparr>task_work := Some (fs_function Open_work)\<rparr>) w, f))"

definition win_fs_close :: "task \<Rightarrow> int \<Rightarrow> callback option \<Rightarrow> fs_state \<Rightarrow> fs_state" where
  "win_fs_close t h g s =
     (case s of (w, f) \<Rightarrow>
        let f = set_fs t (\<lambda>p. p\<lparr>op_params := Close_params h\<rparr>) f;
            f = set_fs t (\<lambda>p. p\<lparr>op_type := Pd_close_op, op_cb := g\<rparr>) f
        in (set_task t (\<lambda>k. k\<lparr>task_work := Some (fs_function Close_work)\<rparr>) w, f))"

definition win_fs_read :: "task \<Rightarrow> int \<Rightarrow> nat \<Rightarrow> size_t \<Rightarrow> callback option \<Rightarrow> fs_state \<Rightarrow> fs_state" where
  "win_fs_read t h buf n g s =
     (case s of (w, f) \<Rightarrow>
        let f = set_fs t (\<lambda>p. p\<lparr>op_type := Pd_read_op\<rparr>) f;
            f = set_fs t (\<lambda>p. p\<lparr>op_params := Read_params h buf n\<rparr>) f;
            f = set_fs t (\<lambda>p. p\<lparr>op_cb := g\<rparr>) f
        in (set_task t (\<lambda>k. k\<lparr>task_work := Some (fs_function Read_work)\<rparr>) w, f))"

definition win_fs_write :: "task \<Rightarrow> int \<Rightarrow> byte list \<Rightarrow> size_t \<Rightarrow> callback option \<Rightarrow> fs_state \<Rightarrow> fs_state" where
  "win_fs_write t h buf n g s =
     (case s of (w, f) \<Rightarrow>
        let f = set_fs t (\<lambda>p. p\<lparr>op_type := Pd_write_op\<rparr>) f;
            f = set_fs t (\<lambda>p. p\<lparr>op_params := Write_params h buf n\<rparr>) f;
            f = set_fs t (\<lambda>p. p\<lparr>op_cb := g\<rparr>) f
        in (set_task t (\<lambda>k. k\<lparr>task_work := Some (fs_function Write_work)\<rparr>) w, f))"

definition win_fs_stat :: "task \<Rightarrow> int \<Rightarrow> callback option \<Rightarrow> fs_state \<Rightarrow> fs_state" where
  "win_fs_stat t h g s =
     (case s of (w, f) \<Rightarrow>
        let f = set_fs t (\<lambda>p. p\<lparr>op_params := Stat_params h\<rparr>) f;
            f = set_fs t (\<lambda>p. p\<lparr>op_type := Pd_stat_op, op_cb := g\<rparr>) f
        in (set_task t (\<lambda>k. k\<lparr>task_work := Some (fs_function Stat_work)\<rparr>) w, f))"

section \<open>The work functions\<close>

text \<open>How the flags of \<^verbatim>\<open>open\<close> become access rights, creation disposition and attributes.\<close>

definition win_access :: "uint32 \<Rightarrow> uint32" where
  "win_access oflag =
     (let access = 0;
          access = (if oflag AND O_RDONLY \<noteq> 0 then access OR GENERIC_READ else access);
          access = (if oflag AND O_WRONLY \<noteq> 0 then access OR GENERIC_WRITE else access);
          access = (if oflag AND O_RDWR \<noteq> 0 then access OR (GENERIC_READ OR GENERIC_WRITE) else access)
      in access)"

definition win_creation :: "uint32 \<Rightarrow> uint32" where
  "win_creation oflag =
     (let creation = OPEN_EXISTING;
          creation = (if oflag AND O_CREAT \<noteq> 0 then (if oflag AND O_EXCL \<noteq> 0 then CREATE_NEW else OPEN_ALWAYS)
            else creation);
          creation = (if oflag AND O_TRUNC \<noteq> 0 then CREATE_ALWAYS else creation)
      in creation)"

definition win_attributes :: "uint32 \<Rightarrow> uint32" where
  "win_attributes oflag =
     (let attributes = FILE_ATTRIBUTE_NORMAL;
          attributes = (if oflag AND O_APPEND \<noteq> 0 then attributes OR FILE_APPEND_DATA else attributes)
      in attributes)"

definition win_open_work :: "win_codes \<Rightarrow> win_files \<Rightarrow> task \<Rightarrow> fs_mem \<Rightarrow> fs_mem res" where
  "win_open_work cs api t f =
     (case op_params (fs_ops f t) of
        Open_params path oflag mode \<Rightarrow>
          bind_res (path_at path f) (\<lambda>s.
            let fl = word_of_int oflag;
                r = api (Create_file s (win_access fl) (win_creation fl) (win_attributes fl));
                f = set_fs t (\<lambda>p. p\<lparr>op_status := if returned r = -1 then win_errno cs r else 0\<rparr>) f;
                f = set_fs t (\<lambda>p. p\<lparr>op_result := Fd (returned r)\<rparr>) f
            in bind_res (free path f) (\<lambda>f.
                 Inr (set_fs t (\<lambda>p. p\<lparr>op_params := Open_params None oflag mode\<rparr>) f)))
      | _ \<Rightarrow> Inl Bad_memory)"

definition win_close_work :: "win_codes \<Rightarrow> win_files \<Rightarrow> task \<Rightarrow> fs_mem \<Rightarrow> fs_mem res" where
  "win_close_work cs api t f =
     (case op_params (fs_ops f t) of
        Close_params h \<Rightarrow>
          (let r = api (Close_handle h)
           in Inr (set_fs t (\<lambda>p. p\<lparr>op_status := if returned r = 0 then win_errno cs r else 0\<rparr>) f))
      | _ \<Rightarrow> Inl Bad_memory)"

definition win_read_work :: "win_codes \<Rightarrow> win_files \<Rightarrow> task \<Rightarrow> fs_mem \<Rightarrow> fs_mem res" where
  "win_read_work cs api t f =
     (case op_params (fs_ops f t) of
        Read_params h buf n \<Rightarrow>
          (let r = api (Read_file h (ucast n))
           in if returned r \<noteq> 0 then
                Inr (set_fs t (\<lambda>p. p\<lparr>op_status := 0, op_result := Size (uint (transferred r))\<rparr>) f)
              else Inr (set_fs t (\<lambda>p. p\<lparr>op_status := win_errno cs r, op_result := Size (-1)\<rparr>) f))
      | _ \<Rightarrow> Inl Bad_memory)"

definition win_write_work :: "win_codes \<Rightarrow> win_files \<Rightarrow> task \<Rightarrow> fs_mem \<Rightarrow> fs_mem res" where
  "win_write_work cs api t f =
     (case op_params (fs_ops f t) of
        Write_params h buf n \<Rightarrow>
          (let r = api (Write_file h (take (unat (ucast n :: uint32)) buf))
           in if returned r \<noteq> 0 then
                Inr (set_fs t (\<lambda>p. p\<lparr>op_status := 0, op_result := Size (uint (transferred r))\<rparr>) f)
              else Inr (set_fs t (\<lambda>p. p\<lparr>op_status := win_errno cs r, op_result := Size (-1)\<rparr>) f))
      | _ \<Rightarrow> Inl Bad_memory)"

definition win_stat_work :: "win_codes \<Rightarrow> win_files \<Rightarrow> task \<Rightarrow> fs_mem \<Rightarrow> fs_mem res" where
  "win_stat_work cs api t f =
     (case op_params (fs_ops f t) of
        Stat_params h \<Rightarrow>
          (let r = api (File_information h)
           in if returned r \<noteq> 0 then
                Inr (set_fs t (\<lambda>p. p\<lparr>op_status := 0,
                  op_result := Stat (push_bit 32 (ucast (size_high r)) OR ucast (size_low r))\<rparr>) f)
              else Inr (set_fs t (\<lambda>p. p\<lparr>op_status := win_errno cs r, op_result := Stat (-1)\<rparr>) f))
      | _ \<Rightarrow> Inl Bad_memory)"

definition win_work_done :: "task \<Rightarrow> fs_mem \<Rightarrow> fs_mem res" where
  "win_work_done t f =
     bind_res (deref (op_cb (fs_ops f t))) (\<lambda>g.
       Inr (f\<lparr>fs_calls := fs_calls f @ [(t, g, op_status (fs_ops f t), op_result (fs_ops f t))]\<rparr>))"

end
