(* ===== verification/File_System.thy ===== *)
theory File_System
  imports File_Windows Threadpool_Refines
begin

text \<open>
  The file operations on the threadpool. A platform gives the functions of \<^verbatim>\<open>fs_unix.c\<close> or \<^verbatim>\<open>fs_win32.c\<close>; a step of the
  composed system is a step of the threadpool, with the effect its calls of \<open>work\<close> and \<open>done\<close> have on the operation
  the task belongs to, or a client that initialises or submits an operation. Locale \<open>file_platform\<close> says what the
  composition needs of a platform. It is interpreted on both; what follows from it is proved once.
\<close>

section \<open>Platforms\<close>

text \<open>The submissions; for \<^verbatim>\<open>open\<close> with the address that \<^verbatim>\<open>strdup\<close> gets for the copy of the path.\<close>

datatype fs_request =
    Req_open "nat option" string int int
  | Req_read int nat size_t
  | Req_write int "byte list" size_t
  | Req_stat int
  | Req_close int

type_synonym fs_worker = "fs_work \<Rightarrow> task \<Rightarrow> fs_mem \<Rightarrow> fs_mem res"

record fs_functions =
  initialise :: "nat \<Rightarrow> task \<Rightarrow> fs_state \<Rightarrow> fs_state"
  request :: "fs_request \<Rightarrow> task \<Rightarrow> callback option \<Rightarrow> fs_state \<Rightarrow> fs_state"
  finish :: "task \<Rightarrow> fs_mem \<Rightarrow> fs_mem res"

record fs_platform = fs_functions +
  works :: "fs_worker set"

primrec unix_request :: "fs_request \<Rightarrow> task \<Rightarrow> callback option \<Rightarrow> fs_state \<Rightarrow> fs_state" where
  "unix_request (Req_open a path oflag mode) t g s = pd_fs_open a t path oflag mode g s"
| "unix_request (Req_read h buf n) t g s = pd_fs_read t h buf n g s"
| "unix_request (Req_write h buf n) t g s = pd_fs_write t h buf n g s"
| "unix_request (Req_stat h) t g s = pd_fs_stat t h g s"
| "unix_request (Req_close h) t g s = pd_fs_close t h g s"

primrec unix_work :: "kernel \<Rightarrow> (history \<Rightarrow> int) \<Rightarrow> fs_worker" where
  "unix_work kern sizes Open_work = pd_fs_open_work kern"
| "unix_work kern sizes Read_work = pd_fs_read_work kern"
| "unix_work kern sizes Write_work = pd_fs_write_work kern"
| "unix_work kern sizes Stat_work = pd_fs_stat_work kern sizes"
| "unix_work kern sizes Close_work = pd_fs_close_work kern"

definition unix_fs :: fs_platform where
  "unix_fs = \<lparr>initialise = pd_fs_init, request = unix_request, finish = pd_fs_work_done,
     works = {wk. \<exists>kern sizes. wk = unix_work kern sizes}\<rparr>"

primrec win_request :: "fs_request \<Rightarrow> task \<Rightarrow> callback option \<Rightarrow> fs_state \<Rightarrow> fs_state" where
  "win_request (Req_open a path oflag mode) t g s = win_fs_open a t path oflag mode g s"
| "win_request (Req_read h buf n) t g s = win_fs_read t h buf n g s"
| "win_request (Req_write h buf n) t g s = win_fs_write t h buf n g s"
| "win_request (Req_stat h) t g s = win_fs_stat t h g s"
| "win_request (Req_close h) t g s = win_fs_close t h g s"

primrec win_work :: "win_codes \<Rightarrow> win_files \<Rightarrow> fs_worker" where
  "win_work cs api Open_work = win_open_work cs api"
| "win_work cs api Read_work = win_read_work cs api"
| "win_work cs api Write_work = win_write_work cs api"
| "win_work cs api Stat_work = win_stat_work cs api"
| "win_work cs api Close_work = win_close_work cs api"

definition win_fs :: "win_codes \<Rightarrow> fs_platform" where
  "win_fs cs = \<lparr>initialise = win_fs_init, request = win_request, finish = win_work_done,
     works = {wk. \<exists>api. wk = win_work cs api}\<rparr>"

section \<open>What a platform does\<close>

primrec kind_of :: "fs_request \<Rightarrow> fs_work" where
  "kind_of (Req_open a path oflag mode) = Open_work"
| "kind_of (Req_read h buf n) = Read_work"
| "kind_of (Req_write h buf n) = Write_work"
| "kind_of (Req_stat h) = Stat_work"
| "kind_of (Req_close h) = Close_work"

primrec type_of :: "fs_work \<Rightarrow> pd_fs_type" where
  "type_of Open_work = Pd_open_op"
| "type_of Read_work = Pd_read_op"
| "type_of Write_work = Pd_write_op"
| "type_of Stat_work = Pd_stat_op"
| "type_of Close_work = Pd_close_op"

primrec params_of :: "fs_request \<Rightarrow> pd_fs_params" where
  "params_of (Req_open a path oflag mode) = Open_params a oflag mode"
| "params_of (Req_read h buf n) = Read_params h buf n"
| "params_of (Req_write h buf n) = Write_params h buf n"
| "params_of (Req_stat h) = Stat_params h"
| "params_of (Req_close h) = Close_params h"

fun copy_of :: "fs_request \<Rightarrow> nat option" where
  "copy_of (Req_open a path oflag mode) = a"
| "copy_of _ = None"

text \<open>The member of the union a work function reads, and the copy of a path it owns.\<close>

fun member :: "fs_work \<Rightarrow> pd_fs_params \<Rightarrow> bool" where
  "member Open_work (Open_params a oflag mode) = True"
| "member Read_work (Read_params h buf n) = True"
| "member Write_work (Write_params h buf n) = True"
| "member Stat_work (Stat_params h) = True"
| "member Close_work (Close_params h) = True"
| "member _ _ = False"

fun owned_path :: "pd_fs_params \<Rightarrow> nat option" where
  "owned_path (Open_params a oflag mode) = a"
| "owned_path _ = None"

fun released :: "pd_fs_params \<Rightarrow> pd_fs_params" where
  "released (Open_params a oflag mode) = Open_params None oflag mode"
| "released p = p"

definition filled :: "fs_request \<Rightarrow> task \<Rightarrow> callback option \<Rightarrow> fs_state \<Rightarrow> fs_state" where
  "filled q t g s =
     (set_task t (\<lambda>k. k\<lparr>task_work := Some (fs_function (kind_of q))\<rparr>) (fst s),
      set_fs t (\<lambda>p. p\<lparr>op_type := type_of (kind_of q), op_cb := g, op_params := params_of q\<rparr>)
        (case q of Req_open a path oflag mode \<Rightarrow> strdup a path (snd s) | _ \<Rightarrow> snd s))"

definition worked_on :: "task \<Rightarrow> fs_mem \<Rightarrow> fs_mem \<Rightarrow> bool" where
  "worked_on t f f' \<longleftrightarrow>
     (\<exists>st r. f' = set_fs t (\<lambda>p. p\<lparr>op_status := st, op_result := r, op_params := released (op_params p)\<rparr>)
        (case owned_path (op_params (fs_ops f t)) of None \<Rightarrow> f | Some p \<Rightarrow> f\<lparr>strings := (strings f)(p := None)\<rparr>))"

locale file_platform =
  fixes P :: fs_platform
  assumes init_clears: "initialise P c t (w, f) =
      (set_task t (\<lambda>k. k\<lparr>task_work := None, task_done_cb := Some fs_work_done\<rparr>) w,
       set_fs t (\<lambda>_. \<lparr>op_ctx = c, op_type = Pd_unknown_op, op_cb = None, op_status = PD_UNKNOWN,
         op_params = No_params, op_result = No_result\<rparr>) f)"
    and request_fills: "request P q t h s = filled q t h s"
    and work_works: "wk \<in> works P \<Longrightarrow> member k (op_params (fs_ops f t)) \<Longrightarrow>
      (\<And>p. owned_path (op_params (fs_ops f t)) = Some p \<Longrightarrow> strings f p \<noteq> None) \<Longrightarrow>
      wk k t f = Inl Diverged \<or> (\<exists>f'. wk k t f = Inr f' \<and> worked_on t f f')"
    and finish_calls: "op_cb (fs_ops f t) = Some g \<Longrightarrow>
      finish P t f = Inr (f\<lparr>fs_calls := fs_calls f @ [(t, g, op_status (fs_ops f t), op_result (fs_ops f t))]\<rparr>)"

begin

lemma request_task: "fst (request P q t g (w, f)) = set_task t (\<lambda>k. k\<lparr>task_work := Some (fs_function (kind_of q))\<rparr>) w"
  by (simp add: request_fills filled_def)

end

lemma member_cases:
  assumes "member k ps"
  obtains a oflag mode where "k = Open_work" "ps = Open_params a oflag mode"
  | h buf n where "k = Read_work" "ps = Read_params h buf n"
  | h buf n where "k = Write_work" "ps = Write_params h buf n"
  | h where "k = Stat_work" "ps = Stat_params h"
  | h where "k = Close_work" "ps = Close_params h"
  using assms by (cases k; cases ps) auto

lemma set_fs_worked:
  "owned_path (op_params (fs_ops f t)) = None \<Longrightarrow> op_params (fs_ops f t) = ps \<Longrightarrow> released ps = ps \<Longrightarrow>
   worked_on t f (set_fs t (\<lambda>p. p\<lparr>op_status := st\<rparr>) f) \<and>
   worked_on t f (set_fs t (\<lambda>p. p\<lparr>op_status := st, op_result := r\<rparr>) f) \<and>
   worked_on t f (set_fs t (\<lambda>p. p\<lparr>op_result := r, op_status := st\<rparr>) f)"
  unfolding worked_on_def
  by (intro conjI exI [of _ st] exI [of _ "op_result (fs_ops f t)"] exI [of _ r]) (auto simp: fun_eq_iff)

lemma op_updates:
  fixes p :: pd_fs
  shows "p\<lparr>op_params := a, op_type := b, op_cb := g\<rparr> = p\<lparr>op_type := b, op_cb := g, op_params := a\<rparr>"
    "p\<lparr>op_type := b, op_params := a, op_cb := g\<rparr> = p\<lparr>op_type := b, op_cb := g, op_params := a\<rparr>"
  by simp_all

lemma open_worked:
  assumes "op_params (fs_ops f t) = Open_params a oflag mode" "\<And>p. a = Some p \<Longrightarrow> strings f p \<noteq> None"
  shows "\<exists>f'. bind_res (free a (set_fs t (\<lambda>p. p\<lparr>op_result := r\<rparr>) (set_fs t (\<lambda>p. p\<lparr>op_status := st\<rparr>) f)))
      (\<lambda>f. Inr (set_fs t (\<lambda>p. p\<lparr>op_params := Open_params None oflag mode\<rparr>) f)) = Inr f' \<and> worked_on t f f'"
proof (cases a)
  case None
  then show ?thesis using assms by (auto simp: free_def worked_on_def intro!: exI [of _ st] exI [of _ r])
next
  case (Some p)
  then obtain s where "strings f p = Some s" using assms(2) by auto
  with Some show ?thesis using assms(1) by (auto simp: free_def worked_on_def intro!: exI [of _ st] exI [of _ r])
qed

lemma path_at_live:
  "(\<And>p. a = Some p \<Longrightarrow> strings f p \<noteq> None) \<Longrightarrow> \<exists>s. path_at a f = Inr s"
  by (auto simp: path_at_def split: option.splits)

interpretation unix: file_platform unix_fs
proof
  fix wk :: fs_worker and k t and f :: fs_mem
  assume wk: "wk \<in> works unix_fs" and m: "member k (op_params (fs_ops f t))"
    and own: "\<And>p. owned_path (op_params (fs_ops f t)) = Some p \<Longrightarrow> strings f p \<noteq> None"
  obtain kern sizes where wk: "wk = unix_work kern sizes" using wk by (auto simp: unix_fs_def)
  from m show "wk k t f = Inl Diverged \<or> (\<exists>f'. wk k t f = Inr f' \<and> worked_on t f f')"
  proof (cases rule: member_cases)
    case (1 a oflag mode)
    then have "\<And>p. a = Some p \<Longrightarrow> strings f p \<noteq> None" using own by simp
    from path_at_live [OF this] open_worked [OF 1(2) this] obtain s where "path_at a f = Inr s"
      "\<And>r st. \<exists>f'. bind_res (free a (set_fs t (\<lambda>p. p\<lparr>op_result := r\<rparr>) (set_fs t (\<lambda>p. p\<lparr>op_status := st\<rparr>) f)))
        (\<lambda>f. Inr (set_fs t (\<lambda>p. p\<lparr>op_params := Open_params None oflag mode\<rparr>) f)) = Inr f' \<and> worked_on t f f'"
      by blast
    then show ?thesis unfolding wk using 1
      by (simp only: unix_work.simps pd_fs_open_work_def pd_fs_params.case bind_res.simps loop_res_def Let_def)
        (simp only: option.case bind_res.simps prod.case split: option.split prod.split, blast)
  next
    case 2
    then show ?thesis unfolding wk using set_fs_worked [OF _ 2(2)]
      by (auto simp: pd_fs_read_work_def loop_res_def Let_def split: option.splits)
  next
    case 3
    then show ?thesis unfolding wk using set_fs_worked [OF _ 3(2)]
      by (auto simp: pd_fs_write_work_def loop_res_def Let_def split: option.splits)
  next
    case 4
    then show ?thesis unfolding wk using set_fs_worked [OF _ 4(2)]
      by (auto simp: pd_fs_stat_work_def loop_res_def Let_def split: option.splits)
  next
    case 5
    then show ?thesis unfolding wk using set_fs_worked [OF _ 5(2)]
      by (auto simp: pd_fs_close_work_def loop_res_def Let_def split: option.splits)
  qed
next
  fix q t and g :: "callback option" and s
  show "request unix_fs q t g s = filled q t g s"
    by (cases q) (simp_all add: unix_fs_def filled_def pd_fs_open_def pd_fs_read_def pd_fs_write_def pd_fs_stat_def
        pd_fs_close_def Let_def case_prod_beta op_updates)
qed (simp_all add: unix_fs_def pd_fs_init_def Let_def pd_fs_work_done_def)

interpretation win: file_platform "win_fs cs" for cs
proof
  fix wk :: fs_worker and k t and f :: fs_mem
  assume wk: "wk \<in> works (win_fs cs)" and m: "member k (op_params (fs_ops f t))"
    and own: "\<And>p. owned_path (op_params (fs_ops f t)) = Some p \<Longrightarrow> strings f p \<noteq> None"
  obtain api where wk: "wk = win_work cs api" using wk by (auto simp: win_fs_def)
  from m show "wk k t f = Inl Diverged \<or> (\<exists>f'. wk k t f = Inr f' \<and> worked_on t f f')"
  proof (cases rule: member_cases)
    case (1 a oflag mode)
    then have "\<And>p. a = Some p \<Longrightarrow> strings f p \<noteq> None" using own by simp
    from path_at_live [OF this] open_worked [OF 1(2) this] obtain s where "path_at a f = Inr s"
      "\<And>r st. \<exists>f'. bind_res (free a (set_fs t (\<lambda>p. p\<lparr>op_result := r\<rparr>) (set_fs t (\<lambda>p. p\<lparr>op_status := st\<rparr>) f)))
        (\<lambda>f. Inr (set_fs t (\<lambda>p. p\<lparr>op_params := Open_params None oflag mode\<rparr>) f)) = Inr f' \<and> worked_on t f f'"
      by blast
    then show ?thesis unfolding wk using 1
      by (simp only: win_work.simps win_open_work_def pd_fs_params.case bind_res.simps Let_def) blast
  next
    case 2
    then show ?thesis unfolding wk using set_fs_worked [OF _ 2(2)] by (auto simp: win_read_work_def Let_def)
  next
    case 3
    then show ?thesis unfolding wk using set_fs_worked [OF _ 3(2)] by (auto simp: win_write_work_def Let_def)
  next
    case 4
    then show ?thesis unfolding wk using set_fs_worked [OF _ 4(2)] by (auto simp: win_stat_work_def Let_def)
  next
    case 5
    then show ?thesis unfolding wk using set_fs_worked [OF _ 5(2)] by (auto simp: win_close_work_def Let_def)
  qed
next
  fix q t and g :: "callback option" and s
  show "request (win_fs cs) q t g s = filled q t g s"
    by (cases q) (simp_all add: win_fs_def filled_def win_fs_open_def win_fs_read_def win_fs_write_def win_fs_stat_def
        win_fs_close_def Let_def case_prod_beta op_updates)
qed (simp_all add: win_fs_def win_fs_init_def Let_def win_work_done_def)

end
