(* ===== verification/File_Runs.thy ===== *)
theory File_Runs
  imports File_System
begin

text \<open>
  Runs of the composed system: threads of the pool, and clients that initialise and submit file operations. \<open>F\<close> are
  the tasks that belong to file operations; other tasks do as they like, except with the memory of the file
  operations. The contract \<open>keeps_contract\<close> of the clients is that an operation is initialised before it is submitted,
  has a callback, and is left alone until that is called.
\<close>

section \<open>Steps\<close>

datatype fs_event =
    Initialised nat task
  | Requested task fs_request "callback option" pool_event
  | Worked nat task int pd_fs_result
  | Pooled pool_event

text \<open>What happens in the pool with an event. An initialisation changes a task, and so does a request before it submits.\<close>

fun in_pool :: "fs_event \<Rightarrow> pool_event list" where
  "in_pool (Initialised c t) = [Tau]"
| "in_pool (Requested t q g e) = [Tau, e]"
| "in_pool (Worked i t st r) = [Work i t]"
| "in_pool (Pooled e) = [e]"

abbreviation pool_events :: "fs_event list \<Rightarrow> pool_event list" where
  "pool_events evs \<equiv> concat (map in_pool evs)"

fun about :: "pool_event \<Rightarrow> task set" where
  "about (Accept c t) = {t}"
| "about (Refused c t) = {t}"
| "about (Work i t) = {t}"
| "about (Done c t) = {t}"
| "about _ = {}"

definition fresh_copy :: "fs_request \<Rightarrow> fs_mem \<Rightarrow> bool" where
  "fresh_copy q f \<longleftrightarrow> (\<forall>p. copy_of q = Some p \<longrightarrow> strings f p = None)"

text \<open>
  A step, its event, and the state after it or the fault it ends in. A loop submits its own operations only. The
  function a worker calls may find the system in any state, so it is any of those of the platform.
\<close>

inductive fs_step :: "fs_platform \<Rightarrow> task set \<Rightarrow> fs_state \<Rightarrow> fs_event \<Rightarrow> fs_state res \<Rightarrow> bool" for P F where
  initialises: "t \<in> F \<Longrightarrow> lpc w d = L_client \<Longrightarrow>
     fs_step P F (w, f) (Initialised c t) (Inr (initialise P c t (w, f)))"
| requests: "t \<in> F \<Longrightarrow> fresh_copy q f \<Longrightarrow> request P q t g (w, f) = (w1, f1) \<Longrightarrow> lpc w c = L_client \<Longrightarrow>
     op_ctx (fs_ops f t) = c \<Longrightarrow> client_step c w1 e w2 \<Longrightarrow> e = Accept c t \<or> e = Refused c t \<Longrightarrow>
     fs_step P F (w, f) (Requested t q g e) (Inr (w2, f1))"
| works: "t \<in> F \<Longrightarrow> worker_step i w (Work i t) w' \<Longrightarrow> task_work (taskmem w t) = Some (fs_function k) \<Longrightarrow>
     wk \<in> works P \<Longrightarrow> wk k t f = Inr f' \<Longrightarrow>
     fs_step P F (w, f) (Worked i t (op_status (fs_ops f' t)) (op_result (fs_ops f' t))) (Inr (w', f'))"
| work_fails: "t \<in> F \<Longrightarrow> worker_step i w (Work i t) w' \<Longrightarrow> task_work (taskmem w t) = Some (fs_function k) \<Longrightarrow>
     wk \<in> works P \<Longrightarrow> wk k t f = Inl x \<Longrightarrow> fs_step P F (w, f) (Pooled (Work i t)) (Inl x)"
| reports_done: "t \<in> F \<Longrightarrow> loop_step c w (Done c t) w' \<Longrightarrow> task_done_cb (taskmem w t) = Some fs_work_done \<Longrightarrow>
     fs_step P F (w, f) (Pooled (Done c t)) (bind_res (finish P t f) (\<lambda>f'. Inr (w', f')))"
| others: "pool_step w e w' \<Longrightarrow> about e \<inter> F = {} \<Longrightarrow> (\<And>t. t \<in> F \<Longrightarrow> taskmem w' t = taskmem w t) \<Longrightarrow>
     fs_step P F (w, f) (Pooled e) (Inr (w', f))"

inductive fs_run :: "fs_platform \<Rightarrow> task set \<Rightarrow> fs_state \<Rightarrow> fs_event list \<Rightarrow> fs_state \<Rightarrow> bool" for P F s where
  fs_run_start: "fs_run P F s [] s"
| fs_run_step: "fs_run P F s evs s1 \<Longrightarrow> fs_step P F s1 e (Inr s2) \<Longrightarrow> fs_run P F s (evs @ [e]) s2"

section \<open>The contract of the clients\<close>

text \<open>The operations that have been initialised, and those under way.\<close>

fun progress :: "fs_event \<Rightarrow> task set \<times> task set \<Rightarrow> task set \<times> task set" where
  "progress (Initialised c t) (I, S) = (insert t I, S)"
| "progress (Requested t q g e) (I, S) = (I, under_way e S)"
| "progress (Worked i t st r) (I, S) = (I, S)"
| "progress (Pooled e) (I, S) = (I, under_way e S)"

fun allowed :: "task set \<times> task set \<Rightarrow> fs_event \<Rightarrow> bool" where
  "allowed (I, S) (Initialised c t) = (t \<notin> S)"
| "allowed (I, S) (Requested t q g e) = (t \<in> I \<and> t \<notin> S \<and> g \<noteq> None)"
| "allowed (I, S) (Worked i t st r) = True"
| "allowed (I, S) (Pooled e) = proper_event S e"

fun keeps_contract :: "task set \<times> task set \<Rightarrow> fs_event list \<Rightarrow> bool" where
  "keeps_contract IS [] = True"
| "keeps_contract IS (e # es) = (allowed IS e \<and> keeps_contract (progress e IS) es)"

lemma keeps_contract_append [simp]:
  "keeps_contract IS (es @ fs) = (keeps_contract IS es \<and> keeps_contract (fold progress es IS) fs)"
  by (induction es arbitrary: IS) auto

lemma progress_under_way: "snd (progress e IS) = fold under_way (in_pool e) (snd IS)"
  by (cases IS; cases e) auto

lemma fold_progress_under_way: "snd (fold progress evs IS) = fold under_way (pool_events evs) (snd IS)"
  by (induction evs arbitrary: IS) (auto simp: progress_under_way)

section \<open>Phases of a task\<close>

datatype phase = Resting | Pending | Finished_work

fun phase_of :: "place \<Rightarrow> phase" where
  "phase_of Idle = Resting"
| "phase_of (Entering c) = Pending"
| "phase_of (Queued c) = Pending"
| "phase_of (Taken i c b) = (if b then Finished_work else Pending)"
| "phase_of (Finished c) = Finished_work"
| "phase_of (Collected c) = Finished_work"

fun phase_after :: "pool_event \<Rightarrow> (task \<Rightarrow> phase) \<Rightarrow> (task \<Rightarrow> phase)" where
  "phase_after (Accept c t) ph = ph(t := Pending)"
| "phase_after (Work i t) ph = ph(t := Finished_work)"
| "phase_after (Done c t) ph = ph(t := Resting)"
| "phase_after _ ph = ph"

fun phase_before :: "pool_event \<Rightarrow> (task \<Rightarrow> phase) \<Rightarrow> bool" where
  "phase_before (Accept c t) ph = (ph t = Resting)"
| "phase_before (Work i t) ph = (ph t = Pending)"
| "phase_before (Done c t) ph = (ph t = Finished_work)"
| "phase_before _ ph = True"

lemma Resting_iff: "phase_of x = Resting \<longleftrightarrow> x = Idle"
  by (cases x) auto

lemma spec_step_phase:
  assumes "spec_step a e a'" "spec_ok a"
  shows "(\<lambda>t. phase_of (place a' t)) = phase_after e (\<lambda>t. phase_of (place a t)) \<and>
    phase_before e (\<lambda>t. phase_of (place a t))"
  using assms(1)
proof cases
  case (s_collect c t ts)
  then have "place a t = Finished c" using spec_okD(4) [OF assms(2), of t c] by simp
  with s_collect show ?thesis by auto
next
  case (s_done c t ts)
  then have "place a t = Collected c" using spec_okD(6) [OF assms(2), of t c] by simp
  with s_done show ?thesis by auto
qed (auto simp: fun_eq_iff)

end
