(* ===== verification/File_Correct.thy ===== *)
theory File_Correct
  imports File_Runs
begin

text \<open>
  The invariant of the file operations in a run: which functions a task holds, that the union of an operation under
  way holds the member its work function reads, which strings are allocated and who owns them, and that the results
  in memory are those of the last piece of work.
\<close>

section \<open>The invariant\<close>

text \<open>The results of the work on an operation, and those its callbacks have found.\<close>

definition outcomes :: "task \<Rightarrow> fs_event list \<Rightarrow> (int \<times> pd_fs_result) list" where
  "outcomes t evs =
     List.map_filter (\<lambda>e. case e of Worked i u st r \<Rightarrow> if u = t then Some (st, r) else None | _ \<Rightarrow> None) evs"

definition seen :: "task \<Rightarrow> fs_mem \<Rightarrow> (int \<times> pd_fs_result) list" where
  "seen t f = List.map_filter (\<lambda>(u, g, st, r). if u = t then Some (st, r) else None) (fs_calls f)"

definition calls_made :: "task \<Rightarrow> pool_event list \<Rightarrow> nat" where
  "calls_made t es = length (filter (\<lambda>e. \<exists>c. e = Done c t) es)"

text \<open>The copies of paths in requests that the threadpool has refused.\<close>

definition leaked :: "fs_event list \<Rightarrow> nat set" where
  "leaked evs = {p. \<exists>t q g c. Requested t q g (Refused c t) \<in> set evs \<and> copy_of q = Some p}"

definition initialised :: "fs_event list \<Rightarrow> task set" where
  "initialised evs = fst (fold progress evs ({}, {}))"

lemma outcomes_simps [simp]:
  "outcomes t [] = []"
  "outcomes t (evs @ [Worked i u st r]) = outcomes t evs @ (if u = t then [(st, r)] else [])"
  "outcomes t (evs @ [Initialised c u]) = outcomes t evs"
  "outcomes t (evs @ [Requested u q g e]) = outcomes t evs"
  "outcomes t (evs @ [Pooled e]) = outcomes t evs"
  by (simp_all add: outcomes_def List.map_filter_def)

lemma seen_snoc [simp]:
  "fs_calls f' = fs_calls f @ [(u, g, st, r)] \<Longrightarrow> seen t f' = seen t f @ (if u = t then [(st, r)] else [])"
  by (simp add: seen_def List.map_filter_def)

lemma seen_cong: "fs_calls f' = fs_calls f \<Longrightarrow> seen t f' = seen t f"
  by (simp add: seen_def)

lemma calls_made_append [simp]: "calls_made t (es @ fs) = calls_made t es + calls_made t fs"
  by (simp add: calls_made_def)

lemma calls_made_one [simp]: "calls_made t [e] = of_bool (\<exists>c. e = Done c t)"
  by (simp add: calls_made_def)

lemma calls_made_two [simp]: "calls_made t [e1, e2] = calls_made t [e1] + calls_made t [e2]"
  by (simp add: calls_made_def)

lemma leaked_snoc:
  "leaked (evs @ [e]) = leaked evs \<union>
     {p. \<exists>t q g c. e = Requested t q g (Refused c t) \<and> copy_of q = Some p}"
  by (auto simp: leaked_def)

lemma leaked_simps [simp]:
  "leaked (evs @ [Worked i u st r]) = leaked evs"
  "leaked (evs @ [Initialised c u]) = leaked evs"
  "leaked (evs @ [Pooled e]) = leaked evs"
  "leaked (evs @ [Requested u q g (Accept c u)]) = leaked evs"
  "leaked (evs @ [Requested u q g (Refused c u)]) = leaked evs \<union> {p. copy_of q = Some p}"
  by (auto simp: leaked_snoc)

lemma initialised_simps [simp]:
  "initialised (evs @ [Initialised c t]) = insert t (initialised evs)"
  "initialised (evs @ [Requested t q g e]) = initialised evs"
  "initialised (evs @ [Worked i t st r]) = initialised evs"
  "initialised (evs @ [Pooled e]) = initialised evs"
  by (cases "fold progress evs ({}, {})"; simp add: initialised_def)+

definition functions_ok :: "task set \<Rightarrow> fs_event list \<Rightarrow> (task \<Rightarrow> phase) \<Rightarrow> pool \<Rightarrow> fs_mem \<Rightarrow> bool" where
  "functions_ok F evs ph w f \<longleftrightarrow>
     (\<forall>t \<in> F. (t \<in> initialised evs \<longrightarrow> task_done_cb (taskmem w t) = Some fs_work_done) \<and>
       (ph t \<noteq> Resting \<longrightarrow> t \<in> initialised evs \<and> op_cb (fs_ops f t) \<noteq> None) \<and>
       (ph t = Pending \<longrightarrow>
         (\<exists>k. task_work (taskmem w t) = Some (fs_function k) \<and> member k (op_params (fs_ops f t)))))"

definition owns :: "task set \<Rightarrow> (task \<Rightarrow> phase) \<Rightarrow> fs_mem \<Rightarrow> task \<Rightarrow> nat \<Rightarrow> bool" where
  "owns F ph f t p \<longleftrightarrow> t \<in> F \<and> ph t = Pending \<and> owned_path (op_params (fs_ops f t)) = Some p"

definition strings_ok :: "task set \<Rightarrow> fs_event list \<Rightarrow> (task \<Rightarrow> phase) \<Rightarrow> fs_mem \<Rightarrow> bool" where
  "strings_ok F evs ph f \<longleftrightarrow>
     (\<forall>p. strings f p \<noteq> None \<longleftrightarrow> p \<in> leaked evs \<or> (\<exists>t. owns F ph f t p)) \<and>
     (\<forall>p t. owns F ph f t p \<longrightarrow> p \<notin> leaked evs \<and> (\<forall>u. owns F ph f u p \<longrightarrow> u = t))"

definition results_ok :: "task set \<Rightarrow> fs_event list \<Rightarrow> (task \<Rightarrow> phase) \<Rightarrow> fs_mem \<Rightarrow> bool" where
  "results_ok F evs ph f \<longleftrightarrow>
     (\<forall>t \<in> F. outcomes t evs = seen t f @
         (if ph t = Finished_work then [(op_status (fs_ops f t), op_result (fs_ops f t))] else []) \<and>
       length (seen t f) = calls_made t (pool_events evs))"

definition fs_inv :: "task set \<Rightarrow> fs_event list \<Rightarrow> (task \<Rightarrow> phase) \<Rightarrow> fs_state \<Rightarrow> bool" where
  "fs_inv F evs ph s \<longleftrightarrow>
     functions_ok F evs ph (fst s) (snd s) \<and> strings_ok F evs ph (snd s) \<and> results_ok F evs ph (snd s)"

lemma work_keeps: "worker_step i w (Work j t) w' \<Longrightarrow> taskmem w' = taskmem w"
  by (erule work_cases) simp

lemma done_keeps: "loop_step c w (Done d t) w' \<Longrightarrow> taskmem w' = taskmem w"
  by (erule done_cases) simp

lemma submit_keeps:
  assumes "client_step c w e w'" "e = Accept c t \<or> e = Refused c t"
  shows "task_work (taskmem w' u) = task_work (taskmem w u)" "task_done_cb (taskmem w' u) = task_done_cb (taskmem w u)"
  using assms by (auto elim!: client_step.cases)

section \<open>It is kept\<close>

text \<open>Tasks that are not of \<open>F\<close> move, but change nothing else.\<close>

lemma phase_after_other: "about e \<inter> F = {} \<Longrightarrow> t \<in> F \<Longrightarrow> phase_after e ph t = ph t"
  by (cases e) auto

lemma owns_cong:
  "(\<And>t. t \<in> F \<Longrightarrow> ph' t = ph t) \<Longrightarrow> (\<And>t. t \<in> F \<Longrightarrow> ph t = Pending \<Longrightarrow> fs_ops f' t = fs_ops f t) \<Longrightarrow>
   owns F ph' f' = owns F ph f"
  by (auto simp: owns_def fun_eq_iff)

lemma inv_others:
  assumes "fs_inv F evs ph (w, f)" "about e \<inter> F = {}" "\<And>t. t \<in> F \<Longrightarrow> taskmem w' t = taskmem w t"
  shows "fs_inv F (evs @ [Pooled e]) (phase_after e ph) (w', f)"
proof -
  note same = phase_after_other [OF assms(2)]
  have "owns F (phase_after e ph) f = owns F ph f" by (rule owns_cong) (auto simp: same)
  moreover have "e \<noteq> Done c t" if "t \<in> F" for c t using assms(2) that by auto
  ultimately show ?thesis using assms(1,3)
    by (simp add: fs_inv_def functions_ok_def strings_ok_def results_ok_def same)
qed

context file_platform
begin

lemma inv_initialises:
  assumes "fs_inv F evs ph (w, f)" "t \<in> F" "ph t = Resting"
  shows "fs_inv F (evs @ [Initialised c t]) ph (initialise P c t (w, f))"
proof -
  have f': "snd (initialise P c t (w, f)) = set_fs t (\<lambda>_. \<lparr>op_ctx = c, op_type = Pd_unknown_op, op_cb = None,
      op_status = PD_UNKNOWN, op_params = No_params, op_result = No_result\<rparr>) f"
    and w': "taskmem (fst (initialise P c t (w, f))) =
      (taskmem w)(t := (taskmem w t)\<lparr>task_work := None, task_done_cb := Some fs_work_done\<rparr>)"
    by (simp_all add: init_clears)
  have "owns F ph (snd (initialise P c t (w, f))) = owns F ph f"
    by (rule owns_cong) (auto simp: f' assms(3))
  moreover have "seen u (snd (initialise P c t (w, f))) = seen u f" for u
    by (rule seen_cong) (simp add: f')
  ultimately show ?thesis using assms
    by (auto simp: fs_inv_def functions_ok_def strings_ok_def results_ok_def f' w')
qed

lemma member_of: "member (kind_of q) (params_of q)"
  by (cases q) auto

lemma filled_ops:
  assumes "s' = request P q t g (w, f)"
  shows "fs_ops (snd s') = (fs_ops f)(t := (fs_ops f t)\<lparr>op_type := type_of (kind_of q), op_cb := g, op_params := params_of q\<rparr>)"
    "strings (snd s') = (case q of Req_open (Some p) path oflag mode \<Rightarrow> (strings f)(p := Some path) | _ \<Rightarrow> strings f)"
    "fs_calls (snd s') = fs_calls f"
    "taskmem (fst s') = (taskmem w)(t := (taskmem w t)\<lparr>task_work := Some (fs_function (kind_of q))\<rparr>)"
  unfolding assms request_fills filled_def by (auto simp: strdup_def split: fs_request.split option.split)

lemma strings_filled:
  assumes "s' = request P q t g (w, f)"
  shows "strings (snd s') p \<noteq> None \<longleftrightarrow> strings f p \<noteq> None \<or> copy_of q = Some p"
  using filled_ops(2) [OF assms] by (auto split: fs_request.splits option.splits)

lemma inv_requests:
  assumes inv: "fs_inv F evs ph (w, f)" and t: "t \<in> F" "t \<in> initialised evs" "ph t = Resting" "g \<noteq> None"
    and fresh: "fresh_copy q f" and req: "request P q t g (w, f) = (w1, f1)"
    and sub: "client_step c w1 e w2" "e = Accept c t \<or> e = Refused c t"
  shows "fs_inv F (evs @ [Requested t q g e]) (phase_after e ph) (w2, f1)"
proof -
  note ops = filled_ops [OF req [symmetric], simplified]
  note strs = strings_filled [OF req [symmetric], unfolded snd_conv]
  have keep: "task_work (taskmem w2 u) = task_work (taskmem w1 u)"
    "task_done_cb (taskmem w2 u) = task_done_cb (taskmem w1 u)" for u
    using submit_keeps [OF sub] by auto
  have ph: "phase_after e ph u = (if u = t \<and> e = Accept c t then Pending else ph u)" for u
    using sub(2) t(3) by auto
  have nodone: "e \<noteq> Done d u" for d u using sub(2) by auto
  have seen: "seen u f1 = seen u f" for u by (rule seen_cong) (simp add: ops)
  have funs: "functions_ok F (evs @ [Requested t q g e]) (phase_after e ph) w2 f1"
    using inv t member_of unfolding fs_inv_def functions_ok_def by (auto simp: ops keep ph)
  have res: "results_ok F (evs @ [Requested t q g e]) (phase_after e ph) f1"
    using inv t unfolding fs_inv_def results_ok_def by (auto simp: ops ph seen nodone)
  have notown: "\<not> owns F ph f t p" for p using t(3) by (simp add: owns_def)
  have own: "owns F (phase_after e ph) f1 u p \<longleftrightarrow> owns F ph f u p \<or> (u = t \<and> e = Accept c t \<and> copy_of q = Some p)" for u p
    using t sub(2) by (cases q) (auto simp: owns_def ph ops)
  have new: "\<not> strings f p \<noteq> None" if "copy_of q = Some p" for p using fresh that by (simp add: fresh_copy_def)
  have old: "strings f p \<noteq> None \<longleftrightarrow> p \<in> leaked evs \<or> (\<exists>t. owns F ph f t p)"
    "owns F ph f u p \<Longrightarrow> p \<notin> leaked evs \<and> (\<forall>v. owns F ph f v p \<longrightarrow> v = u)" for u p
    using inv unfolding fs_inv_def strings_ok_def by auto
  have none: "\<not> owns F ph f u p \<and> p \<notin> leaked evs" if "copy_of q = Some p" for u p
    using new [OF that] old(1) [of p] by auto
  have "strings_ok F (evs @ [Requested t q g e]) (phase_after e ph) f1"
    using sub(2)
  proof
    assume e: "e = Accept c t"
    have "strings f1 p \<noteq> None \<longleftrightarrow> p \<in> leaked evs \<or> (\<exists>u. owns F (phase_after e ph) f1 u p)" for p
      unfolding strs own using old(1) [of p] e by auto
    moreover have "p \<notin> leaked evs" if "owns F (phase_after e ph) f1 u p" for u p
      using that old(2) none unfolding own by blast
    moreover have "v = u" if "owns F (phase_after e ph) f1 u p" "owns F (phase_after e ph) f1 v p" for u v p
      using that old(2) none unfolding own by blast
    ultimately show ?thesis unfolding strings_ok_def e leaked_simps by blast
  next
    assume e: "e = Refused c t"
    have "owns F (phase_after e ph) f1 u p \<longleftrightarrow> owns F ph f u p" for u p
      unfolding own using e by auto
    then show ?thesis unfolding strings_ok_def strs e leaked_simps using old none by auto
  qed
  with funs res show ?thesis by (simp add: fs_inv_def)
qed

lemma inv_works:
  assumes inv: "fs_inv F evs ph (w, f)" and t: "t \<in> F" "ph t = Pending" and k: "task_work (taskmem w t) = Some (fs_function k)"
    and wk: "wk \<in> works P" "wk k t f = Inr f'" and w': "taskmem w' = taskmem w"
  shows "fs_inv F (evs @ [Worked i t (op_status (fs_ops f' t)) (op_result (fs_ops f' t))])
      (phase_after (Work i t) ph) (w', f')"
proof -
  have m: "member k (op_params (fs_ops f t))" using inv t k by (auto simp: fs_inv_def functions_ok_def)
  have old: "strings f p \<noteq> None \<longleftrightarrow> p \<in> leaked evs \<or> (\<exists>t. owns F ph f t p)"
    "owns F ph f u p \<Longrightarrow> p \<notin> leaked evs \<and> (\<forall>v. owns F ph f v p \<longrightarrow> v = u)" for u p
    using inv unfolding fs_inv_def strings_ok_def by auto
  have mine: "owns F ph f t p \<longleftrightarrow> owned_path (op_params (fs_ops f t)) = Some p" for p using t by (simp add: owns_def)
  have "strings f p \<noteq> None" if "owned_path (op_params (fs_ops f t)) = Some p" for p
    using old(1) [of p] mine that by auto
  then have "worked_on t f f'" using work_works [OF wk(1) m] wk(2) by auto
  then obtain st r where f': "f' = set_fs t (\<lambda>p. p\<lparr>op_status := st, op_result := r, op_params := released (op_params p)\<rparr>)
      (case owned_path (op_params (fs_ops f t)) of None \<Rightarrow> f | Some p \<Rightarrow> f\<lparr>strings := (strings f)(p := None)\<rparr>)"
    by (auto simp: worked_on_def)
  have ops: "fs_ops f' = (fs_ops f)(t := (fs_ops f t)\<lparr>op_status := st, op_result := r,
      op_params := released (op_params (fs_ops f t))\<rparr>)" "fs_calls f' = fs_calls f"
    unfolding f' by (simp_all split: option.split)
  have strs: "strings f' p \<noteq> None \<longleftrightarrow> strings f p \<noteq> None \<and> \<not> owns F ph f t p" for p
    unfolding f' mine by (auto split: option.splits)
  have own: "owns F (phase_after (Work i t) ph) f' u p \<longleftrightarrow> owns F ph f u p \<and> u \<noteq> t" for u p
    by (auto simp: owns_def ops)
  have seen: "seen u f' = seen u f" for u by (rule seen_cong) (simp add: ops)
  have "strings_ok F (evs @ [Worked i t (op_status (fs_ops f' t)) (op_result (fs_ops f' t))]) (phase_after (Work i t) ph) f'"
    unfolding strings_ok_def own strs leaked_simps using old by blast
  then show ?thesis using inv t w'
    by (auto simp: fs_inv_def functions_ok_def results_ok_def ops seen)
qed

lemma inv_reports:
  assumes inv: "fs_inv F evs ph (w, f)" and t: "t \<in> F" "ph t = Finished_work"
    and fin: "finish P t f = Inr f'" and w': "taskmem w' = taskmem w"
  shows "fs_inv F (evs @ [Pooled (Done c t)]) (phase_after (Done c t) ph) (w', f')"
proof -
  obtain g where "op_cb (fs_ops f t) = Some g" using inv t by (auto simp: fs_inv_def functions_ok_def)
  then have f': "f' = f\<lparr>fs_calls := fs_calls f @ [(t, g, op_status (fs_ops f t), op_result (fs_ops f t))]\<rparr>"
    using fin finish_calls by simp
  have "owns F (phase_after (Done c t) ph) f' = owns F ph f"
    using t by (auto simp: owns_def fun_eq_iff f')
  then show ?thesis using inv t w'
    by (auto simp: fs_inv_def functions_ok_def strings_ok_def results_ok_def f')
qed

end

section \<open>Runs\<close>

text \<open>A stretch of steps of the pool with the places of the specification.\<close>

definition in_spec :: "pool \<Rightarrow> pool_event list \<Rightarrow> pool \<Rightarrow> pool_spec \<Rightarrow> bool" where
  "in_spec w0 es w a \<longleftrightarrow> pool_run w0 es w \<and> spec_run es a \<and> pool_rep w a \<and> control w"

abbreviation phases :: "pool_spec \<Rightarrow> task \<Rightarrow> phase" where
  "phases a \<equiv> \<lambda>t. phase_of (place a t)"

lemma in_spec_step:
  assumes "in_spec w0 es w a" "pool_step w e w'" "\<And>c t. e = Accept c t \<Longrightarrow> phases a t = Resting"
  shows "\<exists>a'. in_spec w0 (es @ [e]) w' a' \<and> phases a' = phase_after e (phases a) \<and> phase_before e (phases a)"
proof -
  have a: "pool_run w0 es w" "spec_run es a" "pool_rep w a" "control w" using assms(1) by (auto simp: in_spec_def)
  obtain a' where a': "spec_step a e a'" "pool_rep w' a'"
    using pool_step_refines [OF assms(2) a(3,4)] assms(3) by (auto simp: Resting_iff)
  have "in_spec w0 (es @ [e]) w' a'"
    unfolding in_spec_def
    using pool_run_step [OF a(1) assms(2)] spec_run_step [OF a(2) a'(1)] a'(2) control_step [OF assms(2) a(4)] by simp
  then show ?thesis using spec_step_phase [OF a'(1)] a(3) by (auto simp: pool_rep_def)
qed

lemma pool_steps:
  "worker_step i w e w' \<Longrightarrow> pool_step w e w'" "loop_step c w e w' \<Longrightarrow> pool_step w e w'"
  "client_step c w e w' \<Longrightarrow> pool_step w e w'"
  unfolding pool_step_def by (blast intro: of_worker of_loop of_client)+

lemma fills:
  "lpc w c = L_client \<Longrightarrow> pool_step w Tau (set_task t (\<lambda>k. k\<lparr>task_work := f, task_done_cb := g\<rparr>) w)"
  by (rule pool_steps(3) [OF c_fill])

lemma fills_work: "lpc w c = L_client \<Longrightarrow> pool_step w Tau (set_task t (\<lambda>k. k\<lparr>task_work := f\<rparr>) w)"
  using fills [where w = w and c = c and t = t and f = f and g = "task_done_cb (taskmem w t)"] by simp

context file_platform
begin

lemma run_step:
  assumes "in_spec w0 (pool_events evs) (fst s) a" "fs_inv F evs (phases a) s" "fs_step P F s e (Inr s')"
    and "allowed (fold progress evs ({}, {})) e"
  shows "\<exists>a'. in_spec w0 (pool_events (evs @ [e])) (fst s') a' \<and> fs_inv F (evs @ [e]) (phases a') s'"
proof -
  have "spec_run (pool_events evs) a" using assms(1) by (simp add: in_spec_def)
  then have under: "t \<in> snd (fold progress evs ({}, {})) \<longleftrightarrow> phases a t \<noteq> Resting" for t
    by (simp add: fold_progress_under_way spec_run_under_way Resting_iff)
  have init: "fst (fold progress evs ({}, {})) = initialised evs" by (simp add: initialised_def)
  obtain I S where IS: "fold progress evs ({}, {}) = (I, S)" by (cases "fold progress evs ({}, {})")
  have acc: "phases a t = Resting" if "e = Pooled (Accept c t)" for c t using assms(4) that under [of t] IS by simp
  from assms(3) show ?thesis
  proof (cases rule: fs_step.cases)
    case (initialises t w d f c)
    have "t \<notin> S" using assms(4) initialises(2) IS by simp
    then have "phases a t = Resting" using under [of t] IS by simp
    moreover have "pool_step w Tau (fst (initialise P c t (w, f)))"
      unfolding init_clears fst_conv by (rule fills [OF initialises(5)])
    ultimately show ?thesis
      using in_spec_step [OF assms(1), of Tau] inv_initialises [OF assms(2) [unfolded initialises(1)], of t c] initialises
      by fastforce
  next
    case (requests t q f g w w1 f1 c e1 w2)
    have ok: "t \<in> I" "t \<notin> S" "g \<noteq> None" using assms(4) requests(2) IS by simp_all
    then have rest: "phases a t = Resting" "t \<in> initialised evs" using under [of t] IS init by simp_all
    have "pool_step w Tau w1" using request_task [of q t g w f] requests(6) fills_work [OF requests(7)] by simp
    then obtain a1 where a1: "in_spec w0 (pool_events evs @ [Tau]) w1 a1" "phases a1 = phases a"
      using in_spec_step [OF assms(1), of Tau w1] requests(1) by auto
    have "phases a1 t = Resting" using fun_cong [OF a1(2), of t] rest(1) by simp
    then have "\<exists>a'. in_spec w0 ((pool_events evs @ [Tau]) @ [e1]) w2 a' \<and> phases a' = phase_after e1 (phases a1) \<and>
        phase_before e1 (phases a1)"
      using requests(10) by (intro in_spec_step [OF a1(1) pool_steps(3) [OF requests(9)]]) auto
    moreover have "fs_inv F (evs @ [Requested t q g e1]) (phase_after e1 (phases a)) (w2, f1)"
      by (rule inv_requests [OF assms(2) [unfolded requests(1)] requests(4) rest(2,1) ok(3) requests(5,6,9,10)])
    ultimately show ?thesis using a1(2) requests(2,3) by auto
  next
    case (works t i w w' k wk f f')
    obtain a' where a': "in_spec w0 (pool_events evs @ [Work i t]) w' a'" "phases a' = phase_after (Work i t) (phases a)"
      "phases a t = Pending"
      using in_spec_step [OF assms(1), of "Work i t" w'] pool_steps(1) [OF works(5)] works(1) by auto
    moreover have "fs_inv F (evs @ [e]) (phase_after (Work i t) (phases a)) (w', f')"
      unfolding works(2)
      by (rule inv_works [OF assms(2) [unfolded works(1)] works(4) a'(3) works(6,7,8) work_keeps [OF works(5)]])
    ultimately show ?thesis using works(2,3) by auto
  next
    case (reports_done t c w w' f)
    then obtain f' where f': "finish P t f = Inr f'" "s' = (w', f')"
      by (cases "finish P t f") auto
    obtain a' where a': "in_spec w0 (pool_events evs @ [Done c t]) w' a'" "phases a' = phase_after (Done c t) (phases a)"
      "phases a t = Finished_work"
      using in_spec_step [OF assms(1), of "Done c t" w'] pool_steps(2) [OF reports_done(5)] reports_done(1) by auto
    moreover have "fs_inv F (evs @ [e]) (phase_after (Done c t) (phases a)) (w', f')"
      unfolding reports_done(2)
      by (rule inv_reports [OF assms(2) [unfolded reports_done(1)] reports_done(4) a'(3) f'(1) done_keeps [OF reports_done(5)]])
    ultimately show ?thesis using reports_done(2) f'(2) by auto
  next
    case (others w e1 w' f)
    have "\<exists>a'. in_spec w0 (pool_events evs @ [e1]) w' a' \<and> phases a' = phase_after e1 (phases a) \<and> phase_before e1 (phases a)"
      using assms(1) others acc by (intro in_spec_step [of w0 "pool_events evs" w a e1 w']) auto
    moreover have "fs_inv F (evs @ [Pooled e1]) (phase_after e1 (phases a)) (w', f)"
      by (rule inv_others [OF assms(2) [unfolded others(1)] others(5,6)])
    ultimately show ?thesis using others(2,3) by auto
  qed
qed

end

definition fs_start :: "fs_state \<Rightarrow> bool" where
  "fs_start s \<longleftrightarrow> pool_start (fst s) \<and> strings (snd s) = (\<lambda>_. None) \<and> fs_calls (snd s) = []"

context file_platform
begin

lemma run_inv:
  "fs_run P F s evs s' \<Longrightarrow> fs_start s \<Longrightarrow> keeps_contract ({}, {}) evs \<Longrightarrow>
   \<exists>a. in_spec (fst s) (pool_events evs) (fst s') a \<and> fs_inv F evs (phases a) s'"
proof (induction rule: fs_run.induct)
  case fs_run_start
  have "in_spec (fst s) [] (fst s) spec_start"
    using start_rep start_control fs_run_start
    by (auto simp: in_spec_def fs_start_def intro: pool_run_start spec_run_start)
  moreover have "fs_inv F [] (phases spec_start) s"
    using fs_run_start
    by (simp add: fs_inv_def functions_ok_def strings_ok_def results_ok_def fs_start_def spec_start_def
        initialised_def leaked_def owns_def seen_def List.map_filter_def calls_made_def)
  ultimately show ?case by auto
next
  case (fs_run_step evs s1 e s2)
  then obtain a where "in_spec (fst s) (pool_events evs) (fst s1) a" "fs_inv F evs (phases a) s1" by auto
  then show ?case using run_step fs_run_step by simp
qed

end

context file_platform
begin

lemma fault_diverged:
  assumes "fs_inv F evs ph s" "fs_step P F s e (Inl x)"
    and "\<And>i t w'. worker_step i (fst s) (Work i t) w' \<Longrightarrow> ph t = Pending"
    and "\<And>c t w'. loop_step c (fst s) (Done c t) w' \<Longrightarrow> ph t = Finished_work"
  shows "x = Diverged"
  using assms(2)
proof (cases rule: fs_step.cases)
  case (work_fails t i w w' k wk f)
  have "ph t = Pending" using assms(3) work_fails(1,4) by simp
  then have "member k (op_params (fs_ops f t))"
    and "\<And>p. owned_path (op_params (fs_ops f t)) = Some p \<Longrightarrow> strings f p \<noteq> None"
    using assms(1) work_fails(1,3,5) by (auto simp: fs_inv_def functions_ok_def strings_ok_def owns_def)
  then show ?thesis using work_works [OF work_fails(6)] work_fails(7) by force
next
  case (reports_done t c w w' f)
  have "ph t = Finished_work" using assms(4) reports_done(1,5) by simp
  then obtain g where "op_cb (fs_ops f t) = Some g"
    using assms(1) reports_done(1,4) by (auto simp: fs_inv_def functions_ok_def)
  then show ?thesis using reports_done(3) finish_calls by simp
qed

end

section \<open>Counting\<close>

text \<open>How often the threadpool has accepted a task, and the tasks whose work is still to come.\<close>

definition submissions :: "task \<Rightarrow> pool_event list \<Rightarrow> nat" where
  "submissions t es = length (filter (\<lambda>e. \<exists>c. e = Accept c t) es)"

fun await :: "pool_event \<Rightarrow> task set \<Rightarrow> task set" where
  "await (Accept c t) S = insert t S"
| "await (Work i t) S = S - {t}"
| "await _ S = S"

abbreviation awaiting :: "pool_event list \<Rightarrow> task set" where
  "awaiting es \<equiv> fold await es {}"

lemma spec_awaiting: "spec_run es a \<Longrightarrow> awaiting es = {t. phases a t = Pending}"
proof (induction rule: spec_run.induct)
  case spec_run_start
  then show ?case by (simp add: spec_start_def)
next
  case (spec_run_step es a e a')
  have p: "phases a' = phase_after e (phases a)" "phase_before e (phases a)"
    using spec_step_phase [OF spec_run_step(2) spec_run_ok [OF spec_run_step(1)]] by auto
  have "awaiting (es @ [e]) = await e {t. phases a t = Pending}" using spec_run_step(3) by simp
  also have "\<dots> = {t. phase_after e (phases a) t = Pending}" using p(2) by (cases e) auto
  finally show ?case by (simp add: p(1) [symmetric])
qed

lemma spec_submissions:
  "spec_run es a \<Longrightarrow> submissions t es = calls_made t es + of_bool (phases a t \<noteq> Resting)"
proof (induction rule: spec_run.induct)
  case spec_run_start
  then show ?case by (simp add: spec_start_def submissions_def calls_made_def)
next
  case (spec_run_step es a e a')
  have p: "phases a' = phase_after e (phases a)" "phase_before e (phases a)"
    using spec_step_phase [OF spec_run_step(2) spec_run_ok [OF spec_run_step(1)]] by auto
  have "submissions t (es @ [e]) = calls_made t (es @ [e]) + of_bool (phase_after e (phases a) t \<noteq> Resting)"
    using spec_run_step(3) p(2) by (cases e) (auto simp: submissions_def calls_made_def)
  then show ?case by (simp add: fun_cong [OF p(1)])
qed

end
