(* ===== verification/File_Play.thy ===== *)
theory File_Play
  imports File_Correct Threadpool_Play
begin

text \<open>
  Runs of the composed system under a given schedule, as in \<open>Threadpool_Play\<close>: \<open>fs_play\<close> executes a list of moves with
  the work functions of one worker, and every play is a run of the step relation.
\<close>

section \<open>One move\<close>

datatype fs_move =
    Moves move
  | Inits nat task
  | Asks nat task fs_request "callback option"

definition work_named :: "callback option \<Rightarrow> fs_work option" where
  "work_named n = List.find (\<lambda>k. n = Some (fs_function k)) [Open_work, Read_work, Write_work, Stat_work, Close_work]"

fun moved :: "fs_functions \<Rightarrow> fs_worker \<Rightarrow> move \<Rightarrow> pool_event \<Rightarrow> pool \<Rightarrow> fs_state \<Rightarrow> (fs_event \<times> fs_state) option" where
  "moved C wk (Worker_moves i) (Work j t) w' (w, f) =
     (case work_named (task_work (taskmem w t)) of
        None \<Rightarrow> None
      | Some k \<Rightarrow>
          (case wk k t f of
             Inl x \<Rightarrow> None
           | Inr f' \<Rightarrow> Some (Worked j t (op_status (fs_ops f' t)) (op_result (fs_ops f' t)), (w', f'))))"
| "moved C wk (Loop_moves c) (Done d t) w' (w, f) =
     (if task_done_cb (taskmem w t) \<noteq> Some fs_work_done then None
      else (case finish C t f of Inl x \<Rightarrow> None | Inr f' \<Rightarrow> Some (Pooled (Done d t), (w', f'))))"
| "moved C wk m e w' s = None"

fun fs_one_move :: "fs_functions \<Rightarrow> fs_worker \<Rightarrow> task list \<Rightarrow> fs_move \<Rightarrow> fs_state \<Rightarrow> (fs_event \<times> fs_state) option" where
  "fs_one_move C wk ts (Moves m) (w, f) =
     (case one_move m w of
        None \<Rightarrow> None
      | Some (e, w') \<Rightarrow>
          if list_all (\<lambda>t. t \<notin> about e \<and> taskmem w' t = taskmem w t) ts then Some (Pooled e, (w', f))
          else if list_ex (\<lambda>t. t \<in> about e) ts then moved C wk m e w' (w, f) else None)"
| "fs_one_move C wk ts (Inits c t) (w, f) =
     (if t \<in> set ts \<and> lpc w c = L_client then Some (Initialised c t, initialise C c t (w, f)) else None)"
| "fs_one_move C wk ts (Asks c t q g) (w, f) =
     (if t \<in> set ts \<and> (case copy_of q of None \<Rightarrow> True | Some p \<Rightarrow> strings f p = None) \<and> lpc w c = L_client \<and>
         op_ctx (fs_ops f t) = c
      then
        (case request C q t g (w, f) of
           (w1, f1) \<Rightarrow>
             (case move_client c t w1 of
                None \<Rightarrow> None
              | Some (e, w2) \<Rightarrow> Some (Requested t q g e, (w2, f1))))
      else None)"

fun fs_play ::
  "fs_functions \<Rightarrow> fs_worker \<Rightarrow> task list \<Rightarrow> fs_move list \<Rightarrow> fs_state \<Rightarrow> (fs_event list \<times> fs_state) option" where
  "fs_play C wk ts [] s = Some ([], s)"
| "fs_play C wk ts (m # ms) s =
     (case fs_one_move C wk ts m s of
        None \<Rightarrow> None
      | Some (e, s') \<Rightarrow> map_option (\<lambda>(es, v). (e # es, v)) (fs_play C wk ts ms s'))"

section \<open>A play is a run\<close>

abbreviation functions_of :: "fs_platform \<Rightarrow> fs_functions" where
  "functions_of P \<equiv> fs_functions.truncate P"

lemma truncated [simp]:
  "initialise (functions_of P) = initialise P" "request (functions_of P) = request P"
  "finish (functions_of P) = finish P"
  by (simp_all add: fs_functions.truncate_def)

lemma work_named: "work_named n = Some k \<Longrightarrow> n = Some (fs_function k)"
  by (auto simp: work_named_def split: if_splits)

lemma moved_work:
  assumes "moved (functions_of P) wk (Worker_moves i) (Work j t) w' (w, f) = Some (ev, s')" "worker_step i w (Work j t) w'"
    and "wk \<in> works P" "t \<in> F"
  shows "fs_step P F (w, f) ev (Inr s')"
proof -
  obtain k f' where k: "work_named (task_work (taskmem w t)) = Some k" "wk k t f = Inr f'"
    "ev = Worked j t (op_status (fs_ops f' t)) (op_result (fs_ops f' t))" "s' = (w', f')"
    using assms(1) by (auto split: option.splits sum.splits)
  have "worker_step j w (Work j t) w'" using assms(2) by (auto elim: work_cases)
  then show ?thesis unfolding k(3,4) using works [OF assms(4) _ work_named [OF k(1)] assms(3) k(2)] by simp
qed

lemma moved_done:
  assumes "moved (functions_of P) wk (Loop_moves c) (Done d t) w' (w, f) = Some (ev, s')" "loop_step c w (Done d t) w'" "t \<in> F"
  shows "fs_step P F (w, f) ev (Inr s')"
proof -
  obtain f' where f': "finish P t f = Inr f'" "ev = Pooled (Done d t)" "s' = (w', f')"
      "task_done_cb (taskmem w t) = Some fs_work_done"
    using assms(1) by (auto split: sum.splits if_splits)
  have "loop_step d w (Done d t) w'" using assms(2) by (auto elim: done_cases)
  then show ?thesis using reports_done [of t F d w w' P f] f' assms(3) by simp
qed

lemma moved_step:
  assumes "moved (functions_of P) wk m e w' (w, f) = Some (ev, s')" "one_move m w = Some (e, w')" "wk \<in> works P" "t \<in> F" "t \<in> about e"
  shows "fs_step P F (w, f) ev (Inr s')"
proof -
  consider i j where "m = Worker_moves i" "e = Work j t" | c d where "m = Loop_moves c" "e = Done d t"
    using assms(1,5) by (cases m; cases e) auto
  then show ?thesis
  proof cases
    case 1
    have "worker_step i w (Work j t) w'" using assms(2) 1 by (auto intro: move_worker_step)
    then show ?thesis by (rule moved_work [OF assms(1) [unfolded 1] _ assms(3,4)])
  next
    case 2
    have "loop_step c w (Done d t) w'" using assms(2) 2 by (auto intro: move_loop_step)
    then show ?thesis by (rule moved_done [OF assms(1) [unfolded 2] _ assms(4)])
  qed
qed

lemma fs_one_move_step:
  assumes "fs_one_move (functions_of P) wk ts m s = Some (e, s')" "wk \<in> works P"
  shows "fs_step P (set ts) s e (Inr s')"
proof (cases s)
  case [simp]: (Pair w f)
  show ?thesis
  proof (cases m)
    case (Moves x)
    then obtain e1 w' where m: "one_move x w = Some (e1, w')" using assms(1) by (auto split: option.splits)
    show ?thesis
    proof (cases "list_all (\<lambda>t. t \<notin> about e1 \<and> taskmem w' t = taskmem w t) ts")
      case True
      then have "fs_step P (set ts) (w, f) (Pooled e1) (Inr (w', f))"
        by (intro others one_move_step [OF m]) (auto simp: list_all_iff)
      with True show ?thesis using assms(1) Moves m by simp
    next
      case False
      then have "moved (functions_of P) wk x e1 w' (w, f) = Some (e, s')" "\<exists>t \<in> set ts. t \<in> about e1"
        using assms(1) Moves m by (auto simp: list_ex_iff split: if_splits)
      then obtain t where t: "t \<in> set ts" "t \<in> about e1" "moved (functions_of P) wk x e1 w' (w, f) = Some (e, s')" by auto
      show ?thesis unfolding Pair by (rule moved_step [OF t(3) m assms(2) t(1,2)])
    qed
  next
    case (Inits c t)
    then show ?thesis using assms(1) initialises by (auto split: if_splits)
  next
    case (Asks c t q g)
    obtain w1 f1 where q: "request P q t g (w, f) = (w1, f1)" by (cases "request P q t g (w, f)")
    with Asks obtain e1 w2 where c: "move_client c t w1 = Some (e1, w2)" "e = Requested t q g e1" "s' = (w2, f1)"
      using assms(1) by (auto split: if_splits option.splits)
    then have "e1 = Accept c t \<or> e1 = Refused c t" by (auto simp: move_client_def split: if_splits)
    then show ?thesis unfolding c(2,3) Pair using assms(1) Asks q move_client_step [OF c(1)]
      by (intro requests [where w = w and f = f and ?w1.0 = w1 and c = c])
        (auto simp: fresh_copy_def split: if_splits option.splits)
  qed
qed

lemma fs_run_append: "fs_run P F s1 fs s2 \<Longrightarrow> fs_run P F s es s1 \<Longrightarrow> fs_run P F s (es @ fs) s2"
proof (induction rule: fs_run.induct)
  case (fs_run_step evs s2 e s3)
  then have "fs_run P F s ((es @ evs) @ [e]) s3" by (intro fs_run.fs_run_step)
  then show ?case by simp
qed simp

lemma fs_play_run: "fs_play (functions_of P) wk ts ms s = Some (es, s') \<Longrightarrow> wk \<in> works P \<Longrightarrow> fs_run P (set ts) s es s'"
proof (induction ms arbitrary: s es)
  case Nil
  then show ?case by (simp add: fs_run_start)
next
  case (Cons m ms)
  then obtain e s1 fs where m: "fs_one_move (functions_of P) wk ts m s = Some (e, s1)" "fs_play (functions_of P) wk ts ms s1 = Some (fs, s')" "es = e # fs"
    by (auto split: option.splits)
  have "fs_run P (set ts) s ([] @ [e]) s1" by (rule fs_run_step [OF fs_run_start fs_one_move_step [OF m(1) Cons.prems(2)]])
  with Cons.IH [OF m(2) Cons.prems(2)] show ?case unfolding m(3) using fs_run_append by fastforce
qed

end
