(* ===== verification/File_Properties.thy ===== *)
theory File_Properties
  imports File_Play Threadpool_Properties
begin

text \<open>
  The properties of the file operations: C35 to C38. The first three hold on both platforms and for every
  interleaving of clients, workers and loops.
\<close>

section \<open>A state to start in, and a run\<close>

definition sample_files :: fs_mem where
  "sample_files = \<lparr>fs_ops = (\<lambda>_. \<lparr>op_ctx = 0, op_type = Pd_open_op, op_cb = None, op_status = 0, op_params = No_params,
     op_result = No_result\<rparr>), strings = (\<lambda>_. None), fs_calls = []\<rparr>"

text \<open>A kernel that is interrupted once and then opens the file.\<close>

definition open_kernel :: kernel where
  "open_kernel h c = (if h = [] then - EINTR else 5)"

lemmas [code] = file_call.simps

definition unix_functions :: fs_functions where
  "unix_functions = \<lparr>initialise = pd_fs_init, request = unix_request, finish = pd_fs_work_done\<rparr>"

definition fs_events :: "fs_move list \<Rightarrow> fs_event list" where
  "fs_events ms =
     (case fs_play unix_functions (unix_work open_kernel (\<lambda>_. 0)) [7] ms (sample_pool, sample_files) of
        Some (es, s) \<Rightarrow> es | None \<Rightarrow> [])"

definition fs_after :: "fs_move list \<Rightarrow> fs_state" where
  "fs_after ms =
     (case fs_play unix_functions (unix_work open_kernel (\<lambda>_. 0)) [7] ms (sample_pool, sample_files) of
        Some (es, s) \<Rightarrow> s | None \<Rightarrow> (sample_pool, sample_files))"

lemma fs_sample_run: "fs_run unix_fs {7} (sample_pool, sample_files) (fs_events ms) (fs_after ms)"
proof -
  have "functions_of unix_fs = unix_functions" "unix_work open_kernel (\<lambda>_. 0) \<in> works unix_fs"
    by (auto simp: unix_fs_def unix_functions_def fs_functions.truncate_def)
  then show ?thesis
    using fs_play_run [of unix_fs "unix_work open_kernel (\<lambda>_. 0)" "[7]" ms "(sample_pool, sample_files)"]
    by (auto simp: fs_events_def fs_after_def fs_run_start split: option.split)
qed

lemma fs_sample_start: "fs_start (sample_pool, sample_files)"
  by (simp add: fs_start_def pool_sample_start sample_files_def)

text \<open>
  Before the pool is started a request is refused; then it is made again with another copy of the path, a worker
  opens the file, and the loop calls the callback.
\<close>

definition opens :: "fs_move list" where
  "opens = [Inits 0 7, Asks 0 7 (Req_open (Some 2) ''f'' 0 0) (Some 9), Moves (Starts 1),
     Asks 0 7 (Req_open (Some 3) ''f'' 0 0) (Some 9)] @ replicate 4 (Moves (Loop_moves 0)) @
     replicate 7 (Moves (Worker_moves 0)) @ replicate 7 (Moves (Loop_moves 0))"

lemma opens_events:
  "fs_events opens = [Initialised 0 7, Requested 7 (Req_open (Some 2) ''f'' 0 0) (Some 9) (Refused 0 7), Pooled Tau,
     Requested 7 (Req_open (Some 3) ''f'' 0 0) (Some 9) (Accept 0 7), Pooled Tau, Pooled (Enqueue 0 7), Pooled Tau, Pooled Tau,
     Pooled Tau, Pooled (Take 0 7), Pooled Tau, Worked 0 7 0 (Fd 5), Pooled Tau, Pooled (Finish 0 7), Pooled Tau,
     Pooled Tau, Pooled Tau, Pooled (Collect 0 7), Pooled Tau, Pooled Tau, Pooled (Done 0 7), Pooled Tau]"
  by code_simp

lemma opens_keeps: "keeps_contract ({}, {}) (fs_events opens)"
  unfolding opens_events by simp

section \<open>Any platform\<close>

text \<open>
  C35. The callback of a file operation is called once for each submission that was accepted, unless the operation is
  still under way; and it finds the status and result of the work done for that submission, in the order in which
  the work was done. A submission that was refused is never reported.
\<close>

theorem file_callbacks_exact:
  assumes "fs_run P F s evs s'" "fs_start s" "keeps_contract ({}, {}) evs" "P = unix_fs \<or> P = win_fs cs" "t \<in> F"
  shows "(\<exists>rest. outcomes t evs = seen t (snd s') @ rest \<and> length rest \<le> 1) \<and>
    submissions t (pool_events evs) = length (seen t (snd s')) + of_bool (t \<in> fold under_way (pool_events evs) {})"
proof -
  obtain a where a: "in_spec (fst s) (pool_events evs) (fst s') a" "fs_inv F evs (phases a) s'"
    using assms(4) unix.run_inv [OF _ assms(2,3)] win.run_inv [OF _ assms(2,3)] assms(1) by blast
  have "t \<in> fold under_way (pool_events evs) {} \<longleftrightarrow> phases a t \<noteq> Resting"
    using a(1) spec_run_under_way [of "pool_events evs" a] by (simp add: in_spec_def Resting_iff)
  then show ?thesis
    using a spec_submissions [of "pool_events evs" a t] assms(5) by (auto simp: in_spec_def fs_inv_def results_ok_def)
qed

theorem file_callbacks_exact_witness:
  "(\<exists>rest. outcomes 7 (fs_events opens) = seen 7 (snd (fs_after opens)) @ rest \<and> length rest \<le> 1) \<and>
    submissions 7 (pool_events (fs_events opens)) = length (seen 7 (snd (fs_after opens))) + 0"
proof -
  have "7 \<notin> fold under_way (pool_events (fs_events opens)) {}" unfolding opens_events by simp
  then show ?thesis
    using file_callbacks_exact [OF fs_sample_run fs_sample_start opens_keeps, of undefined 7] by simp
qed

text \<open>
  C36. The operations are well typed: a worker that has taken the task of a file operation finds a work function, and
  the union of parameters holds the member that function reads; a loop that reports it finds \<open>pd__fs_work_done\<close> and a
  callback. So no step goes wrong - frees a path twice, reads one that was freed, a wrong member of the union, or
  calls \<open>NULL\<close> - but for a system call that is interrupted over and over.
\<close>

theorem file_operations_typed:
  assumes "fs_run P F s evs s'" "fs_start s" "keeps_contract ({}, {}) evs" "P = unix_fs \<or> P = win_fs cs" "t \<in> F"
  shows "(worker_step i (fst s') (Work i t) w2 \<longrightarrow> (\<exists>k. task_work (taskmem (fst s') t) = Some (fs_function k) \<and>
      member k (op_params (fs_ops (snd s') t)))) \<and>
    (loop_step c (fst s') (Done c t) w2 \<longrightarrow> task_done_cb (taskmem (fst s') t) = Some fs_work_done \<and>
      op_cb (fs_ops (snd s') t) \<noteq> None) \<and>
    (fs_step P F s' e (Inl x) \<longrightarrow> x = Diverged)"
proof -
  obtain a where a: "in_spec (fst s) (pool_events evs) (fst s') a" "fs_inv F evs (phases a) s'"
    using assms(4) unix.run_inv [OF _ assms(2,3)] win.run_inv [OF _ assms(2,3)] assms(1) by blast
  have P: "file_platform P" using assms(4) unix.file_platform_axioms win.file_platform_axioms [of cs] by blast
  have pend: "phases a u = Pending" if "worker_step j (fst s') (Work j u) w3" for j u w3
    using in_spec_step [OF a(1) pool_steps(1) [OF that]] by auto
  have fin: "phases a u = Finished_work" if "loop_step d (fst s') (Done d u) w3" for d u w3
    using in_spec_step [OF a(1) pool_steps(2) [OF that]] by auto
  have "\<exists>k. task_work (taskmem (fst s') u) = Some (fs_function k) \<and> member k (op_params (fs_ops (snd s') u))"
    if "u \<in> F" "phases a u = Pending" for u
    using a(2) that by (auto simp: fs_inv_def functions_ok_def)
  moreover have "task_done_cb (taskmem (fst s') u) = Some fs_work_done \<and> op_cb (fs_ops (snd s') u) \<noteq> None"
    if "u \<in> F" "phases a u = Finished_work" for u
    using a(2) that by (auto simp: fs_inv_def functions_ok_def)
  moreover have "x = Diverged" if "fs_step P F s' e (Inl x)"
    using file_platform.fault_diverged [OF P a(2) that pend fin] .
  ultimately show ?thesis using assms(5) pend fin by blast
qed

text \<open>Just before the worker opens the file.\<close>

abbreviation "to_open \<equiv> take 11 opens"

lemma to_open_keeps: "keeps_contract ({}, {}) (fs_events to_open)"
proof -
  have "fs_events to_open = take 11 (fs_events opens)" by code_simp
  then show ?thesis unfolding opens_events by simp
qed

lemma to_open_next: "\<exists>w. worker_step 0 (fst (fs_after to_open)) (Work 0 7) w"
proof -
  have "(case move_worker 0 (fst (fs_after to_open)) of Some (e, w) \<Rightarrow> e = Work 0 7 | None \<Rightarrow> False)" by code_simp
  then show ?thesis by (auto split: option.splits intro: move_worker_step)
qed

theorem file_operations_typed_witness:
  "\<exists>k. task_work (taskmem (fst (fs_after to_open)) 7) = Some (fs_function k) \<and>
     member k (op_params (fs_ops (snd (fs_after to_open)) 7))"
proof -
  obtain w where "worker_step 0 (fst (fs_after to_open)) (Work 0 7) w" using to_open_next ..
  then show ?thesis
    using file_operations_typed [OF fs_sample_run fs_sample_start to_open_keeps, of undefined 7 0 w 0 undefined undefined]
    by blast
qed

text \<open>
  C37. Memory: at any time the copies of paths that are allocated are those of the operations accepted and not yet
  worked on, and those of the requests the threadpool refused - these are never freed.
\<close>

theorem path_copies_exact:
  assumes "fs_run P F s evs s'" "fs_start s" "keeps_contract ({}, {}) evs" "P = unix_fs \<or> P = win_fs cs"
  shows "{p. strings (snd s') p \<noteq> None} = leaked evs \<union>
    {p. \<exists>t. t \<in> F \<and> t \<in> awaiting (pool_events evs) \<and> owned_path (op_params (fs_ops (snd s') t)) = Some p}"
proof -
  obtain a where a: "in_spec (fst s) (pool_events evs) (fst s') a" "fs_inv F evs (phases a) s'"
    using assms(4) unix.run_inv [OF _ assms(2,3)] win.run_inv [OF _ assms(2,3)] assms(1) by blast
  have "awaiting (pool_events evs) = {t. phases a t = Pending}"
    using a(1) spec_awaiting by (simp add: in_spec_def)
  then show ?thesis using a(2) by (auto simp: fs_inv_def strings_ok_def owns_def)
qed

text \<open>Before the work on the second request, its copy 3 is allocated, and copy 2 of the refused one; after it, copy 2.\<close>

theorem path_copies_exact_witness:
  "leaked (fs_events opens) = {2} \<and> {p. strings (snd (fs_after to_open)) p \<noteq> None} = leaked (fs_events to_open) \<union>
      {p. \<exists>t. t \<in> {7} \<and> t \<in> awaiting (pool_events (fs_events to_open)) \<and>
        owned_path (op_params (fs_ops (snd (fs_after to_open)) t)) = Some p} \<and>
    strings (snd (fs_after to_open)) 3 = Some ''f'' \<and> {p. strings (snd (fs_after opens)) p \<noteq> None} = {2}"
proof -
  have l: "leaked (fs_events opens) = {2}" unfolding opens_events by (auto simp: leaked_def)
  have "awaiting (pool_events (fs_events opens)) = {}" unfolding opens_events by simp
  then have "{p. strings (snd (fs_after opens)) p \<noteq> None} = {2}"
    using path_copies_exact [OF fs_sample_run fs_sample_start opens_keeps, of undefined] l by simp
  moreover have "strings (snd (fs_after to_open)) 3 = Some ''f''" by code_simp
  ultimately show ?thesis
    using path_copies_exact [OF fs_sample_run fs_sample_start to_open_keeps, of undefined] l by blast
qed

section \<open>Windows\<close>

text \<open>
  What is documented of \<^verbatim>\<open>CreateFile\<close> and \<^verbatim>\<open>ReadFile\<close>: a handle has the rights it was opened with, and cannot be read
  without \<^verbatim>\<open>GENERIC_READ\<close>. \<open>rights\<close> are those of each handle.
\<close>

definition rights_documented :: "win_files \<Rightarrow> (int \<Rightarrow> uint32) \<Rightarrow> bool" where
  "rights_documented api rights \<longleftrightarrow>
     (\<forall>path access creation attributes.
        let h = returned (api (Create_file path access creation attributes)) in h \<noteq> -1 \<longrightarrow> rights h = access) \<and>
     (\<forall>h n. rights h AND GENERIC_READ = 0 \<longrightarrow> returned (api (Read_file h n)) = 0)"

lemma win_access_read_only: "fl AND (O_WRONLY OR O_RDWR) = O_RDONLY \<Longrightarrow> win_access fl = 0"
  by (auto simp: win_access_def O_RDONLY_def or_eq_0_iff bit.conj_disj_distrib)

text \<open>
  C38. On Windows a file that was opened with \<^verbatim>\<open>PD_FS_O_RDONLY\<close> (any other flags but those for writing included) cannot be
  read: the flag is 0, so the test for it never holds, the access rights are 0, and that is what \<^verbatim>\<open>CreateFile\<close> is asked
  for. If opening succeeds, every read of the handle fails.
\<close>

theorem read_only_unreadable:
  assumes "rights_documented api rights"
    and "win_open_work cs api t f = Inr f1" "op_params (fs_ops f t) = Open_params path oflag mode"
    and "word_of_int oflag AND (O_WRONLY OR O_RDWR) = O_RDONLY"
    and "op_result (fs_ops f1 t) = Fd h" "h \<noteq> -1"
    and "op_params (fs_ops f2 u) = Read_params h buf n" "win_read_work cs api u f2 = Inr f3"
  shows "win_access (word_of_int oflag) = 0 \<and>
    (\<exists>s. path_at path f = Inr s \<and>
      h = returned (api (Create_file s 0 (win_creation (word_of_int oflag)) (win_attributes (word_of_int oflag))))) \<and>
    op_result (fs_ops f3 u) = Size (-1) \<and> op_status (fs_ops f3 u) = win_errno cs (api (Read_file h (ucast n)))"
proof -
  let ?fl = "word_of_int oflag"
  have a: "win_access ?fl = 0" using assms(4) by (rule win_access_read_only)
  obtain s where s: "path_at path f = Inr s"
    using assms(2,3) by (auto simp: win_open_work_def bind_res_eq_Inr)
  with assms(2,3,5) have h: "h = returned (api (Create_file s 0 (win_creation ?fl) (win_attributes ?fl)))"
    by (auto simp: a win_open_work_def bind_res_eq_Inr Let_def free_def split: option.splits if_splits)
  then have "rights h = 0" using assms(1,6) unfolding rights_documented_def Let_def by blast
  then have "returned (api (Read_file h (ucast n))) = 0" using assms(1) by (simp add: rights_documented_def)
  then show ?thesis using a s h assms(7,8) by (auto simp: win_read_work_def Let_def)
qed

text \<open>A system whose handles name their rights; error 5 is \<^verbatim>\<open>ERROR_ACCESS_DENIED\<close>.\<close>

definition guarded_files :: win_files where
  "guarded_files c =
     (case c of
        Create_file path access creation attributes \<Rightarrow>
          \<lparr>returned = uint access + 1, transferred = 0, size_high = 0, size_low = 0, last_error = 0\<rparr>
      | Read_file h n \<Rightarrow>
          \<lparr>returned = (if (word_of_int (h - 1) :: uint32) AND GENERIC_READ = 0 then 0 else 1), transferred = 1,
            size_high = 0, size_low = 0, last_error = 5\<rparr>
      | _ \<Rightarrow> \<lparr>returned = 0, transferred = 0, size_high = 0, size_low = 0, last_error = 5\<rparr>)"

definition denied_codes :: win_codes where
  "denied_codes = ([''EACCES'' \<mapsto> 13], \<lambda>s. if s = ''ERROR_ACCESS_DENIED'' then 5 else 0)"

definition to_read :: "pd_fs_params \<Rightarrow> fs_mem \<Rightarrow> fs_mem" where
  "to_read ps = set_fs 7 (\<lambda>p. p\<lparr>op_params := ps\<rparr>)"

definition readonly_file :: fs_mem where
  "readonly_file = to_read (Open_params (Some 3) 0 0) (strdup (Some 3) ''f'' sample_files)"

theorem read_only_unreadable_witness:
  "\<exists>f1 f3. win_open_work denied_codes guarded_files 7 readonly_file = Inr f1 \<and> op_status (fs_ops f1 7) = 0 \<and>
     win_read_work denied_codes guarded_files 7 (to_read (Read_params 1 0 512) f1) = Inr f3 \<and>
     op_result (fs_ops f3 7) = Size (-1) \<and> op_status (fs_ops f3 7) = -13"
proof -
  have doc: "rights_documented guarded_files (\<lambda>h. word_of_int (h - 1))"
    by (simp add: rights_documented_def guarded_files_def)
  obtain f1 where f1: "win_open_work denied_codes guarded_files 7 readonly_file = Inr f1"
    "op_status (fs_ops f1 7) = 0" "op_result (fs_ops f1 7) = Fd 1"
    by (simp add: win_open_work_def readonly_file_def to_read_def strdup_def path_at_def free_def guarded_files_def
        win_access_def open_flags Let_def)
  obtain f3 where f3: "win_read_work denied_codes guarded_files 7 (to_read (Read_params 1 0 512) f1) = Inr f3"
    by (simp add: win_read_work_def to_read_def Let_def guarded_files_def)
  have err: "win_errno denied_codes (guarded_files (Read_file 1 512)) = -13" by code_simp
  have "op_result (fs_ops f3 7) = Size (-1) \<and>
      op_status (fs_ops f3 7) = win_errno denied_codes (guarded_files (Read_file 1 (ucast (512 :: size_t))))"
    using read_only_unreadable [OF doc f1(1) _ _ f1(3) _ _ f3, of "Some 3" 0 0 0]
    by (simp add: readonly_file_def to_read_def open_flags)
  then show ?thesis using f1 f3 err by simp
qed

end
