(* ===== verification/Sample_Files.thy ===== *)
theory Sample_Files
  imports File_Properties
begin

text \<open>
  The sample \<^verbatim>\<open>samples/fs.c\<close> as a client of the file operations: it opens, reads and closes one file, and opens, writes,
  stats and closes another, each with one operation that is used again in its callbacks and freed at the end. A callback
  is the list of what it does with the library and with memory, computed from the operation it is called with. The
  program runs in loop 0 of the composed system of \<open>File_Runs\<close>, on either platform, with the threads of the pool under
  every interleaving, from the return of \<open>pd_threadpool_init\<close> to the return of \<open>pd_io_run\<close>. Every \<^verbatim>\<open>malloc\<close> in between
  may fail. What is printed is not modelled.
\<close>

section \<open>The callbacks\<close>

text \<open>Their numbers among all functions.\<close>

definition cb_on_close :: callback where "cb_on_close = 1"
definition cb_on_read :: callback where "cb_on_read = 2"
definition cb_on_open :: callback where "cb_on_open = 3"
definition cb_on_stat :: callback where "cb_on_stat = 4"
definition cb_on_write :: callback where "cb_on_write = 5"
definition cb_start_writing :: callback where "cb_start_writing = 6"

lemmas callback_numbers =
  cb_on_close_def cb_on_read_def cb_on_open_def cb_on_stat_def cb_on_write_def cb_start_writing_def

text \<open>
  What the program does. The address \<^verbatim>\<open>malloc\<close> gives is an argument of its command, with 0 for the \<open>NULL\<close> of a buffer;
  a request is a function of the address its copy of a path gets.
\<close>

datatype fs_command =
    Malloc_op task
  | Malloc_buf nat
  | Free_op task
  | Free_buf nat
  | Init_op task
  | Submit_op task "nat option \<Rightarrow> fs_request" callback

definition on_close_cb :: "task \<Rightarrow> fs_command list" where
  "on_close_cb t = [Free_op t]"

definition on_read_cb :: "task \<Rightarrow> pd_fs \<Rightarrow> fs_command list res" where
  "on_read_cb t p =
     (case op_params p of
        Read_params h buf n \<Rightarrow>
          Inr (if op_status p < 0 then [Free_buf buf, Free_op t]
               else [Init_op t, Submit_op t (\<lambda>_. Req_close h) cb_on_close, Free_buf buf])
      | _ \<Rightarrow> Inl Bad_memory)"

text \<open>\<open>b\<close>: the buffer that \<^verbatim>\<open>malloc\<close> will give, 0 if it fails; the request is submitted in either case.\<close>

definition on_open_cb :: "nat \<Rightarrow> task \<Rightarrow> pd_fs \<Rightarrow> fs_command list res" where
  "on_open_cb b t p =
     (if op_status p < 0 then Inr [Free_op t]
      else
        (case op_result p of
           Fd h \<Rightarrow> Inr [Init_op t, Malloc_buf b, Submit_op t (\<lambda>_. Req_read h b (16 * 1024)) cb_on_read]
         | _ \<Rightarrow> Inl Bad_memory))"

definition on_stat_cb :: "task \<Rightarrow> pd_fs \<Rightarrow> fs_command list res" where
  "on_stat_cb t p =
     (case op_params p of
        Stat_params h \<Rightarrow> Inr [Submit_op t (\<lambda>_. Req_close h) cb_on_close]
      | _ \<Rightarrow> Inl Bad_memory)"

definition on_write_cb :: "task \<Rightarrow> pd_fs \<Rightarrow> fs_command list res" where
  "on_write_cb t p =
     (if op_status p < 0 then Inr [Free_op t]
      else
        (case op_params p of
           Write_params h buf n \<Rightarrow> Inr [Init_op t, Submit_op t (\<lambda>_. Req_stat h) cb_on_stat]
         | _ \<Rightarrow> Inl Bad_memory))"

definition hello :: "byte list" where
  "hello = [0x48, 0x65, 0x6C, 0x6C, 0x6F, 0x20, 0x57, 0x6F, 0x72, 0x6C, 0x64]"

definition start_writing_cb :: "task \<Rightarrow> pd_fs \<Rightarrow> fs_command list res" where
  "start_writing_cb t p =
     (if op_status p < 0 then Inr [Free_op t]
      else
        (case op_result p of
           Fd h \<Rightarrow> Inr [Init_op t, Submit_op t (\<lambda>_. Req_write h hello 11) cb_on_write]
         | _ \<Rightarrow> Inl Bad_memory))"

definition sample_callback :: "nat \<Rightarrow> callback \<Rightarrow> task \<Rightarrow> pd_fs \<Rightarrow> fs_command list res" where
  "sample_callback b g t p =
     (if g = cb_on_close then Inr (on_close_cb t)
      else if g = cb_on_read then on_read_cb t p
      else if g = cb_on_open then on_open_cb b t p
      else if g = cb_on_stat then on_stat_cb t p
      else if g = cb_on_write then on_write_cb t p
      else if g = cb_start_writing then start_writing_cb t p
      else Inl Bad_memory)"

text \<open>
  \<^verbatim>\<open>main\<close> between \<open>pd_threadpool_init\<close> and \<open>pd_io_run\<close>; \<open>t\<close> and \<open>u\<close> are the operations, \<open>rd\<close> and \<open>wr\<close> the flags
  \<^verbatim>\<open>PD_FS_O_RDONLY\<close> and \<^verbatim>\<open>PD_FS_O_WRONLY | PD_FS_O_TRUNC\<close> of the platform, and 438 is the mode 0666.
\<close>

definition fs_main :: "int \<Rightarrow> int \<Rightarrow> task \<Rightarrow> task \<Rightarrow> fs_command list" where
  "fs_main rd wr t u =
     [Malloc_op t, Init_op t, Submit_op t (\<lambda>a. Req_open a ''read.txt'' rd 438) cb_on_open,
      Malloc_op u, Init_op u, Submit_op u (\<lambda>a. Req_open a ''hello.txt'' wr 438) cb_start_writing]"

section \<open>The program in the system\<close>

text \<open>
  What is left to do of the function that is running, and what has been allocated and not freed: operations, buffers and
  loop structures.
\<close>

record fs_client =
  agenda :: "fs_command list"
  live_ops :: "task set"
  live_bufs :: "nat set"
  live_loops :: "nat set"

fun manage :: "fs_command \<Rightarrow> fs_client \<Rightarrow> fs_client res" where
  "manage (Malloc_op t) m = Inr (m\<lparr>live_ops := insert t (live_ops m)\<rparr>)"
| "manage (Malloc_buf b) m = Inr (if b = 0 then m else m\<lparr>live_bufs := insert b (live_bufs m)\<rparr>)"
| "manage (Free_op t) m =
     (if t \<in> live_ops m then Inr (m\<lparr>live_ops := live_ops m - {t}\<rparr>) else Inl Bad_memory)"
| "manage (Free_buf b) m =
     (if b = 0 then Inr m
      else if b \<in> live_bufs m then Inr (m\<lparr>live_bufs := live_bufs m - {b}\<rparr>) else Inl Bad_memory)"
| "manage c m = Inr m"

fun to_library :: "fs_command \<Rightarrow> bool" where
  "to_library (Init_op t) = True"
| "to_library (Submit_op t q g) = True"
| "to_library _ = False"

fun buffer_of :: "pd_fs_params \<Rightarrow> nat option" where
  "buffer_of (Read_params h b n) = (if b = 0 then None else Some b)"
| "buffer_of _ = None"

text \<open>To touch an operation, or the buffer it reads into, that has been freed is a fault.\<close>

definition touch :: "fs_client \<Rightarrow> task \<Rightarrow> nat option \<Rightarrow> 'a res \<Rightarrow> 'a res" where
  "touch m t b r = (if t \<in> live_ops m \<and> set_option b \<subseteq> live_bufs m then r else Inl Bad_memory)"

definition advance :: "fs_command list \<Rightarrow> fs_client \<Rightarrow> fs_state res \<Rightarrow> (fs_state \<times> fs_client) res" where
  "advance cs m r = bind_res r (\<lambda>s. Inr (s, m\<lparr>agenda := cs\<rparr>))"

text \<open>
  A step of the system with this client. The loop goes on only when the client's function has returned, the pool
  is not ended before the loop returns, and nobody else submits to it. When \<^verbatim>\<open>malloc\<close> gives no operation, \<open>pd_fs_init\<close>
  writes through the null pointer.
\<close>

inductive fs_client_step ::
  "fs_platform \<Rightarrow> task set \<Rightarrow> fs_state \<times> fs_client \<Rightarrow> fs_event list \<Rightarrow> (fs_state \<times> fs_client) res \<Rightarrow> bool" for P F where
  manages: "agenda m = c # cs \<Longrightarrow> \<not> to_library c \<Longrightarrow> lpc (fst s) 0 = L_client \<Longrightarrow>
     fs_client_step P F (s, m) [] (bind_res (manage c m) (\<lambda>m. advance cs m (Inr s)))"
| no_memory: "agenda m = Malloc_op t # cs \<Longrightarrow> lpc (fst s) 0 = L_client \<Longrightarrow>
     fs_client_step P F (s, m) [] (Inl Null_deref)"
| inits: "agenda m = Init_op t # cs \<Longrightarrow> fs_step P F s (Initialised 0 t) r \<Longrightarrow>
     fs_client_step P F (s, m) [Initialised 0 t] (touch m t None (advance cs m r))"
| submits: "agenda m = Submit_op t q g # cs \<Longrightarrow> fs_step P F s (Requested t (q a) (Some g) e) r \<Longrightarrow>
     fs_client_step P F (s, m) [Requested t (q a) (Some g) e] (touch m t None (advance cs m r))"
| works: "e = Worked i t st x \<or> e = Pooled (Work i t) \<and> t \<in> F \<Longrightarrow> fs_step P F s e r \<Longrightarrow>
     fs_client_step P F (s, m) [e]
       (touch m t (buffer_of (op_params (fs_ops (snd s) t))) (advance (agenda m) m r))"
| reports: "agenda m = [] \<Longrightarrow> t \<in> F \<Longrightarrow> b \<notin> live_bufs m \<Longrightarrow> fs_step P F s (Pooled (Done c t)) r \<Longrightarrow>
     fs_client_step P F (s, m) [Pooled (Done c t)]
       (touch m t None
         (bind_res (deref (op_cb (fs_ops (snd s) t))) (\<lambda>g.
          bind_res (sample_callback b g t (fs_ops (snd s) t)) (\<lambda>cs. advance cs m r))))"
| others: "about e \<inter> F = {} \<Longrightarrow> fs_step P F s (Pooled e) (Inr s') \<Longrightarrow>
     epc (fst s') = epc (fst s) \<Longrightarrow> (\<And>c v. e \<noteq> Accept c v) \<Longrightarrow>
     agenda m \<noteq> [] \<and> lpc (fst s) 0 = L_client \<longrightarrow> lpc (fst s') 0 = L_client \<Longrightarrow>
     fs_client_step P F (s, m) [Pooled e] (Inr (s', m))"

inductive fs_client_run ::
  "fs_platform \<Rightarrow> task set \<Rightarrow> fs_state \<times> fs_client \<Rightarrow> fs_event list \<Rightarrow> fs_state \<times> fs_client \<Rightarrow> bool" for P F x where
  client_run_start: "fs_client_run P F x [] x"
| client_run_step: "fs_client_run P F x evs y \<Longrightarrow> fs_client_step P F y es (Inr z) \<Longrightarrow> fs_client_run P F x (evs @ es) z"

text \<open>
  The program when \<open>pd_threadpool_init(4)\<close> has returned in the state \<open>s\<close> of the system. \<^verbatim>\<open>main\<close> has allocated the
  structure of loop 0.
\<close>

definition fs_program :: "int \<Rightarrow> int \<Rightarrow> task \<Rightarrow> task \<Rightarrow> fs_state \<Rightarrow> fs_state \<times> fs_client" where
  "fs_program rd wr t u s =
     ((pd_threadpool_init 4 (fst s), snd s), \<lparr>agenda = fs_main rd wr t u, live_ops = {}, live_bufs = {}, live_loops = {0}\<rparr>)"

section \<open>Which callback follows which\<close>

definition next_callback :: "callback \<Rightarrow> int \<Rightarrow> callback option" where
  "next_callback g st =
     (if g = cb_on_stat then Some cb_on_close
      else if st < 0 then None
      else if g = cb_on_open then Some cb_on_read
      else if g = cb_on_read then Some cb_on_close
      else if g = cb_start_writing then Some cb_on_write
      else if g = cb_on_write then Some cb_on_stat
      else None)"

text \<open>The callback that is due after the given calls, the first of them being \<open>g\<close>; \<open>None\<close> if they are out of order.\<close>

fun due_after :: "callback option \<Rightarrow> (callback \<times> int) list \<Rightarrow> callback option option" where
  "due_after g [] = Some g"
| "due_after g ((h, st) # cs) = (if g = Some h then due_after (next_callback h st) cs else None)"

lemma due_after_snoc:
  "due_after g (cs @ [(h, st)]) = (if due_after g cs = Some (Some h) then Some (next_callback h st) else None)"
  by (induction cs arbitrary: g) (auto split: if_splits)

definition calls_for :: "task \<Rightarrow> fs_mem \<Rightarrow> (callback \<times> int) list" where
  "calls_for t f = List.map_filter (\<lambda>(v, g, st, r). if v = t then Some (g, st) else None) (fs_calls f)"

definition first_callback :: "task \<Rightarrow> task \<Rightarrow> task \<Rightarrow> callback option" where
  "first_callback t u v = (if v = t then Some cb_on_open else if v = u then Some cb_start_writing else None)"

lemma calls_for_snoc:
  "fs_calls f' = fs_calls f @ [(v, g, st, r)] \<Longrightarrow>
     calls_for t f' = calls_for t f @ (if v = t then [(g, st)] else [])"
  by (simp add: calls_for_def List.map_filter_def)

lemma calls_for_cong: "fs_calls f' = fs_calls f \<Longrightarrow> calls_for t f' = calls_for t f"
  by (simp add: calls_for_def)

end
