(* ===== verification/Sample_Files_Correct.thy ===== *)
theory Sample_Files_Correct
  imports Sample_Files
begin

text \<open>
  The invariant of the sample: what is left of the running function may be executed (\<open>keeps\<close>), and leads to a state in
  which the operations that are allocated are those under way, and the buffers those that are being read into.
\<close>

section \<open>The invariant\<close>

definition kind_for :: "callback \<Rightarrow> fs_work" where
  "kind_for g =
     (if g = cb_on_open \<or> g = cb_start_writing then Open_work
      else if g = cb_on_read then Read_work
      else if g = cb_on_write then Write_work
      else if g = cb_on_stat then Stat_work
      else Close_work)"

definition sample_cbs :: "callback set" where
  "sample_cbs = {cb_on_close, cb_on_read, cb_on_open, cb_on_stat, cb_on_write, cb_start_writing}"

text \<open>
  Operations \<open>L\<close> and buffers \<open>B\<close> are allocated, operations \<open>I\<close> initialised and \<open>U\<close> under way; \<open>R\<close> are the buffers
  read into, and \<open>X\<close> the callbacks that are due.
\<close>

fun keeps ::
  "fs_command list \<Rightarrow> task set \<Rightarrow> nat set \<Rightarrow> task set \<Rightarrow> task set \<Rightarrow> (task \<Rightarrow> nat option) \<Rightarrow>
    (task \<Rightarrow> callback option) \<Rightarrow> bool" where
  "keeps [] L B I U R X \<longleftrightarrow>
     L = U \<and> B = ran R \<and> dom R \<subseteq> U \<and> inj_on R (dom R) \<and> U \<subseteq> I \<and> (\<forall>t. t \<notin> U \<longrightarrow> X t = None)"
| "keeps (Malloc_op t # cs) L B I U R X \<longleftrightarrow> t \<notin> U \<and> keeps cs (insert t L) B I U R X"
| "keeps (Malloc_buf b # cs) L B I U R X \<longleftrightarrow>
     (if b = 0 then keeps cs L B I U R X else b \<notin> ran R \<and> keeps cs L (insert b B) I U R X)"
| "keeps (Free_op t # cs) L B I U R X \<longleftrightarrow> t \<in> L \<and> t \<notin> U \<and> keeps cs (L - {t}) B I U R X"
| "keeps (Free_buf b # cs) L B I U R X \<longleftrightarrow>
     (if b = 0 then keeps cs L B I U R X else b \<in> B \<and> b \<notin> ran R \<and> keeps cs L (B - {b}) I U R X)"
| "keeps (Init_op t # cs) L B I U R X \<longleftrightarrow> t \<in> L \<and> t \<notin> U \<and> keeps cs L B (insert t I) U R X"
| "keeps (Submit_op t q g # cs) L B I U R X \<longleftrightarrow>
     t \<in> L \<and> t \<in> I \<and> t \<notin> U \<and> R t = None \<and> X t = Some g \<and> g \<in> sample_cbs \<and> (\<forall>a. kind_of (q a) = kind_for g) \<and>
     (\<forall>a. buffer_of (params_of (q a)) = buffer_of (params_of (q None))) \<and>
     keeps cs L B I (insert t U) (R(t := buffer_of (params_of (q None)))) X"

lemma kind_for_simps [simp]:
  "kind_for cb_on_open = Open_work" "kind_for cb_start_writing = Open_work" "kind_for cb_on_read = Read_work"
  "kind_for cb_on_write = Write_work" "kind_for cb_on_stat = Stat_work" "kind_for cb_on_close = Close_work"
  by (simp_all add: kind_for_def callback_numbers)

lemma next_callback_simps [simp]:
  "next_callback cb_on_open st = (if st < 0 then None else Some cb_on_read)"
  "next_callback cb_start_writing st = (if st < 0 then None else Some cb_on_write)"
  "next_callback cb_on_read st = (if st < 0 then None else Some cb_on_close)"
  "next_callback cb_on_write st = (if st < 0 then None else Some cb_on_stat)"
  "next_callback cb_on_stat st = Some cb_on_close" "next_callback cb_on_close st = None"
  by (simp_all add: next_callback_def callback_numbers)

lemma sample_callback_simps [simp]:
  "sample_callback b cb_on_open t p = on_open_cb b t p"
  "sample_callback b cb_start_writing t p = start_writing_cb t p"
  "sample_callback b cb_on_read t p = on_read_cb t p"
  "sample_callback b cb_on_write t p = on_write_cb t p"
  "sample_callback b cb_on_stat t p = on_stat_cb t p"
  "sample_callback b cb_on_close t p = Inr (on_close_cb t)"
  by (simp_all add: sample_callback_def callback_numbers)

lemma sample_cbs_mem [simp]:
  "cb_on_open \<in> sample_cbs" "cb_start_writing \<in> sample_cbs" "cb_on_read \<in> sample_cbs"
  "cb_on_write \<in> sample_cbs" "cb_on_stat \<in> sample_cbs" "cb_on_close \<in> sample_cbs"
  by (simp_all add: sample_cbs_def)

text \<open>What an operation holds when its callback \<open>g\<close> is called.\<close>

definition ready_for :: "callback \<Rightarrow> pd_fs \<Rightarrow> bool" where
  "ready_for g p \<longleftrightarrow> g \<in> sample_cbs \<and> member (kind_for g) (op_params p) \<and>
     (kind_for g = Open_work \<longrightarrow> (\<exists>h. op_result p = Fd h))"

lemma dropped:
  assumes "dom R \<subseteq> U" "inj_on R (dom R)"
  shows "dom (R(t := None)) \<subseteq> U - {t}" "inj_on (R(t := None)) (dom (R(t := None)))"
  using assms by (auto simp: inj_on_def)

lemma ran_dropped:
  assumes "inj_on R (dom R)" "R t = Some b"
  shows "ran (R(t := None)) = ran R - {b}"
proof (rule set_eqI)
  fix x
  have other: "x \<noteq> b" if "R u = Some x" "u \<noteq> t" for u
    using assms(2) inj_onD [OF assms(1), of u t] that by auto
  have "x \<in> ran (R(t := None)) \<longleftrightarrow> (\<exists>u. u \<noteq> t \<and> R u = Some x)"
    by (simp add: ran_def cong: conj_cong)
  also have "\<dots> \<longleftrightarrow> (\<exists>u. R u = Some x) \<and> x \<noteq> b"
    using other assms(2) by (metis option.inject)
  finally show "x \<in> ran (R(t := None)) \<longleftrightarrow> x \<in> ran R - {b}" by (simp add: ran_def)
qed

lemma dropped_same: "R t = None \<Longrightarrow> R(t := None) = R"
  by auto

lemma added:
  assumes "R t = None" "b \<notin> ran R" "inj_on R (dom R)"
  shows "inj_on (R(t \<mapsto> b)) (insert t (dom R))"
proof (rule inj_onI)
  fix x y
  assume "x \<in> insert t (dom R)" "y \<in> insert t (dom R)" and e: "(R(t \<mapsto> b)) x = (R(t \<mapsto> b)) y"
  then show "x = y"
    using assms(2) inj_onD [OF assms(3), of x y] by (auto split: if_splits dest: ranI [of R x b] ranI [of R y b] sym)
qed

text \<open>Each callback leads back to the invariant.\<close>

lemma callback_keeps:
  assumes k: "keeps [] L B I U R X" and t: "t \<in> U" and p: "ready_for g p" and r: "R t = buffer_of (op_params p)"
    and b: "b \<notin> B"
  shows "\<exists>cs. sample_callback b g t p = Inr cs \<and>
    keeps cs L B I (U - {t}) (R(t := None)) (X(t := next_callback g (op_status p)))"
proof -
  note K = k [unfolded keeps.simps]
  have d: "dom (R(t := None)) \<subseteq> U - {t}" "inj_on (R(t := None)) (dom (R(t := None)))"
    using dropped [of R U t] K by simp_all
  consider "g = cb_on_close" | "g = cb_on_read" | "g = cb_on_open" | "g = cb_on_stat" | "g = cb_on_write" | "g = cb_start_writing"
    using p by (auto simp: ready_for_def sample_cbs_def)
  then show ?thesis
  proof cases
    case 2
    then obtain h buf n where ps: "op_params p = Read_params h buf n"
      using p by (cases "op_params p") (auto simp: ready_for_def)
    have "ran (R(t := None)) = ran R - {buf} \<and> buf \<in> ran R" if "buf \<noteq> 0"
      using ran_dropped [of R t buf] K r ps that by (auto intro: ranI)
    moreover have "R(t := None) = R" if "buf = 0" using dropped_same [of R t] r ps that by simp
    ultimately show ?thesis using 2 ps K t d by (cases "buf = 0") (auto simp: on_read_cb_def)
  next
    case 3
    then obtain h where "op_result p = Fd h" "R(t := None) = R"
      using p r dropped_same [of R t] by (cases "op_params p") (auto simp: ready_for_def)
    moreover have "R t = None" using fun_cong [OF calculation(2), of t] by simp
    ultimately show ?thesis using 3 K t d b added [of R t b]
      by (cases "b = 0") (auto simp: on_open_cb_def ran_map_upd simp del: fun_upd_apply, simp_all)
  next
    case 4
    then obtain h where "op_params p = Stat_params h" "R(t := None) = R"
      using p r dropped_same [of R t] by (cases "op_params p") (auto simp: ready_for_def)
    then show ?thesis using 4 K t d by (auto simp: on_stat_cb_def)
  next
    case 5
    then obtain h buf n where "op_params p = Write_params h buf n" "R(t := None) = R"
      using p r dropped_same [of R t] by (cases "op_params p") (auto simp: ready_for_def)
    then show ?thesis using 5 K t d by (auto simp: on_write_cb_def)
  next
    case 6
    then obtain h where "op_result p = Fd h" "R(t := None) = R"
      using p r dropped_same [of R t] by (cases "op_params p") (auto simp: ready_for_def)
    then show ?thesis using 6 K t d by (auto simp: start_writing_cb_def)
  next
    case 1
    then have "R(t := None) = R"
      using p r dropped_same [of R t] by (cases "op_params p") (auto simp: ready_for_def)
    then show ?thesis using 1 K t d by (auto simp: on_close_cb_def)
  qed
qed

lemma keeps_live: "keeps cs L B I U R X \<Longrightarrow> U \<subseteq> L \<and> ran R \<subseteq> B"
proof (induction cs L B I U R X rule: keeps.induct)
  case (7 t q g cs L B I U R X)
  note K = 7(2) [unfolded keeps.simps]
  have "ran R \<subseteq> ran (R(t := buffer_of (params_of (q None))))"
    using K by (auto simp: ran_def) (metis option.distinct(1))
  then show ?case using 7(1) K by blast
next
  case (3 b cs L B I U R X)
  then show ?case by (cases "b = 0") auto
qed (auto split: if_splits)

section \<open>What the steps do\<close>

lemma member_released [simp]: "member k (released ps) = member k ps" "buffer_of (released ps) = buffer_of ps"
  by (cases ps; cases k; simp)+

text \<open>A platform whose work on an \<^verbatim>\<open>open\<close> leaves a descriptor in the union of results.\<close>

lemma free_ops: "free a f = Inr f' \<Longrightarrow> fs_ops f' = fs_ops f"
  by (auto simp: free_def split: option.splits if_splits)

locale file_results = file_platform +
  assumes open_gives: "wk \<in> works P \<Longrightarrow> wk Open_work t f = Inr f' \<Longrightarrow> \<exists>h. op_result (fs_ops f' t) = Fd h"

interpretation unix_files: file_results unix_fs
proof
  fix wk :: fs_worker and t and f f' :: fs_mem
  assume "wk \<in> works unix_fs" "wk Open_work t f = Inr f'"
  then show "\<exists>h. op_result (fs_ops f' t) = Fd h"
    by (auto simp: unix_fs_def pd_fs_open_work_def bind_res_eq_Inr Let_def
        split: pd_fs_params.splits dest!: free_ops)
qed

interpretation win_files: file_results "win_fs cs" for cs
proof
  fix wk :: fs_worker and t and f f' :: fs_mem
  assume "wk \<in> works (win_fs cs)" "wk Open_work t f = Inr f'"
  then show "\<exists>h. op_result (fs_ops f' t) = Fd h"
    by (auto simp: win_fs_def win_open_work_def bind_res_eq_Inr Let_def
        split: pd_fs_params.splits dest!: free_ops)
qed

text \<open>While nobody ends it, the pool stays up.\<close>

definition pool_up :: "pool \<Rightarrow> bool" where
  "pool_up w \<longleftrightarrow> epc w = E_idle \<and> nthreads w \<noteq> 0 \<and> \<not> abort_threads w"

lemma signal_up: "cond_signal w w' \<Longrightarrow> pool_up w' = pool_up w"
  by (erule cond_signal.cases) (simp_all add: pool_up_def)

lemma worker_up: "worker_step i w e w' \<Longrightarrow> pool_up w' = pool_up w"
  by (erule worker_step.cases) (auto simp: pool_up_def dest!: signal_up)

lemma loop_up: "loop_step c w e w' \<Longrightarrow> pool_up w' = pool_up w"
  by (erule loop_step.cases) (auto simp: pool_up_def dest!: signal_up)

lemma client_up: "client_step c w e w' \<Longrightarrow> pool_up w' = pool_up w"
  by (erule client_step.cases) (auto simp: pool_up_def)

lemma no_ender: "pool_up w \<Longrightarrow> \<not> ender_step w w'"
  by (auto simp: pool_up_def elim: ender_step.cases)

lemma step_up:
  assumes "pool_step w e w'" "pool_up w" "epc w' = epc w"
  shows "pool_up w'"
  using assms(1) unfolding pool_step_def
proof
  assume "internal_step w e w'"
  then show ?thesis
  proof cases
    case of_ender
    then show ?thesis using no_ender [OF assms(2)] by simp
  qed (use assms(2) worker_up loop_up in blast)+
next
  assume "environment_step w e w'"
  then show ?thesis
  proof cases
    case of_client
    then show ?thesis using assms(2) client_up by blast
  qed (use assms(2,3) in \<open>simp_all add: pool_up_def pd_threadpool_init_def\<close>)
qed

section \<open>The invariant is kept\<close>

abbreviation in_use :: "fs_event list \<Rightarrow> task set" where
  "in_use evs \<equiv> fold under_way (pool_events evs) {}"

definition reads :: "fs_mem \<Rightarrow> task set \<Rightarrow> task \<Rightarrow> nat option" where
  "reads f U v = (if v \<in> U then buffer_of (op_params (fs_ops f v)) else None)"

lemma reads_none [simp]: "reads f {} = Map.empty"
  by (simp add: reads_def fun_eq_iff)

definition due :: "task \<Rightarrow> task \<Rightarrow> fs_mem \<Rightarrow> task \<Rightarrow> callback option option" where
  "due t u f v = due_after (first_callback t u v) (calls_for v f)"

definition op_ok :: "bool \<Rightarrow> callback option option \<Rightarrow> callback option \<Rightarrow> pd_fs \<Rightarrow> bool" where
  "op_ok waits d work p \<longleftrightarrow>
     (\<exists>g. op_cb p = Some g \<and> d = Some (Some g) \<and> g \<in> sample_cbs \<and> member (kind_for g) (op_params p) \<and>
       (if waits then work = Some (fs_function (kind_for g)) else ready_for g p))"

definition client_inv :: "task \<Rightarrow> task \<Rightarrow> fs_event list \<Rightarrow> fs_state \<times> fs_client \<Rightarrow> bool" where
  "client_inv t u evs y =
     (case y of ((w, f), m) \<Rightarrow>
       let U = in_use evs \<inter> {t, u}
       in keeps (agenda m) (live_ops m) (live_bufs m) (initialised evs) U (reads f U) (the \<circ> due t u f) \<and>
          (\<forall>v. due t u f v \<noteq> None) \<and>
          (\<forall>v \<in> U. op_ok (v \<in> awaiting (pool_events evs)) (due t u f v) (task_work (taskmem w v)) (fs_ops f v)) \<and>
          pool_up w)"

lemma client_invD:
  assumes "client_inv t u evs ((w, f), m)"
  shows "keeps (agenda m) (live_ops m) (live_bufs m) (initialised evs) (in_use evs \<inter> {t, u})
      (reads f (in_use evs \<inter> {t, u})) (the \<circ> due t u f)"
    and "due t u f v \<noteq> None"
    and "v \<in> in_use evs \<Longrightarrow> v = t \<or> v = u \<Longrightarrow>
      op_ok (v \<in> awaiting (pool_events evs)) (due t u f v) (task_work (taskmem w v)) (fs_ops f v)"
    and "pool_up w"
  using assms by (auto simp: client_inv_def Let_def)

lemma client_invI:
  assumes "keeps (agenda m) (live_ops m) (live_bufs m) (initialised evs) (in_use evs \<inter> {t, u})
      (reads f (in_use evs \<inter> {t, u})) (the \<circ> due t u f)"
    and "\<And>v. due t u f v \<noteq> None"
    and "\<And>v. v \<in> in_use evs \<Longrightarrow> v = t \<or> v = u \<Longrightarrow>
      op_ok (v \<in> awaiting (pool_events evs)) (due t u f v) (task_work (taskmem w v)) (fs_ops f v)"
    and "pool_up w"
  shows "client_inv t u evs ((w, f), m)"
  using assms by (auto simp: client_inv_def Let_def)

lemma due_cong: "fs_calls f' = fs_calls f \<Longrightarrow> due t u f' = due t u f"
  by (simp add: due_def calls_for_def fun_eq_iff)

lemma due_update [simp]:
  "due t u (f\<lparr>fs_ops := ps\<rparr>) = due t u f" "due t u (f\<lparr>strings := ss\<rparr>) = due t u f"
  by (rule due_cong; simp)+

lemma client_manages:
  assumes "client_inv t u evs (s, m)" "agenda m = c # cs" "\<not> to_library c"
  shows "\<exists>m'. manage c m = Inr m' \<and> client_inv t u evs (s, m'\<lparr>agenda := cs\<rparr>)"
proof -
  obtain w f where s: "s = (w, f)" by fastforce
  note D = client_invD [OF assms(1) [unfolded s]]
  show ?thesis unfolding s
    using assms(2,3) D by (cases c) (auto intro!: client_invI)
qed

context file_results
begin

lemma client_inits:
  assumes inv: "client_inv t u evs (s, m)" and ag: "agenda m = Init_op v # cs"
    and st: "fs_step P {t, u} s (Initialised 0 v) (Inr s')"
  shows "v \<in> live_ops m \<and> v \<notin> in_use evs \<and> client_inv t u (evs @ [Initialised 0 v]) (s', m\<lparr>agenda := cs\<rparr>)"
proof -
  obtain w f where s: "s = (w, f)" and v: "v \<in> {t, u}" "s' = initialise P 0 v (w, f)"
    using st by (cases rule: fs_step.cases) auto
  note D = client_invD [OF inv [unfolded s]]
  have k: "v \<in> live_ops m" "v \<notin> in_use evs" using D(1) v by (auto simp: ag)
  obtain w' f' where s': "s' = (w', f')" by fastforce
  have f': "f' = set_fs v (\<lambda>_. \<lparr>op_ctx = 0, op_type = Pd_unknown_op, op_cb = None, op_status = PD_UNKNOWN,
      op_params = No_params, op_result = No_result\<rparr>) f"
    and w': "w' = set_task v (\<lambda>k. k\<lparr>task_work := None, task_done_cb := Some fs_work_done\<rparr>) w"
    using v(2) s' by (simp_all add: init_clears)
  have r: "reads f' (in_use evs \<inter> {t, u}) = reads f (in_use evs \<inter> {t, u})" using k(2) by (auto simp: f' reads_def fun_eq_iff)
  have "client_inv t u (evs @ [Initialised 0 v]) ((w', f'), m\<lparr>agenda := cs\<rparr>)"
  proof (rule client_invI)
    fix x assume "x \<in> in_use (evs @ [Initialised 0 v])" "x = t \<or> x = u"
    moreover from this have "x \<noteq> v" using k(2) by auto
    ultimately show "op_ok (x \<in> awaiting (pool_events (evs @ [Initialised 0 v]))) (due t u f' x)
        (task_work (taskmem w' x)) (fs_ops f' x)"
      using D(3) [of x] by (simp add: w' f')
  qed (use D(1,2,4) ag in \<open>simp_all add: r [unfolded f'] pool_up_def w' f'\<close>)
  then show ?thesis using k s' by simp
qed

lemma client_submits:
  assumes inv: "client_inv t u evs (s, m)" and ag: "agenda m = Submit_op v q g # cs"
    and st: "fs_step P {t, u} s (Requested v (q a) (Some g) e) (Inr s')"
  shows "v \<in> live_ops m \<and> v \<notin> in_use evs \<and> v \<in> initialised evs \<and>
    client_inv t u (evs @ [Requested v (q a) (Some g) e]) (s', m\<lparr>agenda := cs\<rparr>)"
proof -
  obtain w f w1 f1 c w2 where s: "s = (w, f)" and v: "v \<in> {t, u}" "s' = (w2, f1)"
      and q: "request P (q a) v (Some g) (w, f) = (w1, f1)" and cl: "client_step c w1 e w2" "e = Accept c v \<or> e = Refused c v"
    using st by (cases rule: fs_step.cases) auto
  note D = client_invD [OF inv [unfolded s]]
  have k: "v \<in> live_ops m" "v \<in> initialised evs" "v \<notin> in_use evs" "the (due t u f v) = Some g" "g \<in> sample_cbs"
      "kind_of (q a) = kind_for g" "buffer_of (params_of (q a)) = buffer_of (params_of (q None))"
    and rest: "keeps cs (live_ops m) (live_bufs m) (initialised evs) (insert v (in_use evs \<inter> {t, u}))
      ((reads f (in_use evs \<inter> {t, u}))(v := buffer_of (params_of (q None)))) (the \<circ> due t u f)"
    using D(1) v by (auto simp: ag simp del: fun_upd_apply)
  have w1: "w1 = set_task v (\<lambda>k. k\<lparr>task_work := Some (fs_function (kind_for g))\<rparr>) w"
    using q request_task [of "q a" v "Some g" w f] k(6) by simp
  have up: "pool_up w1" using D(4) by (simp add: w1 pool_up_def)
  then have e: "e = Accept c v" using cl by (auto simp: pool_up_def elim: client_step.cases)
  have f1: "fs_ops f1 = (fs_ops f)(v := (fs_ops f v)\<lparr>op_type := type_of (kind_of (q a)), op_cb := Some g,
      op_params := params_of (q a)\<rparr>)" "fs_calls f1 = fs_calls f"
    using q by (auto simp: request_fills filled_def strdup_def split: fs_request.splits option.splits)
  have d: "due t u f1 = due t u f" by (rule due_cong) (simp add: f1)
  have r: "reads f1 (insert v (in_use evs \<inter> {t, u})) =
      (reads f (in_use evs \<inter> {t, u}))(v := buffer_of (params_of (q None)))"
    using k(7) by (auto simp: f1 reads_def fun_eq_iff)
  have un: "in_use (evs @ [Requested v (q a) (Some g) e]) \<inter> {t, u} = insert v (in_use evs \<inter> {t, u})"
    using v(1) by (auto simp: e)
  have m: "member (kind_for g) (params_of (q a))" using k(6) by (cases "q a") (simp_all flip: k(6))
  have "client_inv t u (evs @ [Requested v (q a) (Some g) e]) ((w2, f1), m\<lparr>agenda := cs\<rparr>)"
  proof (rule client_invI)
    fix x assume x: "x \<in> in_use (evs @ [Requested v (q a) (Some g) e])" "x = t \<or> x = u"
    show "op_ok (x \<in> awaiting (pool_events (evs @ [Requested v (q a) (Some g) e]))) (due t u f1 x)
        (task_work (taskmem w2 x)) (fs_ops f1 x)"
    proof (cases "x = v")
      case True
      then show ?thesis using k(4,5) m D(2) [of v] submit_keeps [OF cl, of v]
        by (auto simp: op_ok_def d f1 e w1)
    next
      case False
      then show ?thesis using D(3) [of x] x submit_keeps [OF cl, of x] by (simp add: d f1 e w1)
    qed
  next
    show "pool_up w2" using client_up [OF cl(1)] up by simp
  qed (use D(2) rest in \<open>simp_all only: un r d initialised_simps fs_client.simps, simp_all\<close>)
  then show ?thesis using k v(2) by simp
qed

lemma client_works:
  assumes inv: "client_inv t u evs (s, m)" and st: "fs_step P {t, u} s (Worked i v st x) (Inr s')"
    and pend: "v \<in> in_use evs" "v \<in> awaiting (pool_events evs)"
    and own: "\<And>p. owned_path (op_params (fs_ops (snd s) v)) = Some p \<Longrightarrow> strings (snd s) p \<noteq> None"
  shows "client_inv t u (evs @ [Worked i v st x]) (s', m)"
proof -
  obtain w f w' f' k wk where s: "s = (w, f)" and v: "v \<in> {t, u}" "s' = (w', f')" and w': "worker_step i w (Work i v) w'"
      and k: "task_work (taskmem w v) = Some (fs_function k)" and wk: "wk \<in> works P" "wk k v f = Inr f'"
    using st by (cases rule: fs_step.cases) auto
  note D = client_invD [OF inv [unfolded s]]
  obtain g where g: "op_cb (fs_ops f v) = Some g" "due t u f v = Some (Some g)" "g \<in> sample_cbs"
      "member k (op_params (fs_ops f v))" "k = kind_for g"
    using D(3) [of v] pend v(1) k by (auto simp: op_ok_def)
  have "worked_on v f f'" using work_works [OF wk(1) g(4)] own wk(2) by (auto simp: s)
  then obtain y r where f': "f' = set_fs v (\<lambda>p. p\<lparr>op_status := y, op_result := r, op_params := released (op_params p)\<rparr>)
      (case owned_path (op_params (fs_ops f v)) of None \<Rightarrow> f | Some p \<Rightarrow> f\<lparr>strings := (strings f)(p := None)\<rparr>)"
    by (auto simp: worked_on_def)
  have ops: "fs_ops f' = (fs_ops f)(v := (fs_ops f v)\<lparr>op_status := y, op_result := r,
      op_params := released (op_params (fs_ops f v))\<rparr>)" "fs_calls f' = fs_calls f"
    unfolding f' by (simp_all split: option.split)
  have d: "due t u f' = due t u f" by (rule due_cong) (simp add: ops)
  have rd: "reads f' U = reads f U" for U by (auto simp: ops reads_def fun_eq_iff)
  have un: "in_use (evs @ [Worked i v st x]) = in_use evs" by simp
  have "k = Open_work \<Longrightarrow> \<exists>h. r = Fd h" using open_gives [OF wk(1), of v f f'] wk(2) by (simp add: ops)
  then have ready: "ready_for g (fs_ops f' v)" using g(3,4,5) by (auto simp: ready_for_def ops)
  have "client_inv t u (evs @ [Worked i v st x]) ((w', f'), m)"
  proof (rule client_invI)
    fix y assume y: "y \<in> in_use (evs @ [Worked i v st x])" "y = t \<or> y = u"
    show "op_ok (y \<in> awaiting (pool_events (evs @ [Worked i v st x]))) (due t u f' y)
        (task_work (taskmem w' y)) (fs_ops f' y)"
    proof (cases "y = v")
      case True
      then show ?thesis using g ready by (simp add: op_ok_def d) (simp add: ops)
    next
      case False
      then show ?thesis using D(3) [of y] y by (simp add: d ops work_keeps [OF w'])
    qed
  next
    show "pool_up w'" using worker_up [OF w'] D(4) by simp
    show "due t u f' y \<noteq> None" for y using D(2) by (simp add: d)
  qed (use D(1) in \<open>simp_all only: un rd d initialised_simps\<close>)
  then show ?thesis using v(2) by simp
qed

lemma client_reports:
  assumes inv: "client_inv t u evs (s, m)" and ag: "agenda m = []" and v: "v \<in> {t, u}" and b: "b \<notin> live_bufs m"
    and st: "fs_step P {t, u} s (Pooled (Done c v)) (Inr s')"
    and fin: "v \<in> in_use evs" "v \<notin> awaiting (pool_events evs)"
  shows "\<exists>g cs. op_cb (fs_ops (snd s) v) = Some g \<and> sample_callback b g v (fs_ops (snd s) v) = Inr cs \<and> v \<in> live_ops m \<and>
    client_inv t u (evs @ [Pooled (Done c v)]) (s', m\<lparr>agenda := cs\<rparr>)"
proof -
  obtain w f w' where s: "s = (w, f)" and w': "loop_step c w (Done c v) w'"
      and r: "bind_res (finish P v f) (\<lambda>f'. Inr (w', f')) = Inr s'"
    using st v by (cases rule: fs_step.cases) auto
  note D = client_invD [OF inv [unfolded s]]
  let ?U = "in_use evs \<inter> {t, u}" and ?p = "fs_ops f v"
  obtain g where g: "op_cb ?p = Some g" "due t u f v = Some (Some g)" "ready_for g ?p"
    using D(3) [OF fin(1)] fin(2) v by (auto simp: op_ok_def)
  obtain f' where f': "s' = (w', f')" "f' = f\<lparr>fs_calls := fs_calls f @ [(v, g, op_status ?p, op_result ?p)]\<rparr>"
    using r finish_calls [OF g(1)] by auto
  have U: "v \<in> ?U" using fin(1) v by simp
  obtain cs where cs: "sample_callback b g v ?p = Inr cs"
      "keeps cs (live_ops m) (live_bufs m) (initialised evs) (?U - {v}) ((reads f ?U)(v := None))
        ((the \<circ> due t u f)(v := next_callback g (op_status ?p)))"
    using callback_keeps [OF D(1) [unfolded ag] U g(3) _ b] U by (auto simp: reads_def)
  have d: "due t u f' = (due t u f)(v := Some (next_callback g (op_status ?p)))"
    using g(2) by (auto simp: due_def f' calls_for_snoc [where f = f] due_after_snoc fun_eq_iff)
  then have dx: "the \<circ> due t u f' = (the \<circ> due t u f)(v := next_callback g (op_status ?p))" by auto
  have un: "in_use (evs @ [Pooled (Done c v)]) \<inter> {t, u} = ?U - {v}" by auto
  have rd: "reads f' (?U - {v}) = (reads f ?U)(v := None)" by (auto simp: reads_def f' fun_eq_iff)
  have "client_inv t u (evs @ [Pooled (Done c v)]) ((w', f'), m\<lparr>agenda := cs\<rparr>)"
  proof (rule client_invI)
    fix x assume x: "x \<in> in_use (evs @ [Pooled (Done c v)])" "x = t \<or> x = u"
    then have "x \<noteq> v" by auto
    then show "op_ok (x \<in> awaiting (pool_events (evs @ [Pooled (Done c v)]))) (due t u f' x)
        (task_work (taskmem w' x)) (fs_ops f' x)"
      using D(3) [of x] x by (simp add: d done_keeps [OF w']) (simp add: f')
  next
    show "pool_up w'" using loop_up [OF w'] D(4) by simp
  next
    show "due t u f' x \<noteq> None" for x using D(2) by (simp add: d)
  qed (use cs(2) in \<open>simp_all only: un rd dx initialised_simps fs_client.simps, simp_all\<close>)
  then show ?thesis using g(1) cs(1) keeps_live [OF D(1)] U f'(1) by (auto simp: s)
qed

lemma client_others:
  assumes inv: "client_inv t u evs (s, m)" and e: "about e \<inter> {t, u} = {}"
    and st: "fs_step P {t, u} s (Pooled e) (Inr s')" and up: "epc (fst s') = epc (fst s)"
  shows "client_inv t u (evs @ [Pooled e]) (s', m)"
proof -
  obtain w f w' where s: "s = (w, f)" "s' = (w', f)" and w': "pool_step w e w'"
      and mem: "\<And>x. x \<in> {t, u} \<Longrightarrow> taskmem w' x = taskmem w x"
    using st e by (cases rule: fs_step.cases) auto
  note D = client_invD [OF inv [unfolded s]]
  have same: "x \<in> in_use (evs @ [Pooled e]) \<longleftrightarrow> x \<in> in_use evs"
    "x \<in> awaiting (pool_events (evs @ [Pooled e])) \<longleftrightarrow> x \<in> awaiting (pool_events evs)" if "x \<in> {t, u}" for x
    using that e by (cases e; auto)+
  have un: "in_use (evs @ [Pooled e]) \<inter> {t, u} = in_use evs \<inter> {t, u}" using same(1) by blast
  have "client_inv t u (evs @ [Pooled e]) ((w', f), m)"
  proof (rule client_invI)
    fix x assume x: "x \<in> in_use (evs @ [Pooled e])" "x = t \<or> x = u"
    then have F: "x \<in> {t, u}" by auto
    show "op_ok (x \<in> awaiting (pool_events (evs @ [Pooled e]))) (due t u f x) (task_work (taskmem w' x)) (fs_ops f x)"
      using D(3) [of x] x(2) same(1) [OF F] x(1) by (simp only: same(2) [OF F] mem [OF F])
  next
    show "pool_up w'" using step_up [OF w' D(4)] up by (simp add: s)
    show "due t u f x \<noteq> None" for x by (rule D(2))
  qed (use D(1) in \<open>simp_all only: un initialised_simps\<close>)
  then show ?thesis by (simp add: s)
qed

end

section \<open>Runs of the sample\<close>

text \<open>A run of the sample is a run of the system that keeps the contract of the file operations.\<close>

definition run_ok :: "fs_platform \<Rightarrow> task \<Rightarrow> task \<Rightarrow> fs_state \<Rightarrow> fs_event list \<Rightarrow> fs_state \<times> fs_client \<Rightarrow> bool" where
  "run_ok P t u s0 evs y \<longleftrightarrow>
     fs_run P {t, u} s0 evs (fst y) \<and> keeps_contract ({}, {}) evs \<and> client_inv t u evs y"

abbreviation fine ::
  "fs_platform \<Rightarrow> task \<Rightarrow> task \<Rightarrow> fs_state \<Rightarrow> fs_event list \<Rightarrow> (fs_state \<times> fs_client) res \<Rightarrow> bool" where
  "fine P t u s0 evs r \<equiv> r = Inl Diverged \<or> (\<exists>z. r = Inr z \<and> run_ok P t u s0 evs z)"

lemma run_ok_snoc:
  assumes "run_ok P t u s0 evs (s, m)" "fs_step P {t, u} s e (Inr s')" "allowed (fold progress evs ({}, {})) e"
    and "client_inv t u (evs @ [e]) (s', m')"
  shows "run_ok P t u s0 (evs @ [e]) (s', m')"
  using assms fs_run_step [of P "{t, u}" s0 evs s e s'] by (simp add: run_ok_def)

lemma allowed_iff:
  "allowed (fold progress evs ({}, {})) (Initialised c v) \<longleftrightarrow> v \<notin> in_use evs"
  "allowed (fold progress evs ({}, {})) (Requested v q g e) \<longleftrightarrow> v \<in> initialised evs \<and> v \<notin> in_use evs \<and> g \<noteq> None"
  "allowed (fold progress evs ({}, {})) (Worked i v st x)"
  "allowed (fold progress evs ({}, {})) (Pooled e) \<longleftrightarrow> proper_event (in_use evs) e"
  using fold_progress_under_way [of evs "({}, {})"]
  by (cases "fold progress evs ({}, {})"; simp add: initialised_def)+

lemma client_requests:
  "fs_step P F s (Initialised c v) r \<Longrightarrow> \<exists>s'. r = Inr s'" "fs_step P F s (Requested v q g e) r \<Longrightarrow> \<exists>s'. r = Inr s'"
  by (erule fs_step.cases; simp del: split_paired_Ex)+

context file_results
begin

lemma run_phases:
  assumes "run_ok P t u s0 evs (s, m)" "fs_start s0"
  obtains a where "fs_inv {t, u} evs (phases a) s"
    and "\<And>v. v \<in> in_use evs \<longleftrightarrow> phases a v \<noteq> Resting" "\<And>v. v \<in> awaiting (pool_events evs) \<longleftrightarrow> phases a v = Pending"
    and "\<And>i v w'. worker_step i (fst s) (Work i v) w' \<Longrightarrow> phases a v = Pending"
    and "\<And>c v w'. loop_step c (fst s) (Done c v) w' \<Longrightarrow> phases a v = Finished_work"
proof -
  have run: "fs_run P {t, u} s0 evs s" "keeps_contract ({}, {}) evs" using assms(1) by (auto simp: run_ok_def)
  obtain a where a: "in_spec (fst s0) (pool_events evs) (fst s) a" "fs_inv {t, u} evs (phases a) s"
    using run_inv [OF run(1) assms(2) run(2)] by blast
  have spec: "spec_run (pool_events evs) a" using a(1) by (simp add: in_spec_def)
  show ?thesis
  proof (rule that [OF a(2)])
    show "v \<in> in_use evs \<longleftrightarrow> phases a v \<noteq> Resting" "v \<in> awaiting (pool_events evs) \<longleftrightarrow> phases a v = Pending" for v
      using spec_run_under_way [OF spec] spec_awaiting [OF spec] by (simp_all add: Resting_iff)
    show "phases a v = Pending" if "worker_step i (fst s) (Work i v) w'" for i v w'
      using in_spec_step [OF a(1) pool_steps(1) [OF that]] by auto
    show "phases a v = Finished_work" if "loop_step c (fst s) (Done c v) w'" for c v w'
      using in_spec_step [OF a(1) pool_steps(2) [OF that]] by auto
  qed
qed

lemma work_step_ok:
  assumes ok: "run_ok P t u s0 evs (s, m)" and start: "fs_start s0"
    and e: "e = Worked i v x1 x2 \<or> e = Pooled (Work i v) \<and> v \<in> {t, u}" and st: "fs_step P {t, u} s e r1"
  shows "fine P t u s0 (evs @ [e]) (touch m v (buffer_of (op_params (fs_ops (snd s) v))) (advance (agenda m) m r1))"
proof -
  obtain w f where wf: "s = (w, f)" by fastforce
  have inv: "client_inv t u evs (s, m)" using ok by (simp add: run_ok_def)
  note live = keeps_live [OF client_invD(1) [OF inv [unfolded wf]]]
  obtain a where a: "fs_inv {t, u} evs (phases a) s"
    "v \<in> in_use evs \<longleftrightarrow> phases a v \<noteq> Resting" "v \<in> awaiting (pool_events evs) \<longleftrightarrow> phases a v = Pending"
    "\<And>i v w'. worker_step i (fst s) (Work i v) w' \<Longrightarrow> phases a v = Pending"
    "\<And>c v w'. loop_step c (fst s) (Done c v) w' \<Longrightarrow> phases a v = Finished_work"
    by (rule run_phases [OF ok start]) blast
  have v: "v \<in> {t, u}" "phases a v = Pending" using e st a(4) by (auto elim!: fs_step.cases simp: wf)
  then have use': "v \<in> in_use evs" "v \<in> awaiting (pool_events evs)" by (simp_all add: a(2,3))
  have "set_option (buffer_of (op_params (fs_ops f v))) \<subseteq> ran (reads f (in_use evs \<inter> {t, u}))"
    using use' v(1) by (auto simp: reads_def intro!: ranI [of _ v])
  then have "v \<in> live_ops m" "set_option (buffer_of (op_params (fs_ops f v))) \<subseteq> live_bufs m"
    using live use' v(1) by blast+
  then have touch: "touch m v (buffer_of (op_params (fs_ops (snd s) v))) r = r" for r :: "(fs_state \<times> fs_client) res"
    by (simp add: touch_def wf)
  show ?thesis
  proof (cases r1)
    case (Inl b)
    then have "b = Diverged" using fault_diverged [OF a(1)] st a(4,5) by blast
    then show ?thesis using touch Inl by (simp add: advance_def)
  next
    case (Inr s')
    then have e': "e = Worked i v x1 x2" using e st by (auto elim: fs_step.cases)
    have own: "strings (snd s) p \<noteq> None" if "owned_path (op_params (fs_ops (snd s) v)) = Some p" for p
      using a(1) v that by (auto simp: fs_inv_def strings_ok_def owns_def)
    have "run_ok P t u s0 (evs @ [e]) (s', m\<lparr>agenda := agenda m\<rparr>)"
      using st client_works [OF inv _ use' own] by (intro run_ok_snoc [OF ok]) (simp_all add: Inr e' allowed_iff)
    then show ?thesis using touch by (simp add: advance_def Inr)
  qed
qed

lemma report_step_ok:
  assumes ok: "run_ok P t u s0 evs (s, m)" and start: "fs_start s0" and ag: "agenda m = []" and v: "v \<in> {t, u}"
    and b: "b \<notin> live_bufs m" and st: "fs_step P {t, u} s (Pooled (Done c v)) r1"
  shows "fine P t u s0 (evs @ [Pooled (Done c v)])
    (touch m v None (bind_res (deref (op_cb (fs_ops (snd s) v))) (\<lambda>g.
      bind_res (sample_callback b g v (fs_ops (snd s) v)) (\<lambda>cs. advance cs m r1))))"
proof -
  have inv: "client_inv t u evs (s, m)" using ok by (simp add: run_ok_def)
  obtain a where a: "fs_inv {t, u} evs (phases a) s"
    "v \<in> in_use evs \<longleftrightarrow> phases a v \<noteq> Resting" "v \<in> awaiting (pool_events evs) \<longleftrightarrow> phases a v = Pending"
    "\<And>c v w'. loop_step c (fst s) (Done c v) w' \<Longrightarrow> phases a v = Finished_work"
    by (rule run_phases [OF ok start]) blast
  have p: "phases a v = Finished_work" using v st a(4) by (auto elim!: fs_step.cases)
  then have use': "v \<in> in_use evs" "v \<notin> awaiting (pool_events evs)" by (simp_all add: a(2,3))
  have "op_cb (fs_ops (snd s) v) \<noteq> None" using a(1) p v by (auto simp: fs_inv_def functions_ok_def)
  then obtain s' where r1: "r1 = Inr s'" using v st finish_calls by (auto elim!: fs_step.cases)
  obtain g cs where c: "op_cb (fs_ops (snd s) v) = Some g" "sample_callback b g v (fs_ops (snd s) v) = Inr cs"
      "v \<in> live_ops m" "client_inv t u (evs @ [Pooled (Done c v)]) (s', m\<lparr>agenda := cs\<rparr>)"
    using client_reports [OF inv ag v b st [unfolded r1] use'] by blast
  have "run_ok P t u s0 (evs @ [Pooled (Done c v)]) (s', m\<lparr>agenda := cs\<rparr>)"
    by (intro run_ok_snoc [OF ok st [unfolded r1]] c(4)) (simp add: allowed_iff)
  then show ?thesis using c by (simp add: touch_def advance_def r1)
qed

lemma client_step_ok:
  assumes ok: "run_ok P t u s0 evs y" and start: "fs_start s0" and st: "fs_client_step P {t, u} y es r"
  shows "fine P t u s0 (evs @ es) r \<or> r = Inl Null_deref \<and> (\<exists>v cs. agenda (snd y) = Malloc_op v # cs)"
proof -
  obtain s m where y: "y = (s, m)" by fastforce
  have run: "fs_run P {t, u} s0 evs s" "keeps_contract ({}, {}) evs" and inv: "client_inv t u evs (s, m)"
    using ok by (auto simp: run_ok_def y)
  note snoc = run_ok_snoc [OF ok [unfolded y]]
  from st [unfolded y] show ?thesis
  proof (cases rule: fs_client_step.cases)
    case (manages c cs)
    then obtain m' where "manage c m = Inr m'" "client_inv t u evs (s, m'\<lparr>agenda := cs\<rparr>)"
      using client_manages [OF inv, of c cs] by auto
    then show ?thesis using manages(1,2) run by (simp add: run_ok_def advance_def)
  next
    case (no_memory v cs)
    then show ?thesis by (simp add: y)
  next
    case (inits v cs r1)
    then obtain s' where r1: "r1 = Inr s'" using client_requests by blast
    note c = client_inits [OF inv inits(3) inits(4) [unfolded r1]]
    then have "run_ok P t u s0 (evs @ es) (s', m\<lparr>agenda := cs\<rparr>)"
      unfolding inits(1) by (intro snoc [OF inits(4) [unfolded r1]]) (simp_all add: allowed_iff)
    then show ?thesis using c inits(2) by (simp add: r1 touch_def advance_def)
  next
    case (submits v q g cs b e r1)
    then obtain s' where r1: "r1 = Inr s'" using client_requests by blast
    note c = client_submits [OF inv submits(3) submits(4) [unfolded r1]]
    then have "run_ok P t u s0 (evs @ es) (s', m\<lparr>agenda := cs\<rparr>)"
      unfolding submits(1) by (intro snoc [OF submits(4) [unfolded r1]]) (simp_all add: allowed_iff)
    then show ?thesis using c submits(2) by (simp add: r1 touch_def advance_def)
  next
    case (works e i v x1 x2 r1)
    then show ?thesis using work_step_ok [OF ok [unfolded y] start] by simp
  next
    case (reports v b c r1)
    then show ?thesis using report_step_ok [OF ok [unfolded y] start] by simp
  next
    case (others e s')
    have "proper_event (in_use evs) e" using others(6) by (cases e) auto
    then have "run_ok P t u s0 (evs @ es) (s', m)"
      unfolding others(1) using others client_others [OF inv others(3,4,5)] by (intro snoc) (simp_all add: allowed_iff)
    then show ?thesis using others(2) by simp
  qed
qed

lemma client_run_ok:
  assumes "fs_client_run P {t, u} x evs y" "run_ok P t u s0 pre x" "fs_start s0"
  shows "run_ok P t u s0 (pre @ evs) y"
  using assms
proof (induction rule: fs_client_run.induct)
  case (client_run_step evs y es z)
  then show ?case using client_step_ok [of t u s0 "pre @ evs" y es "Inr z"] by auto
qed simp

end

text \<open>Nothing frees the structure of the loop.\<close>

lemma touch_Inr: "touch m v b r = Inr z \<Longrightarrow> r = Inr z"
  by (simp add: touch_def split: if_splits)

lemma advance_loops: "advance cs m r = Inr z \<Longrightarrow> live_loops (snd z) = live_loops m"
  by (auto simp: advance_def bind_res_eq_Inr)

lemma manage_loops: "manage c m = Inr m' \<Longrightarrow> live_loops m' = live_loops m"
  by (cases c) (auto split: if_splits)

lemma client_step_loops:
  "fs_client_step P F y es r \<Longrightarrow> r = Inr z \<Longrightarrow> live_loops (snd z) = live_loops (snd y)"
proof (induction rule: fs_client_step.induct)
  case (manages m c cs s)
  then obtain m' where "manage c m = Inr m'" "advance cs m' (Inr s) = Inr z" by (auto simp: bind_res_eq_Inr)
  then show ?case using manage_loops [of c m m'] advance_loops [of cs m' "Inr s" z] by simp
next
  case (reports m t b s c r)
  then obtain cs where "advance cs m r = Inr z" by (auto simp: bind_res_eq_Inr dest!: touch_Inr)
  then show ?case using advance_loops [of cs m r z] by simp
next
  case (inits m t cs s r)
  show ?case using advance_loops [OF touch_Inr [OF inits(3)]] by simp
next
  case (submits m t q g cs s a e r)
  show ?case using advance_loops [OF touch_Inr [OF submits(3)]] by simp
next
  case (works e i t st x s r m)
  show ?case using advance_loops [OF touch_Inr [OF works(3)]] by simp
qed auto

lemma client_run_loops:
  "fs_client_run P F x evs y \<Longrightarrow> live_loops (snd y) = live_loops (snd x)"
  by (induction rule: fs_client_run.induct) (auto dest: client_step_loops [OF _ refl])

lemma program_ok:
  assumes "fs_start s" "t \<noteq> u"
  shows "run_ok P t u s [Pooled Tau] (fs_program rd wr t u s)"
proof -
  have "pool_step (fst s) Tau (pd_threadpool_init 4 (fst s))"
    using assms(1) by (auto simp: pool_step_def fs_start_def pool_start_def intro: init)
  then have "fs_step P {t, u} (fst s, snd s) (Pooled Tau) (Inr (pd_threadpool_init 4 (fst s), snd s))"
    by (rule fs_step.others) (simp_all add: pd_threadpool_init_def Let_def)
  then have "fs_run P {t, u} s ([] @ [Pooled Tau]) (pd_threadpool_init 4 (fst s), snd s)"
    by (intro fs_run_step [OF fs_run_start]) simp
  moreover have "keeps_contract ({}, {}) [Pooled Tau]" by simp
  moreover have "client_inv t u [Pooled Tau] (fs_program rd wr t u s)"
    using assms
    by (auto simp: fs_program_def intro!: client_invI simp: fs_start_def due_def calls_for_def List.map_filter_def first_callback_def
        pool_up_def pd_threadpool_init_def pool_start_def fs_main_def initialised_def Let_def)
  ultimately show ?thesis by (simp add: run_ok_def fs_program_def)
qed

end
