(* ===== verification/Sample_Files_Properties.thy ===== *)
theory Sample_Files_Properties
  imports Sample_Files_Correct
begin

text \<open>
  What the sample \<^verbatim>\<open>samples/fs.c\<close> promises (C15), and its runs under a given schedule, as in \<open>File_Play\<close>.
\<close>

section \<open>Schedules\<close>

text \<open>
  The program goes on, with the address \<^verbatim>\<open>strdup\<close> gets if it opens a file; or the system moves, with the address of the
  next buffer.
\<close>

datatype client_move =
    Own "nat option"
  | System move nat

definition moved_to ::
  "fs_event list \<Rightarrow> (fs_state \<times> fs_client) res \<Rightarrow> (fs_event list \<times> fs_state \<times> fs_client) option" where
  "moved_to es r = (case r of Inl x \<Rightarrow> None | Inr y \<Rightarrow> Some (es, y))"

definition library_move ::
  "fs_functions \<Rightarrow> fs_worker \<Rightarrow> task list \<Rightarrow> fs_move \<Rightarrow> task \<Rightarrow> fs_command list \<Rightarrow> fs_state \<Rightarrow> fs_client \<Rightarrow>
    (fs_event list \<times> fs_state \<times> fs_client) option" where
  "library_move C wk ts mv t cs s m =
     (case fs_one_move C wk ts mv s of
        None \<Rightarrow> None
      | Some (e, s') \<Rightarrow> moved_to [e] (touch m t None (advance cs m (Inr s'))))"

definition system_move ::
  "task list \<Rightarrow> nat \<Rightarrow> fs_event \<Rightarrow> fs_state \<Rightarrow> fs_state \<Rightarrow> fs_client \<Rightarrow> (fs_event list \<times> fs_state \<times> fs_client) option" where
  "system_move ts b e s s' m =
     (case e of
        Worked i t st x \<Rightarrow>
          moved_to [e] (touch m t (buffer_of (op_params (fs_ops (snd s) t))) (advance (agenda m) m (Inr s')))
      | Pooled (Done c t) \<Rightarrow>
          if t \<in> set ts \<and> agenda m = [] \<and> b \<notin> live_bufs m then
            moved_to [e] (touch m t None
              (bind_res (deref (op_cb (fs_ops (snd s) t))) (\<lambda>g.
               bind_res (sample_callback b g t (fs_ops (snd s) t)) (\<lambda>cs. advance cs m (Inr s')))))
          else None
      | Pooled (Accept c t) \<Rightarrow> None
      | Pooled d \<Rightarrow>
          if list_all (\<lambda>t. t \<notin> about d) ts \<and> epc (fst s') = epc (fst s) \<and>
             (agenda m = [] \<or> lpc (fst s) 0 \<noteq> L_client \<or> lpc (fst s') 0 = L_client)
          then Some ([e], s', m) else None
      | _ \<Rightarrow> None)"

fun one_client_move ::
  "fs_functions \<Rightarrow> fs_worker \<Rightarrow> task list \<Rightarrow> client_move \<Rightarrow> fs_state \<times> fs_client \<Rightarrow>
    (fs_event list \<times> fs_state \<times> fs_client) option" where
  "one_client_move C wk ts (Own a) (s, m) =
     (case agenda m of
        [] \<Rightarrow> None
      | Init_op t # cs \<Rightarrow> library_move C wk ts (Inits 0 t) t cs s m
      | Submit_op t q g # cs \<Rightarrow> library_move C wk ts (Asks 0 t (q a) (Some g)) t cs s m
      | c # cs \<Rightarrow>
          if lpc (fst s) 0 = L_client then moved_to [] (bind_res (manage c m) (\<lambda>m. advance cs m (Inr s))) else None)"
| "one_client_move C wk ts (System mv b) (s, m) =
     (case fs_one_move C wk ts (Moves mv) s of
        None \<Rightarrow> None
      | Some (e, s') \<Rightarrow> system_move ts b e s s' m)"

fun client_play ::
  "fs_functions \<Rightarrow> fs_worker \<Rightarrow> task list \<Rightarrow> client_move list \<Rightarrow> fs_state \<times> fs_client \<Rightarrow>
    (fs_event list \<times> fs_state \<times> fs_client) option" where
  "client_play C wk ts [] y = Some ([], y)"
| "client_play C wk ts (mv # mvs) y =
     (case one_client_move C wk ts mv y of
        None \<Rightarrow> None
      | Some (es, z) \<Rightarrow> map_option (\<lambda>(fs, v). (es @ fs, v)) (client_play C wk ts mvs z))"

lemma moved_to_Some [simp]: "moved_to es r = Some (fs, y) \<longleftrightarrow> r = Inr y \<and> fs = es"
  by (auto simp: moved_to_def split: sum.splits)

lemma system_move_step:
  assumes "system_move ts b e s s' m = Some (es, z)" "fs_step P (set ts) s e (Inr s')"
  shows "fs_client_step P (set ts) (s, m) es (Inr z)"
proof -
  consider i t st x where "e = Worked i t st x" | c t where "e = Pooled (Done c t)"
    | d where "e = Pooled d" "\<And>c t. d \<noteq> Accept c t" "about d \<inter> set ts = {}" "epc (fst s') = epc (fst s)"
        "agenda m \<noteq> [] \<and> lpc (fst s) 0 = L_client \<longrightarrow> lpc (fst s') 0 = L_client" "es = [e]" "z = (s', m)"
    using assms(1) by (auto simp: system_move_def list_all_iff split: fs_event.splits pool_event.splits if_splits)
  then show ?thesis
  proof cases
    case 1
    then show ?thesis using assms works [of e i _ st x "set ts" P s "Inr s'" m] by (auto simp: system_move_def)
  next
    case 2
    then show ?thesis using assms fs_client_step.reports [of m t "set ts" b P s c "Inr s'"]
      by (auto simp: system_move_def split: if_splits)
  next
    case 3
    then show ?thesis using assms(2) fs_client_step.others [of d "set ts" P s s' m] by simp
  qed
qed

lemma one_client_move_step:
  assumes "one_client_move (functions_of P) wk ts mv y = Some (es, z)" "wk \<in> works P"
  shows "fs_client_step P (set ts) y es (Inr z)"
proof -
  obtain s m where y: "y = (s, m)" by fastforce
  show ?thesis
  proof (cases mv)
    case (System x b)
    then obtain e s' where e: "fs_one_move (functions_of P) wk ts (Moves x) s = Some (e, s')"
        "system_move ts b e s s' m = Some (es, z)"
      using assms(1) by (auto simp: y split: option.splits)
    show ?thesis unfolding y by (rule system_move_step [OF e(2) fs_one_move_step [OF e(1) assms(2)]])
  next
    case (Own a)
    then obtain c cs where c: "agenda m = c # cs" using assms(1) by (auto simp: y split: list.splits)
    show ?thesis
    proof (cases c)
      case (Init_op t)
      then obtain e s' where e: "fs_one_move (functions_of P) wk ts (Inits 0 t) s = Some (e, s')"
          "touch m t None (advance cs m (Inr s')) = Inr z" "es = [e]"
        using assms(1) Own c by (auto simp: y library_move_def split: option.splits)
      moreover have "e = Initialised 0 t" using e(1) by (cases s) (auto split: if_splits)
      ultimately show ?thesis
        using fs_client_step.inits [of m t cs P "set ts" s "Inr s'"] fs_one_move_step [OF e(1) assms(2)] c Init_op by (simp add: y)
    next
      case (Submit_op t q g)
      then obtain e s' where e: "fs_one_move (functions_of P) wk ts (Asks 0 t (q a) (Some g)) s = Some (e, s')"
          "touch m t None (advance cs m (Inr s')) = Inr z" "es = [e]"
        using assms(1) Own c by (auto simp: y library_move_def split: option.splits)
      moreover obtain e1 where "e = Requested t (q a) (Some g) e1"
        using e(1) by (cases s) (auto split: if_splits prod.splits option.splits)
      ultimately show ?thesis
        using fs_client_step.submits [of m t q g cs P "set ts" s a e1 "Inr s'"] fs_one_move_step [OF e(1) assms(2)] c Submit_op
        by (simp add: y)
    qed (use assms Own c fs_client_step.manages [of m c cs s P "set ts"] in \<open>auto simp: y split: if_splits\<close>)
  qed
qed

lemma fs_client_run_append:
  "fs_client_run P F y fs z \<Longrightarrow> fs_client_run P F x es y \<Longrightarrow> fs_client_run P F x (es @ fs) z"
proof (induction rule: fs_client_run.induct)
  case (client_run_step evs y1 es' y2)
  have "fs_client_run P F x ((es @ evs) @ es') y2"
    by (rule fs_client_run.client_run_step [OF client_run_step(3) [OF client_run_step(4)] client_run_step(2)])
  then show ?case by simp
qed simp

lemma client_play_run:
  "client_play (functions_of P) wk ts mvs y = Some (es, z) \<Longrightarrow> wk \<in> works P \<Longrightarrow> fs_client_run P (set ts) y es z"
proof (induction mvs arbitrary: y es)
  case Nil
  then show ?case by (simp add: client_run_start)
next
  case (Cons mv mvs)
  then obtain es1 y1 fs where m: "one_client_move (functions_of P) wk ts mv y = Some (es1, y1)"
      "client_play (functions_of P) wk ts mvs y1 = Some (fs, z)" "es = es1 @ fs"
    by (auto split: option.splits)
  have "fs_client_run P (set ts) y ([] @ es1) y1"
    by (rule client_run_step [OF client_run_start one_client_move_step [OF m(1) Cons.prems(2)]])
  with Cons.IH [OF m(2) Cons.prems(2)] show ?case unfolding m(3) using fs_client_run_append by fastforce
qed

section \<open>The property\<close>


section \<open>A run\<close>

text \<open>
  The second file cannot be opened (13 is \<^verbatim>\<open>EACCES\<close>); the first is opened, read into the buffer 20 and closed. Only
  one of the four workers is ever chosen.
\<close>

definition one_file_kernel :: kernel where
  "one_file_kernel h c =
     (case c of Sys_open p oflag mode \<Rightarrow> if p = Some ''read.txt'' then 5 else - 13 | Sys_read d n \<Rightarrow> 3 | _ \<Rightarrow> 0)"

abbreviation a_loop :: client_move where
  "a_loop \<equiv> System (Loop_moves 0) 21"

abbreviation a_worker :: client_move where
  "a_worker \<equiv> System (Worker_moves 0) 20"

abbreviation submitting :: "client_move list" where
  "submitting \<equiv> [a_loop, a_loop, a_loop, a_loop]"

abbreviation working :: "client_move list" where
  "working \<equiv> [a_worker, a_worker, a_worker, a_worker, a_worker, a_worker, a_worker]"

abbreviation collecting :: "client_move list" where
  "collecting \<equiv> [a_loop, a_loop, a_loop, a_loop, a_loop, a_loop]"

definition one_file :: "client_move list" where
  "one_file = [Own None, Own None, Own (Some 2)] @ submitting @ [Own None, Own None, Own (Some 3)] @ submitting @
     working @ working @ collecting @ [System (Loop_moves 0) 20, Own None, Own None, Own None] @ submitting @
     [a_loop, a_loop, a_loop, Own None, a_loop, a_loop, a_loop] @ working @ collecting @ [Own None, Own None] @ submitting @
     [Own None, a_loop, a_loop, a_loop] @ working @ collecting @ [Own None]"

definition one_file_run :: "(fs_event list \<times> fs_state \<times> fs_client) option" where
  "one_file_run = client_play unix_functions (unix_work one_file_kernel (\<lambda>_. 0)) [7, 8] one_file
     (fs_program 0 513 7 8 (sample_pool, sample_files))"

definition at_end :: "fs_event list \<times> fs_state \<times> fs_client \<Rightarrow> bool" where
  "at_end r =
     (case r of (es, s, m) \<Rightarrow> agenda m = [] \<and> 7 \<notin> in_use es \<and> 8 \<notin> in_use es \<and>
        calls_for 7 (snd s) = [(cb_on_open, 0), (cb_on_read, 0), (cb_on_close, 0)] \<and>
        calls_for 8 (snd s) = [(cb_start_writing, - 13)])"

lemma first_signals: "eventfd_write 0 = 1" "eventfd_write 1 = 2"
  by code_simp+

lemmas run_library = unix_functions_def pd_fs_init_def pd_fs_open_def pd_fs_read_def pd_fs_close_def strdup_def free_def
  path_at_def pd_fs_open_work_def pd_fs_read_work_def pd_fs_close_work_def pd_fs_work_done_def file_call.simps loop_res_def
  EINTR_def pd_errmap_def Let_def

lemmas run_pool = pd_threadpool_init_def move_worker_def move_loop_def move_client_def signal_first_def queue_empty_def
  queue_init_def queue_init_node_def queue_push_def queue_pop_def first_signals sample_pool_def sample_loop_def
  sample_files_def work_named_def

lemmas run_client = fs_program_def fs_main_def library_move_def system_move_def moved_to_def touch_def advance_def
  on_open_cb_def on_read_cb_def on_close_cb_def start_writing_cb_def sample_callback_def callback_numbers one_file_kernel_def

lemma one_file_ends: "case one_file_run of None \<Rightarrow> False | Some r \<Rightarrow> at_end r"
  by (simp add: one_file_run_def one_file_def run_library run_pool run_client at_end_def calls_for_def List.map_filter_def)


end
