(* ===== verification/System.thy ===== *)
theory System
  imports Kernel Errors
begin

text \<open>
  What the library adds to single calls of the system: \<^verbatim>\<open>pd_random\<close> (\<^verbatim>\<open>src/random.c\<close>), \<^verbatim>\<open>pd_sleep\<close> and \<^verbatim>\<open>pd_once\<close>
  (\<^verbatim>\<open>src/sys/thread_unix.c\<close>, \<^verbatim>\<open>thread_win32.c\<close>), the names of platform and process (\<^verbatim>\<open>src/internal.c\<close>) and dynamic libraries
  (\<^verbatim>\<open>src/dlib.c\<close>).
\<close>

section \<open>Random bytes\<close>

definition pd_random :: "kernel \<Rightarrow> size_t \<Rightarrow> 'x tcp_world_scheme \<Rightarrow> (int \<times> 'x tcp_world_scheme) res" where
  "pd_random kern len w =
     (if len = 0 then Inr (0, w)
      else
        (case sys kern (Sys_open (Some ''/dev/urandom'') 0 0) w of (f, w) \<Rightarrow>
           if f = -1 then Inr (pd_errno w, w)
           else
             bind_res (loop_res (sys_retry kern (Sys_read f (unat len)) w)) (\<lambda>(st, w).
               if st = -1 then (case sys kern (Sys_close f) w of (_, w) \<Rightarrow> Inr (pd_errno w, w))
               else (case sys kern (Sys_close f) w of (_, w) \<Rightarrow> Inr (0, w)))))"

text \<open>On Windows: what \<open>pd_once\<close> and \<^verbatim>\<open>CryptGenRandom\<close> return, and the code \<^verbatim>\<open>PD_EIO\<close> of the platform.\<close>

definition win_random :: "int \<Rightarrow> bool \<Rightarrow> int \<Rightarrow> size_t \<Rightarrow> int" where
  "win_random once generated eio len =
     (if once = -1 then -7000
      else if len = 0 then 0
      else if generated then 0
      else eio)"

definition pd_once :: "int \<Rightarrow> int" where
  "pd_once errcode = (if errcode \<noteq> 0 then pd_errmap errcode else 0)"

definition win_once :: "(string \<Rightarrow> int option) \<Rightarrow> (string \<Rightarrow> uint32) \<Rightarrow> bool \<Rightarrow> uint32 \<Rightarrow> int" where
  "win_once tab win executed err = (if executed then 0 else pd_errmap_win tab win err)"

text \<open>
  What a caller can rely on: nothing has been written to when the result is negative, but the result 0 does not say
  that all bytes are random. A read that was cut short, as a signal does to long ones, goes unnoticed.
\<close>

lemma random_ignores_short_read:
  assumes "len \<noteq> 0" "kern (hist w) (Sys_open (Some ''/dev/urandom'') 0 0) = f" "0 \<le> f"
    and "kern (hist w @ [(Sys_open (Some ''/dev/urandom'') 0 0, f)]) (Sys_read f (unat len)) = n" "0 \<le> n"
  shows "\<exists>w'. pd_random kern len w = Inr (0, w')"
  using assms
  by (simp add: pd_random_def sys_def Let_def sys_retry.simps split: prod.split)

text \<open>On Windows a failure of \<open>pd_once\<close> is a negative code of the library, hardly ever the -1 it is compared with.\<close>

lemma win_random_ignores_once: "once \<noteq> -1 \<Longrightarrow> win_random once generated eio len = win_random 0 generated eio len"
  by (simp add: win_random_def)

section \<open>Sleeping\<close>

text \<open>\<open>rem h\<close>: the time that the last call of \<open>h\<close>, a \<^verbatim>\<open>nanosleep\<close>, has stored as left, or the old value.\<close>

partial_function (option) sleep_loop ::
  "kernel \<Rightarrow> (history \<Rightarrow> int \<times> int) \<Rightarrow> int \<times> int \<Rightarrow> 'x tcp_world_scheme \<Rightarrow> 'x tcp_world_scheme option" where
  "sleep_loop kern rem ts w =
     (case sys kern (Sys_nanosleep ts) w of (st, w) \<Rightarrow>
        if st = -1 \<and> errno w = EINTR then sleep_loop kern rem (rem (hist w)) w else Some w)"

definition pd_sleep ::
  "kernel \<Rightarrow> (history \<Rightarrow> int \<times> int) \<Rightarrow> uint32 \<Rightarrow> 'x tcp_world_scheme \<Rightarrow> 'x tcp_world_scheme res" where
  "pd_sleep kern rem msec w =
     loop_res (sleep_loop kern rem (uint msec div 1000, uint msec mod 1000 * 1000000) w)"

text \<open>
  What is documented of \<^verbatim>\<open>nanosleep\<close>, for a time whose nanoseconds are less than a second: \<open>slept h\<close>, the nanoseconds
  that have passed in the calls \<open>h\<close>, grows by the time asked for; or the call was interrupted, and what is left has been
  stored.
\<close>

definition nanos :: "int \<times> int \<Rightarrow> int" where
  "nanos ts = fst ts * 1000000000 + snd ts"

definition valid_time :: "int \<times> int \<Rightarrow> bool" where
  "valid_time ts \<longleftrightarrow> 0 \<le> fst ts \<and> 0 \<le> snd ts \<and> snd ts < 1000000000"

definition nanosleep_documented :: "kernel \<Rightarrow> (history \<Rightarrow> int \<times> int) \<Rightarrow> (history \<Rightarrow> int) \<Rightarrow> bool" where
  "nanosleep_documented kern rem slept \<longleftrightarrow>
     (\<forall>h ts. valid_time ts \<longrightarrow>
        (let r = kern h (Sys_nanosleep ts); h' = h @ [(Sys_nanosleep ts, r)]
         in if 0 \<le> r then slept h' \<ge> slept h + nanos ts
            else r = - EINTR \<and> valid_time (rem h') \<and> slept h' + nanos (rem h') \<ge> slept h + nanos ts))"

lemma sleep_loop_long_enough:
  assumes "sleep_loop kern rem ts w = Some w'" "nanosleep_documented kern rem slept" "valid_time ts"
  shows "slept (hist w) + nanos ts \<le> slept (hist w')"
proof -
  have "nanosleep_documented kern rem slept \<longrightarrow> valid_time ts \<longrightarrow> slept (hist w) + nanos ts \<le> slept (hist w')"
    if "sleep_loop kern rem ts w = Some w'" for kern rem ts and w w' :: "'a tcp_world_scheme"
  proof (rule sleep_loop.raw_induct [OF _ that], intro impI)
    fix step kern rem ts and w w' :: "'a tcp_world_scheme"
    assume IH: "\<And>kern rem ts w w'. step kern rem ts w = Some w' \<Longrightarrow>
        nanosleep_documented kern rem slept \<longrightarrow> valid_time ts \<longrightarrow> slept (hist w) + nanos ts \<le> slept (hist w')"
      and eq: "(case sys kern (Sys_nanosleep ts) w of (st, w) \<Rightarrow>
          if st = -1 \<and> errno w = EINTR then step kern rem (rem (hist w)) w else Some w) = Some w'"
      and doc: "nanosleep_documented kern rem slept" and valid: "valid_time ts"
    define r where "r = kern (hist w) (Sys_nanosleep ts)"
    let ?h = "hist w @ [(Sys_nanosleep ts, r)]"
    have d: "if 0 \<le> r then slept ?h \<ge> slept (hist w) + nanos ts
        else r = - EINTR \<and> valid_time (rem ?h) \<and> slept ?h + nanos (rem ?h) \<ge> slept (hist w) + nanos ts"
      using doc valid unfolding nanosleep_documented_def Let_def r_def by blast
    show "slept (hist w) + nanos ts \<le> slept (hist w')"
    proof (cases "0 \<le> r")
      case True
      then have "sys kern (Sys_nanosleep ts) w = (r, w\<lparr>hist := ?h\<rparr>)" by (simp add: sys_def r_def Let_def)
      with eq True have "hist w' = ?h" by auto
      with d True show ?thesis by simp
    next
      case False
      then have s: "sys kern (Sys_nanosleep ts) w = (-1, w\<lparr>hist := ?h, errno := - r\<rparr>)" by (simp add: sys_def r_def Let_def)
      have r: "r = - EINTR" using d False by simp
      have "step kern rem (rem ?h) (w\<lparr>hist := ?h, errno := - r\<rparr>) = Some w'"
        using eq unfolding s by (simp add: r)
      from IH [OF this] have "slept ?h + nanos (rem ?h) \<le> slept (hist w')" using doc d False by simp
      moreover have "slept ?h + nanos (rem ?h) \<ge> slept (hist w) + nanos ts"
        using d unfolding if_not_P [OF False] by blast
      ultimately show ?thesis by linarith
    qed
  qed
  then show ?thesis using assms by blast
qed

text \<open>However often it is interrupted, \<open>pd_sleep\<close> returns only after the time it was called for.\<close>

lemma sleep_long_enough:
  assumes "pd_sleep kern rem msec w = Inr w'" "nanosleep_documented kern rem slept"
  shows "slept (hist w) + uint msec * 1000000 \<le> slept (hist w')"
proof -
  have "sleep_loop kern rem (uint msec div 1000, uint msec mod 1000 * 1000000) w = Some w'"
    using assms(1) by (auto simp: pd_sleep_def loop_res_def split: option.splits)
  moreover have "valid_time (uint msec div 1000, uint msec mod 1000 * 1000000)"
    by (simp add: valid_time_def pos_imp_zdiv_nonneg_iff)
  moreover have "nanos (uint msec div 1000, uint msec mod 1000 * 1000000) = uint msec * 1000000"
    using div_mult_mod_eq [of "uint msec" 1000] unfolding nanos_def fst_conv snd_conv by linarith
  ultimately show ?thesis using sleep_loop_long_enough [OF _ assms(2)] by fastforce
qed

section \<open>Platform, process and dynamic libraries (\<^verbatim>\<open>src/internal.c\<close>, \<^verbatim>\<open>src/dlib.c\<close>)\<close>

text \<open>\<open>macros\<close>: what the compiler defines.\<close>

definition pd_get_platform :: "string set \<Rightarrow> string" where
  "pd_get_platform macros =
     (if ''_WIN32'' \<in> macros then ''win32''
      else if ''__APPLE__'' \<in> macros \<or> ''__MACH__'' \<in> macros then ''darwin''
      else if ''__linux__'' \<in> macros then ''linux''
      else if ''__FreeBSD__'' \<in> macros then ''freebsd''
      else if ''__OpenBSD__'' \<in> macros then ''openbsd''
      else if ''__unix__'' \<in> macros then ''unix''
      else ''unknown'')"

text \<open>What the system says of the process, its parent, and libraries; a handle or an address that is \<^verbatim>\<open>NULL\<close> is 0.\<close>

record process =
  own_pid :: int
  parent_pid :: int

record loader =
  load_library :: "string \<Rightarrow> nat"
  get_proc_address :: "nat \<Rightarrow> string \<Rightarrow> nat"
  free_library :: "nat \<Rightarrow> bool"
  format_message :: "uint32 \<Rightarrow> string option"
  dl_open :: "string \<Rightarrow> nat"
  dl_sym :: "nat \<Rightarrow> string \<Rightarrow> nat"
  dl_close :: "nat \<Rightarrow> int"
  dl_error :: "string option"

definition pd_getpid :: "process \<Rightarrow> int" where
  "pd_getpid p = own_pid p"

definition pd_dlopen :: "string set \<Rightarrow> loader \<Rightarrow> string \<Rightarrow> nat" where
  "pd_dlopen macros l name = (if ''_WIN32'' \<in> macros then load_library l name else dl_open l name)"

definition pd_dlsym :: "string set \<Rightarrow> loader \<Rightarrow> nat \<Rightarrow> string \<Rightarrow> nat" where
  "pd_dlsym macros l lib name = (if ''_WIN32'' \<in> macros then get_proc_address l lib name else dl_sym l lib name)"

definition pd_dlclose :: "string set \<Rightarrow> loader \<Rightarrow> nat \<Rightarrow> int" where
  "pd_dlclose macros l lib =
     (if ''_WIN32'' \<in> macros then (if free_library l lib then 0 else 1) else dl_close l lib)"

text \<open>On Windows the message is written to a static buffer, \<open>error\<close>, which stays as it was when there is none.\<close>

definition pd_dlerror :: "string set \<Rightarrow> loader \<Rightarrow> uint32 \<Rightarrow> string \<Rightarrow> string option \<times> string" where
  "pd_dlerror macros l code error =
     (if ''_WIN32'' \<in> macros then
        (let error = (case format_message l code of None \<Rightarrow> error | Some m \<Rightarrow> m) in (Some error, error))
      else (dl_error l, error))"

text \<open>
  The header says that \<open>pd_getpid\<close> returns the process ID of the parent; it returns that of the process. A failure of
  \<open>pd_dlclose\<close> is positive on Windows, unlike every other error code of the library.
\<close>

lemma getpid_is_not_the_parent: "parent_pid p \<noteq> own_pid p \<Longrightarrow> pd_getpid p \<noteq> parent_pid p"
  by (simp add: pd_getpid_def)

lemma dlclose_on_windows: "''_WIN32'' \<in> macros \<Longrightarrow> pd_dlclose macros l lib \<in> {0, 1}"
  by (simp add: pd_dlclose_def)

end
