(* ===== verification/Threads.thy ===== *)
theory Threads
  imports Threadpool_Control
begin

text \<open>
  The wrappers of mutexes, condition variables and threads, \<^verbatim>\<open>src/sys/thread_unix.c\<close> and \<^verbatim>\<open>src/sys/thread_win32.c\<close>: each is
  one call of the system, and what that call does is modelled as POSIX and Windows document it, including where it is
  undefined. Locale \<open>sync_platform\<close> is what the threadpool needs of a platform, interpreted on both; every
  interleaving of the pool is shown to need no more.

  A mutex and a condition variable exist once, as in \<^verbatim>\<open>src/threadpool.c\<close>. A call returns, or it cannot return yet, or it
  is undefined. What the scheduler decides is an argument: which thread a signal wakes, and whether there are resources
  for another thread.
\<close>

datatype 's call_outcome = Returns 's | Blocks | Undefined

fun bind_outcome :: "'s call_outcome \<Rightarrow> ('s \<Rightarrow> 't call_outcome) \<Rightarrow> 't call_outcome" where
  "bind_outcome (Returns s) f = f s"
| "bind_outcome Blocks f = Blocks"
| "bind_outcome Undefined f = Undefined"

text \<open>A thread that was not created or that was joined, one that runs, and one whose function has returned.\<close>

datatype life = Gone | Running | Returned

section \<open>POSIX (\<^verbatim>\<open>src/sys/thread_unix.c\<close>)\<close>

text \<open>A condition variable that was initialised is the set of the threads that wait for it.\<close>

datatype posix_mutex = P_none | P_free | P_held thread

record posix =
  p_mutex :: posix_mutex
  p_cond :: "thread set option"
  p_life :: "thread \<Rightarrow> life"

definition pd_mutex_init :: "posix \<Rightarrow> posix call_outcome" where
  "pd_mutex_init s = (if p_mutex s = P_none then Returns (s\<lparr>p_mutex := P_free\<rparr>) else Undefined)"

text \<open>A thread that locks a mutex it holds waits for itself.\<close>

definition pd_mutex_lock :: "thread \<Rightarrow> posix \<Rightarrow> posix call_outcome" where
  "pd_mutex_lock t s =
     (case p_mutex s of P_none \<Rightarrow> Undefined | P_held u \<Rightarrow> Blocks | P_free \<Rightarrow> Returns (s\<lparr>p_mutex := P_held t\<rparr>))"

definition pd_mutex_unlock :: "thread \<Rightarrow> posix \<Rightarrow> posix call_outcome" where
  "pd_mutex_unlock t s = (if p_mutex s = P_held t then Returns (s\<lparr>p_mutex := P_free\<rparr>) else Undefined)"

definition pd_mutex_destroy :: "posix \<Rightarrow> posix call_outcome" where
  "pd_mutex_destroy s = (if p_mutex s = P_free then Returns (s\<lparr>p_mutex := P_none\<rparr>) else Undefined)"

definition pd_cond_init :: "posix \<Rightarrow> posix call_outcome" where
  "pd_cond_init s = (if p_cond s = None then Returns (s\<lparr>p_cond := Some {}\<rparr>) else Undefined)"

text \<open>Until the thread sleeps; when it was woken it locks the mutex before the call returns.\<close>

definition pd_cond_wait :: "thread \<Rightarrow> posix \<Rightarrow> posix call_outcome" where
  "pd_cond_wait t s =
     (case p_cond s of
        None \<Rightarrow> Undefined
      | Some W \<Rightarrow> if p_mutex s = P_held t then Returns (s\<lparr>p_mutex := P_free, p_cond := Some (insert t W)\<rparr>) else Undefined)"

definition pd_cond_signal :: "thread \<Rightarrow> posix \<Rightarrow> posix call_outcome" where
  "pd_cond_signal woken s =
     (case p_cond s of
        None \<Rightarrow> Undefined
      | Some W \<Rightarrow>
          if W = {} then Returns s else if woken \<in> W then Returns (s\<lparr>p_cond := Some (W - {woken})\<rparr>) else Blocks)"

definition pd_cond_broadcast :: "posix \<Rightarrow> posix call_outcome" where
  "pd_cond_broadcast s = (case p_cond s of None \<Rightarrow> Undefined | Some W \<Rightarrow> Returns (s\<lparr>p_cond := Some {}\<rparr>))"

definition pd_cond_destroy :: "posix \<Rightarrow> posix call_outcome" where
  "pd_cond_destroy s = (if p_cond s = Some {} then Returns (s\<lparr>p_cond := None\<rparr>) else Undefined)"

text \<open>What \<^verbatim>\<open>pthread_create\<close> returns is not looked at; when it fails the identifier is left unset.\<close>

definition pd_thread_create :: "bool \<Rightarrow> thread \<Rightarrow> posix \<Rightarrow> posix call_outcome" where
  "pd_thread_create able t s =
     (if p_life s t \<noteq> Gone then Undefined else if able then Returns (s\<lparr>p_life := (p_life s)(t := Running)\<rparr>) else Returns s)"

definition pd_thread_join :: "thread \<Rightarrow> posix \<Rightarrow> posix call_outcome" where
  "pd_thread_join t s =
     (case p_life s t of Gone \<Rightarrow> Undefined | Running \<Rightarrow> Blocks | Returned \<Rightarrow> Returns (s\<lparr>p_life := (p_life s)(t := Gone)\<rparr>))"

text \<open>What happens to a thread outside these functions: it wakes up on its own, and its function returns.\<close>

definition posix_wakes :: "thread \<Rightarrow> posix \<Rightarrow> posix call_outcome" where
  "posix_wakes t s =
     (case p_cond s of
        None \<Rightarrow> Undefined
      | Some W \<Rightarrow> if t \<in> W then Returns (s\<lparr>p_cond := Some (W - {t})\<rparr>) else Blocks)"

definition posix_exits :: "thread \<Rightarrow> posix \<Rightarrow> posix call_outcome" where
  "posix_exits t s = (if p_life s t = Running then Returns (s\<lparr>p_life := (p_life s)(t := Returned)\<rparr>) else Undefined)"

section \<open>Windows (\<^verbatim>\<open>src/sys/thread_win32.c\<close>)\<close>

text \<open>
  A critical section counts how often its owner has entered it; a condition variable is never destroyed. A thread has
  a handle, and until its function returns a \<^verbatim>\<open>pd__thread_runner\<close> that \<open>pd_thread_create\<close> has allocated.
\<close>

datatype critical_section = Cs_none | Cs_free | Cs_owned thread nat

record windows =
  w_section :: critical_section
  w_cond :: "thread set option"
  w_life :: "thread \<Rightarrow> life"
  w_handle :: "thread \<Rightarrow> bool"
  w_runner :: "thread \<Rightarrow> bool"

definition win_mutex_init :: "windows \<Rightarrow> windows call_outcome" where
  "win_mutex_init s = (if w_section s = Cs_none then Returns (s\<lparr>w_section := Cs_free\<rparr>) else Undefined)"

definition win_mutex_lock :: "thread \<Rightarrow> windows \<Rightarrow> windows call_outcome" where
  "win_mutex_lock t s =
     (case w_section s of
        Cs_none \<Rightarrow> Undefined
      | Cs_free \<Rightarrow> Returns (s\<lparr>w_section := Cs_owned t 1\<rparr>)
      | Cs_owned u n \<Rightarrow> if u = t then Returns (s\<lparr>w_section := Cs_owned t (n + 1)\<rparr>) else Blocks)"

definition win_mutex_unlock :: "thread \<Rightarrow> windows \<Rightarrow> windows call_outcome" where
  "win_mutex_unlock t s =
     (case w_section s of
        Cs_owned u n \<Rightarrow>
          if u \<noteq> t then Undefined
          else if n = 1 then Returns (s\<lparr>w_section := Cs_free\<rparr>)
          else Returns (s\<lparr>w_section := Cs_owned t (n - 1)\<rparr>)
      | _ \<Rightarrow> Undefined)"

definition win_mutex_destroy :: "windows \<Rightarrow> windows call_outcome" where
  "win_mutex_destroy s = (if w_section s = Cs_free then Returns (s\<lparr>w_section := Cs_none\<rparr>) else Undefined)"

definition win_cond_init :: "windows \<Rightarrow> windows call_outcome" where
  "win_cond_init s = (if w_cond s \<in> {None, Some {}} then Returns (s\<lparr>w_cond := Some {}\<rparr>) else Undefined)"

text \<open>The caller has to own the critical section exactly once.\<close>

definition win_cond_wait :: "thread \<Rightarrow> windows \<Rightarrow> windows call_outcome" where
  "win_cond_wait t s =
     (case w_cond s of
        None \<Rightarrow> Undefined
      | Some W \<Rightarrow>
          if w_section s = Cs_owned t 1 then Returns (s\<lparr>w_section := Cs_free, w_cond := Some (insert t W)\<rparr>) else Undefined)"

definition win_cond_signal :: "thread \<Rightarrow> windows \<Rightarrow> windows call_outcome" where
  "win_cond_signal woken s =
     (case w_cond s of
        None \<Rightarrow> Undefined
      | Some W \<Rightarrow>
          if W = {} then Returns s else if woken \<in> W then Returns (s\<lparr>w_cond := Some (W - {woken})\<rparr>) else Blocks)"

definition win_cond_broadcast :: "windows \<Rightarrow> windows call_outcome" where
  "win_cond_broadcast s = (case w_cond s of None \<Rightarrow> Undefined | Some W \<Rightarrow> Returns (s\<lparr>w_cond := Some {}\<rparr>))"

definition win_cond_destroy :: "windows \<Rightarrow> windows call_outcome" where
  "win_cond_destroy s = Returns s"

text \<open>\<open>memory\<close>: whether \<^verbatim>\<open>malloc\<close> succeeds, \<open>able\<close>: whether \<^verbatim>\<open>_beginthreadex\<close> does.\<close>

definition win_thread_create :: "bool \<Rightarrow> bool \<Rightarrow> thread \<Rightarrow> windows \<Rightarrow> windows call_outcome" where
  "win_thread_create memory able t s =
     (if \<not> memory then Returns (s\<lparr>w_handle := (w_handle s)(t := False)\<rparr>)
      else
        let s = s\<lparr>w_runner := (w_runner s)(t := True)\<rparr>;
            s = (if able then s\<lparr>w_life := (w_life s)(t := Running)\<rparr> else s\<lparr>w_runner := (w_runner s)(t := False)\<rparr>)
        in Returns (s\<lparr>w_handle := (w_handle s)(t := able)\<rparr>))"

text \<open>A wait for a handle that is \<^verbatim>\<open>NULL\<close> fails at once; the handle is kept.\<close>

definition win_thread_join :: "thread \<Rightarrow> windows \<Rightarrow> windows call_outcome" where
  "win_thread_join t s =
     (if \<not> w_handle s t then Returns s
      else
        (case w_life s t of
           Running \<Rightarrow> Blocks
         | _ \<Rightarrow> Returns (s\<lparr>w_life := (w_life s)(t := Gone)\<rparr>)))"

lemma win_create_failed:
  "win_thread_create memory False t s = Returns s' \<Longrightarrow>
    \<not> w_handle s' t \<and> (memory \<longrightarrow> \<not> w_runner s' t) \<and> win_thread_join t s' = Returns s'"
  by (auto simp: win_thread_create_def win_thread_join_def Let_def split: if_splits)

definition win_wakes :: "thread \<Rightarrow> windows \<Rightarrow> windows call_outcome" where
  "win_wakes t s =
     (case w_cond s of
        None \<Rightarrow> Undefined
      | Some W \<Rightarrow> if t \<in> W then Returns (s\<lparr>w_cond := Some (W - {t})\<rparr>) else Blocks)"

text \<open>The end of \<^verbatim>\<open>pd__thread_run\<close>: the runner is freed and the thread returns.\<close>

definition win_thread_run :: "thread \<Rightarrow> windows \<Rightarrow> windows call_outcome" where
  "win_thread_run t s =
     (if w_life s t = Running \<and> w_runner s t
      then Returns (s\<lparr>w_runner := (w_runner s)(t := False), w_life := (w_life s)(t := Returned)\<rparr>)
      else Undefined)"

section \<open>What the threadpool needs\<close>

text \<open>Whether a thread can be created: Windows also needs memory.\<close>

datatype creation = Created | No_memory | No_thread

datatype sync_call =
    Mutex_init | Mutex_lock thread | Mutex_unlock thread | Mutex_destroy
  | Cond_init | Cond_wait thread | Cond_signal thread | Cond_destroy
  | Thread_create creation thread | Thread_join thread | Spurious thread | Exits thread

text \<open>The mutex, who waits, and the threads, whatever the platform.\<close>

record sync =
  owner :: mutex
  waiters :: "thread set option"
  lives :: "thread \<Rightarrow> life"

text \<open>When a call must be defined and return, and what it must have done then.\<close>

fun contract :: "sync_call \<Rightarrow> sync \<Rightarrow> sync option" where
  "contract Mutex_init v = (if owner v = Destroyed then Some (v\<lparr>owner := Unlocked\<rparr>) else None)"
| "contract (Mutex_lock t) v = (if owner v = Unlocked then Some (v\<lparr>owner := Locked t\<rparr>) else None)"
| "contract (Mutex_unlock t) v = (if owner v = Locked t then Some (v\<lparr>owner := Unlocked\<rparr>) else None)"
| "contract Mutex_destroy v = (if owner v = Unlocked then Some (v\<lparr>owner := Destroyed\<rparr>) else None)"
| "contract Cond_init v = (if waiters v = None then Some (v\<lparr>waiters := Some {}\<rparr>) else None)"
| "contract (Cond_wait t) v =
     (case waiters v of
        None \<Rightarrow> None
      | Some W \<Rightarrow> if owner v = Locked t then Some (v\<lparr>owner := Unlocked, waiters := Some (insert t W)\<rparr>) else None)"
| "contract (Cond_signal t) v =
     (case waiters v of
        None \<Rightarrow> None
      | Some W \<Rightarrow> if W = {} then Some v else if t \<in> W then Some (v\<lparr>waiters := Some (W - {t})\<rparr>) else None)"
| "contract Cond_destroy v = (if waiters v = Some {} then Some (v\<lparr>waiters := None\<rparr>) else None)"
| "contract (Thread_create k t) v =
     (if lives v t \<noteq> Gone then None
      else if k = Created then Some (v\<lparr>lives := (lives v)(t := Running)\<rparr>) else Some v)"
| "contract (Thread_join t) v = (if lives v t = Returned then Some (v\<lparr>lives := (lives v)(t := Gone)\<rparr>) else None)"
| "contract (Spurious t) v =
     (case waiters v of None \<Rightarrow> None | Some W \<Rightarrow> if t \<in> W then Some (v\<lparr>waiters := Some (W - {t})\<rparr>) else None)"
| "contract (Exits t) v = (if lives v t = Running then Some (v\<lparr>lives := (lives v)(t := Returned)\<rparr>) else None)"

fun contracts :: "sync_call list \<Rightarrow> sync \<Rightarrow> sync option" where
  "contracts [] v = Some v"
| "contracts (c # cs) v = Option.bind (contract c v) (contracts cs)"

fun calls_of :: "(sync_call \<Rightarrow> 's \<Rightarrow> 's call_outcome) \<Rightarrow> sync_call list \<Rightarrow> 's \<Rightarrow> 's call_outcome" where
  "calls_of does [] s = Returns s"
| "calls_of does (c # cs) s = bind_outcome (does c s) (calls_of does cs)"

lemma contracts_append: "contracts (cs @ ds) v = Option.bind (contracts cs v) (contracts ds)"
  by (induction cs arbitrary: v) (simp_all split: Option.bind_split)

locale sync_platform =
  fixes does :: "sync_call \<Rightarrow> 's \<Rightarrow> 's call_outcome" and shows_as :: "'s \<Rightarrow> sync \<Rightarrow> bool"
  assumes does_contract: "shows_as s v \<Longrightarrow> contract c v = Some v' \<Longrightarrow> \<exists>s'. does c s = Returns s' \<and> shows_as s' v'"
begin

lemma does_contracts: "shows_as s v \<Longrightarrow> contracts cs v = Some v' \<Longrightarrow> \<exists>s'. calls_of does cs s = Returns s' \<and> shows_as s' v'"
proof (induction cs arbitrary: s v)
  case Nil
  then show ?case by simp
next
  case (Cons c cs)
  then obtain u where "contract c v = Some u" "contracts cs u = Some v'" by (auto split: Option.bind_splits)
  with Cons does_contract show ?case by fastforce
qed

end

text \<open>The platforms.\<close>

fun posix_call :: "sync_call \<Rightarrow> posix \<Rightarrow> posix call_outcome" where
  "posix_call Mutex_init s = pd_mutex_init s"
| "posix_call (Mutex_lock t) s = pd_mutex_lock t s"
| "posix_call (Mutex_unlock t) s = pd_mutex_unlock t s"
| "posix_call Mutex_destroy s = pd_mutex_destroy s"
| "posix_call Cond_init s = pd_cond_init s"
| "posix_call (Cond_wait t) s = pd_cond_wait t s"
| "posix_call (Cond_signal t) s = pd_cond_signal t s"
| "posix_call Cond_destroy s = pd_cond_destroy s"
| "posix_call (Thread_create k t) s = pd_thread_create (k = Created) t s"
| "posix_call (Thread_join t) s = pd_thread_join t s"
| "posix_call (Spurious t) s = posix_wakes t s"
| "posix_call (Exits t) s = posix_exits t s"

fun win_call :: "sync_call \<Rightarrow> windows \<Rightarrow> windows call_outcome" where
  "win_call Mutex_init s = win_mutex_init s"
| "win_call (Mutex_lock t) s = win_mutex_lock t s"
| "win_call (Mutex_unlock t) s = win_mutex_unlock t s"
| "win_call Mutex_destroy s = win_mutex_destroy s"
| "win_call Cond_init s = win_cond_init s"
| "win_call (Cond_wait t) s = win_cond_wait t s"
| "win_call (Cond_signal t) s = win_cond_signal t s"
| "win_call Cond_destroy s = win_cond_destroy s"
| "win_call (Thread_create k t) s = win_thread_create (k \<noteq> No_memory) (k = Created) t s"
| "win_call (Thread_join t) s = win_thread_join t s"
| "win_call (Spurious t) s = win_wakes t s"
| "win_call (Exits t) s = win_thread_run t s"

fun posix_owner :: "posix_mutex \<Rightarrow> mutex" where
  "posix_owner P_none = Destroyed"
| "posix_owner P_free = Unlocked"
| "posix_owner (P_held t) = Locked t"

definition posix_shows :: "posix \<Rightarrow> sync \<Rightarrow> bool" where
  "posix_shows s v \<longleftrightarrow> v = \<lparr>owner = posix_owner (p_mutex s), waiters = p_cond s, lives = p_life s\<rparr>"

text \<open>Nobody owns the critical section twice, every running thread has its runner and no other has.\<close>

fun win_owner :: "critical_section \<Rightarrow> mutex" where
  "win_owner Cs_none = Destroyed"
| "win_owner Cs_free = Unlocked"
| "win_owner (Cs_owned t n) = Locked t"

definition win_shows :: "windows \<Rightarrow> sync \<Rightarrow> bool" where
  "win_shows s v \<longleftrightarrow>
     owner v = win_owner (w_section s) \<and> (\<forall>t n. w_section s = Cs_owned t n \<longrightarrow> n = 1) \<and>
     (w_cond s = waiters v \<or> waiters v = None \<and> w_cond s = Some {}) \<and>
     lives v = w_life s \<and> (\<forall>t. w_runner s t \<longleftrightarrow> w_life s t = Running \<and> w_handle s t) \<and>
     (\<forall>t. w_life s t \<noteq> Gone \<longrightarrow> w_handle s t)"

interpretation posix: sync_platform posix_call posix_shows
proof
  fix s v c v'
  assume "posix_shows s v" "contract c v = Some v'"
  then show "\<exists>s'. posix_call c s = Returns s' \<and> posix_shows s' v'"
    by (cases c; cases "p_mutex s")
      (auto simp: posix_shows_def pd_mutex_init_def pd_mutex_lock_def pd_mutex_unlock_def pd_mutex_destroy_def
        pd_cond_init_def pd_cond_wait_def pd_cond_signal_def pd_cond_destroy_def pd_thread_create_def pd_thread_join_def
        posix_wakes_def posix_exits_def split: option.splits if_splits)
qed

lemma win_mutex_contract:
  assumes "win_shows s v" "contract c v = Some v'" "c \<in> {Mutex_init, Mutex_lock t, Mutex_unlock t, Mutex_destroy}"
  shows "\<exists>s'. win_call c s = Returns s' \<and> win_shows s' v'"
  using assms
  by (cases "w_section s") (auto simp: win_shows_def win_mutex_init_def win_mutex_lock_def win_mutex_unlock_def
      win_mutex_destroy_def split: if_splits)

lemma win_cond_contract:
  assumes "win_shows s v" "contract c v = Some v'" "c \<in> {Cond_init, Cond_wait t, Cond_signal t, Cond_destroy, Spurious t}"
  shows "\<exists>s'. win_call c s = Returns s' \<and> win_shows s' v'"
  using assms
  by (cases "w_section s"; cases "waiters v") (auto simp: win_shows_def win_cond_init_def win_cond_wait_def
      win_cond_signal_def win_cond_destroy_def win_wakes_def split: if_splits)

lemma win_thread_contract:
  assumes "win_shows s v" "contract c v = Some v'" "c \<in> {Thread_create k t, Thread_join t, Exits t}"
  shows "\<exists>s'. win_call c s = Returns s' \<and> win_shows s' v'"
  using assms
  by (auto simp: win_shows_def win_thread_create_def win_thread_join_def win_thread_run_def Let_def split: if_splits life.splits)

interpretation windows: sync_platform win_call win_shows
proof
  fix s v c v'
  assume "win_shows s v" "contract c v = Some v'"
  then show "\<exists>s'. win_call c s = Returns s' \<and> win_shows s' v'"
    using win_mutex_contract [of s v c v'] win_cond_contract [of s v c v'] win_thread_contract [of s v c v']
    by (cases c) simp_all
qed

text \<open>
  A thread whose creation failed and is joined nevertheless: undefined on POSIX, where its identifier was never set; on
  Windows the wait for the handle that is \<^verbatim>\<open>NULL\<close> fails at once.
\<close>

lemma failed_creation_joined:
  assumes "k \<noteq> Created" "p_life p t = Gone"
  shows "calls_of posix_call [Thread_create k t, Thread_join t] p = Undefined"
    and "\<exists>q'. calls_of win_call [Thread_create k t, Thread_join t] q = Returns q'"
  using assms
  by (auto simp: pd_thread_create_def pd_thread_join_def win_thread_create_def win_thread_join_def Let_def)

section \<open>The threadpool on a platform\<close>

definition joined :: "pool \<Rightarrow> nat \<Rightarrow> bool" where
  "joined w i \<longleftrightarrow> (case epc w of E_join k \<Rightarrow> i < k | _ \<Rightarrow> False)"

text \<open>The threads of the pool; no others are created with these functions.\<close>

fun life_in :: "pool \<Rightarrow> thread \<Rightarrow> life" where
  "life_in w (Worker i) =
     (if \<not> i < unat (nthreads w) \<or> joined w i then Gone else if wpc w i = W_exited then Returned else Running)"
| "life_in w _ = Gone"

definition waits :: "(nat \<Rightarrow> worker_pc) \<Rightarrow> thread set" where
  "waits p = Worker ` {i. p i = W_waiting}"

lemma waits_upd [simp]:
  "x \<noteq> W_waiting \<Longrightarrow> p i \<noteq> W_waiting \<Longrightarrow> waits (p(i := x)) = waits p"
  "waits (p(i := W_waiting)) = insert (Worker i) (waits p)"
  "x \<noteq> W_waiting \<Longrightarrow> p i = W_waiting \<Longrightarrow> waits (p(i := x)) = waits p - {Worker i}"
  "Worker i \<in> waits p \<longleftrightarrow> p i = W_waiting"
  by (auto simp: waits_def split: if_splits)

definition pool_sync :: "pool \<Rightarrow> sync" where
  "pool_sync w = \<lparr>owner = mux w,
     waiters = (if nthreads w = 0 then None else Some (waits (wpc w))), lives = life_in w\<rparr>"

lemma pool_sync_eqI:
  assumes "owner v = mux w" "waiters v = (if nthreads w = 0 then None else Some (waits (wpc w)))"
    and "\<And>i. lives v (Worker i) = life_in w (Worker i)" "\<And>c. lives v (Loop c) = Gone" "lives v Ender = Gone"
  shows "v = pool_sync w"
proof -
  have "lives v t = life_in w t" for t using assms(3-5) by (cases t) simp_all
  then show ?thesis using assms(1,2) by (cases v) (simp add: pool_sync_def fun_eq_iff)
qed

lemma pool_sync_simps [simp]:
  "owner (pool_sync w) = mux w" "lives (pool_sync w) = life_in w"
  "waiters (pool_sync w) = (if nthreads w = 0 then None else Some (waits (wpc w)))"
  by (simp_all add: pool_sync_def)

text \<open>
  The calls at each place of the code, in their order; \<open>t\<close> is the thread that a signal wakes, if any waits. A worker
  that leaves its loop also returns.
\<close>

fun worker_calls :: "nat \<Rightarrow> worker_pc \<Rightarrow> worker_pc \<Rightarrow> thread \<Rightarrow> sync_call list" where
  "worker_calls i W_lock q t = [Mutex_lock (Worker i)]"
| "worker_calls i W_loop W_waiting t = [Cond_wait (Worker i)]"
| "worker_calls i W_loop W_abort_unlock t = [Cond_signal t]"
| "worker_calls i W_woken q t = [Mutex_lock (Worker i)]"
| "worker_calls i W_abort_unlock q t = [Mutex_unlock (Worker i), Exits (Worker i)]"
| "worker_calls i (W_unlock a) q t = [Mutex_unlock (Worker i)]"
| "worker_calls i (W_finish_lock a) q t = [Mutex_lock (Worker i)]"
| "worker_calls i W_finish_unlock q t = [Mutex_unlock (Worker i)]"
| "worker_calls i p q t = []"

fun loop_calls :: "nat \<Rightarrow> loop_pc \<Rightarrow> bool \<Rightarrow> thread \<Rightarrow> sync_call list" where
  "loop_calls c (L_submit_lock a) waiting t = [Mutex_lock (Loop c)]"
| "loop_calls c L_submit_signal waiting t = (if waiting then [Cond_signal t] else [])"
| "loop_calls c L_submit_unlock waiting t = [Mutex_unlock (Loop c)]"
| "loop_calls c L_collect_lock waiting t = [Mutex_lock (Loop c)]"
| "loop_calls c L_collect_unlock waiting t = [Mutex_unlock (Loop c)]"
| "loop_calls c p waiting t = []"

fun ender_calls :: "nat \<Rightarrow> ender_pc \<Rightarrow> thread \<Rightarrow> sync_call list" where
  "ender_calls n E_lock t = [Mutex_lock Ender]"
| "ender_calls n E_abort t = [Cond_signal t]"
| "ender_calls n E_unlock t = [Mutex_unlock Ender]"
| "ender_calls n (E_join i) t = (if i < n then [Thread_join (Worker i)] else [Mutex_destroy, Cond_destroy])"
| "ender_calls n E_idle t = []"

text \<open>Every thread can be created. (\<open>pd_threadpool_init\<close> does not look at what \<open>pd_thread_create\<close> returns.)\<close>

definition init_calls :: "size_t \<Rightarrow> pool \<Rightarrow> sync_call list" where
  "init_calls n w =
     (if nthreads w \<noteq> 0 then []
      else [Mutex_init, Cond_init] @
        map (\<lambda>i. Thread_create Created (Worker i)) [0..<unat (if n > 0 then n else PD_THREADPOOL_SIZE)])"

definition wakes_up :: "pool \<Rightarrow> pool \<Rightarrow> thread \<Rightarrow> bool" where
  "wakes_up w w' t \<longleftrightarrow> (\<forall>j. wpc w j = W_waiting \<and> wpc w' j \<noteq> W_waiting \<longrightarrow> t = Worker j)"

inductive step_calls :: "pool \<Rightarrow> pool_event \<Rightarrow> sync_call list \<Rightarrow> pool \<Rightarrow> bool" for w where
  by_worker: "worker_step i w e w' \<Longrightarrow> wakes_up w w' t \<Longrightarrow> step_calls w e (worker_calls i (wpc w i) (wpc w' i) t) w'"
| by_loop: "loop_step c w e w' \<Longrightarrow> wakes_up w w' t \<Longrightarrow> step_calls w e (loop_calls c (lpc w c) (waiting_threads w > 0) t) w'"
| by_ender: "ender_step w w' \<Longrightarrow> wakes_up w w' t \<Longrightarrow> step_calls w Tau (ender_calls (unat (nthreads w)) (epc w) t) w'"
| by_client: "client_step c w e w' \<Longrightarrow> step_calls w e [] w'"
| by_itself: "wpc w i = W_waiting \<Longrightarrow> step_calls w Tau [Spurious (Worker i)] (w\<lparr>wpc := (wpc w)(i := W_woken)\<rparr>)"
| by_init: "epc w = E_idle \<Longrightarrow> step_calls w Tau (init_calls n w) (pd_threadpool_init n w)"
| by_end: "epc w = E_idle \<Longrightarrow> nthreads w \<noteq> 0 \<Longrightarrow> step_calls w Tau [] (w\<lparr>epc := E_lock\<rparr>)"

text \<open>A run of the pool with the calls it makes.\<close>

inductive pool_calls :: "pool \<Rightarrow> pool_event list \<Rightarrow> sync_call list \<Rightarrow> pool \<Rightarrow> bool" for w where
  pool_calls_start: "pool_calls w [] [] w"
| pool_calls_step: "pool_calls w es cs w' \<Longrightarrow> step_calls w' e ds w'' \<Longrightarrow> pool_calls w (es @ [e]) (cs @ ds) w''"

text \<open>Every run makes calls.\<close>

lemma signal_wakes:
  assumes "cond_signal w w1"
  shows "\<exists>t. \<forall>j. wpc w j = W_waiting \<and> wpc w1 j \<noteq> W_waiting \<longrightarrow> t = Worker j"
  using assms by cases (auto split: if_splits)

lemma step_wakes:
  "worker_step i w e w' \<Longrightarrow> \<exists>t. wakes_up w w' t" "loop_step c w e w' \<Longrightarrow> \<exists>t. wakes_up w w' t"
  "ender_step w w' \<Longrightarrow> \<exists>t. wakes_up w w' t"
proof -
  show "\<exists>t. wakes_up w w' t" if "worker_step i w e w'"
    using that
  proof cases
    case (w_abort w1)
    then show ?thesis using signal_wakes [of w w1] by (auto simp: wakes_up_def split: if_splits)
  qed (auto simp: wakes_up_def split: if_splits)
  show "\<exists>t. wakes_up w w' t" if "loop_step c w e w'"
    using that
  proof cases
    case (l_signal w1)
    then show ?thesis using signal_wakes [of w w1] by (auto simp: wakes_up_def)
  qed (auto simp: wakes_up_def)
  show "\<exists>t. wakes_up w w' t" if "ender_step w w'"
    using that
  proof cases
    case (e_abort w1)
    then show ?thesis using signal_wakes [of "w\<lparr>abort_threads := True\<rparr>" w1] by (auto simp: wakes_up_def)
  qed (auto simp: wakes_up_def)
qed

lemma step_makes_calls:
  assumes "pool_step w e w'"
  shows "\<exists>cs. step_calls w e cs w'"
  using assms unfolding pool_step_def
proof
  assume "internal_step w e w'"
  then show ?thesis
  proof cases
    case (of_worker i)
    then show ?thesis using step_wakes(1) by_worker by meson
  next
    case (of_loop c)
    then show ?thesis using step_wakes(2) by_loop by meson
  next
    case of_ender
    then show ?thesis using step_wakes(3) by_ender by meson
  qed
next
  assume "environment_step w e w'"
  then show ?thesis by cases (use by_client by_itself by_init by_end in meson)+
qed

lemma calls_step: "step_calls w e cs w' \<Longrightarrow> pool_step w e w'"
  by (auto elim!: step_calls.cases simp: pool_step_def intro: internal_step.intros environment_step.intros)

lemma run_makes_calls: "pool_run w es w' \<Longrightarrow> \<exists>cs. pool_calls w es cs w'"
  by (induction rule: pool_run.induct) (blast intro: pool_calls.intros dest: step_makes_calls)+

section \<open>Every call is within the contract\<close>

text \<open>One call, or none, and the states before and after.\<close>

lemma one_call: "contract c (pool_sync w) = Some v \<Longrightarrow> v = pool_sync w' \<Longrightarrow> contracts [c] (pool_sync w) = Some (pool_sync w')"
  by simp

lemma no_call: "pool_sync w = pool_sync w' \<Longrightarrow> contracts [] (pool_sync w) = Some (pool_sync w')"
  by simp

lemma signal_call:
  assumes "cond_signal w w1" "nthreads w \<noteq> 0" "workers_ok w" "wakes_up w w1 t"
  shows "contract (Cond_signal t) (pool_sync w) = Some (pool_sync w1)"
  using assms(1)
proof cases
  case signal_none
  have "wpc w i \<noteq> W_waiting" for i
    using signal_none(2) [of i] workers_live [OF assms(3), of i] by auto
  then have "waits (wpc w) = {}" by (simp add: waits_def)
  then show ?thesis using assms(2) signal_none(1) by simp
next
  case (signal_one i)
  then have "t = Worker i" using assms(4) by (simp add: wakes_up_def)
  moreover have "waits (wpc w) \<noteq> {}" using signal_one waits_upd(4) by blast
  ultimately show ?thesis using signal_one assms(2) by (auto intro!: pool_sync_eqI simp: joined_def)
qed

lemma worker_sync:
  assumes "worker_step i w e w'" "control w" "wakes_up w w' t"
  shows "contracts (worker_calls i (wpc w i) (wpc w' i) t) (pool_sync w) = Some (pool_sync w')"
proof -
  have ex: "in_section (wpc w i) \<longleftrightarrow> mux w = Locked (Worker i)"
    using assms(2) exclusiveD(1) by (simp add: control_def)
  have live: "wpc w i \<noteq> W_exited \<Longrightarrow> i < unat (nthreads w)" using assms(2) workers_live by (auto simp: control_def)
  have nj: "wpc w i \<noteq> W_exited \<Longrightarrow> \<not> joined w i"
    using assms(2) by (auto simp: control_def ender_ok_def joined_def split: ender_pc.splits)
  show ?thesis using assms(1)
  proof cases
    case (w_abort w1)
    have n: "nthreads w \<noteq> 0" using w_abort(3) live by auto
    have w1: "wpc w1 i = W_loop" using w_abort by (auto elim!: cond_signal.cases)
    have "wakes_up w w1 t" using assms(3) w_abort w1 by (auto simp: wakes_up_def split: if_splits)
    then have "contract (Cond_signal t) (pool_sync w) = Some (pool_sync w1)"
      using signal_call [OF w_abort(5) n] assms(2) unfolding control_def by blast
    moreover have "pool_sync w1 = pool_sync w'" using w_abort w1 by (intro pool_sync_eqI) (auto simp: joined_def)
    ultimately show ?thesis using w_abort by simp
  qed (use ex live nj in \<open>(auto intro!: pool_sync_eqI simp: joined_def; fail)+\<close>)
qed

lemma loop_sync:
  assumes "loop_step c w e w'" "control w" "wakes_up w w' t"
  shows "contracts (loop_calls c (lpc w c) (waiting_threads w > 0) t) (pool_sync w) = Some (pool_sync w')"
proof -
  have ex: "loop_in_section (lpc w c) \<longleftrightarrow> mux w = Locked (Loop c)"
    using assms(2) exclusiveD(2) by (simp add: control_def)
  show ?thesis using assms(1)
  proof cases
    case (l_signal w1)
    have "mux w \<noteq> Destroyed" using ex l_signal(3) by simp
    then have n: "nthreads w \<noteq> 0" using assms(2) by (simp add: control_def ender_ok_def)
    have "wakes_up w w1 t" using assms(3) l_signal by (simp add: wakes_up_def)
    then have "contract (Cond_signal t) (pool_sync w) = Some (pool_sync w1)"
      using signal_call [OF l_signal(5) n] assms(2) unfolding control_def by blast
    moreover have "pool_sync w1 = pool_sync w'" using l_signal by (intro pool_sync_eqI) (auto simp: joined_def)
    ultimately show ?thesis using l_signal by simp
  qed (use ex in \<open>(auto intro!: pool_sync_eqI simp: joined_def; fail)+\<close>)
qed

lemma ender_sync:
  assumes "ender_step w w'" "control w" "wakes_up w w' t"
  shows "contracts (ender_calls (unat (nthreads w)) (epc w) t) (pool_sync w) = Some (pool_sync w')"
proof -
  have ex: "ender_in_section (epc w) \<longleftrightarrow> mux w = Locked Ender"
    using assms(2) exclusiveD(3) by (simp add: control_def)
  have live: "epc w \<noteq> E_idle \<Longrightarrow> nthreads w \<noteq> 0" using assms(2) by (simp add: control_def ender_ok_def)
  show ?thesis using assms(1)
  proof cases
    case (e_abort w1)
    let ?u = "w\<lparr>abort_threads := True\<rparr>"
    have u: "pool_sync w = pool_sync ?u" by (intro pool_sync_eqI) (auto simp: joined_def)
    have "workers_ok ?u" using assms(2) workers_abort by (simp add: control_def)
    moreover have "wakes_up ?u w1 t" using assms(3) e_abort by (simp add: wakes_up_def)
    ultimately have "contract (Cond_signal t) (pool_sync w) = Some (pool_sync w1)"
      using signal_call [OF e_abort(3)] live e_abort(2) unfolding u by auto
    moreover have "epc w1 = E_abort" using e_abort by (simp add: cond_signal_same)
    then have "pool_sync w1 = pool_sync w'" using e_abort by (intro pool_sync_eqI) (auto simp: joined_def)
    ultimately show ?thesis using e_abort by simp
  next
    case (e_destroy k)
    then have "wpc w i = W_exited" for i
      using assms(2) workers_live [of w i] by (auto simp: control_def ender_ok_def)
    then have "waits (wpc w) = {}" by (simp add: waits_def)
    moreover have "joined w i \<longleftrightarrow> i < k" for i using e_destroy by (simp add: joined_def)
    ultimately show ?thesis using e_destroy live by (auto intro!: pool_sync_eqI simp: joined_def)
  qed (use ex in \<open>(auto intro!: pool_sync_eqI simp: joined_def; fail)+\<close>)
qed

text \<open>\<open>pd_threadpool_init\<close> creates the threads one after the other.\<close>

lemma creates:
  assumes "\<And>i. i < n \<Longrightarrow> lives v (Worker i) = Gone"
  shows "contracts (map (\<lambda>i. Thread_create Created (Worker i)) [0..<n]) v =
    Some (v\<lparr>lives := (\<lambda>t. case t of Worker i \<Rightarrow> if i < n then Running else lives v t | _ \<Rightarrow> lives v t)\<rparr>)"
  using assms
proof (induction n)
  case 0
  have "(\<lambda>t. case t of Worker i \<Rightarrow> if i < 0 then Running else lives v t | _ \<Rightarrow> lives v t) = lives v"
    by (auto simp: fun_eq_iff split: thread.split)
  then show ?case by simp
next
  case (Suc n)
  have "contracts (map (\<lambda>i. Thread_create Created (Worker i)) [0..<n]) v =
      Some (v\<lparr>lives := (\<lambda>t. case t of Worker i \<Rightarrow> if i < n then Running else lives v t | _ \<Rightarrow> lives v t)\<rparr>)"
    using Suc by simp
  then show ?case using Suc.prems
    by (auto simp: contracts_append fun_eq_iff split: thread.split)
qed

lemma init_sync:
  assumes "epc w = E_idle" "control w"
  shows "contracts (init_calls n w) (pool_sync w) = Some (pool_sync (pd_threadpool_init n w))"
proof (cases "nthreads w = 0")
  case True
  let ?n = "if n > 0 then n else PD_THREADPOOL_SIZE"
  have gone: "wpc w i = W_exited" for i using assms True by (auto simp: control_def workers_ok_def)
  have m: "mux w = Destroyed" using assms True by (simp add: control_def ender_ok_def)
  let ?v = "\<lparr>owner = Unlocked, waiters = Some {}, lives = life_in w\<rparr>"
  let ?w = "pd_threadpool_init n w"
  have init: "contracts [Mutex_init, Cond_init] (pool_sync w) = Some ?v" using True m by (simp add: pool_sync_def)
  have n: "?n \<noteq> 0" by (auto simp: PD_THREADPOOL_SIZE_def)
  have fields: "mux ?w = Unlocked" "nthreads ?w = ?n" "epc ?w = E_idle"
    "wpc ?w = (\<lambda>i. if i < unat ?n then W_lock else W_exited)"
    using True gone assms(1) by (auto simp: pd_threadpool_init_def Let_def fun_eq_iff)
  have "waits (wpc ?w) = {}" by (auto simp: waits_def fields)
  then have "?v\<lparr>lives := (\<lambda>t. case t of Worker i \<Rightarrow> if i < unat ?n then Running else lives ?v t | _ \<Rightarrow> lives ?v t)\<rparr> = pool_sync ?w"
    using n True assms(1) by (intro pool_sync_eqI) (auto simp: fields joined_def)
  then have "contracts ([Mutex_init, Cond_init] @ map (\<lambda>i. Thread_create Created (Worker i)) [0..<unat ?n]) (pool_sync w) = Some (pool_sync ?w)"
    using creates [of "unat ?n" ?v] True unfolding contracts_append init by simp
  then show ?thesis using True by (simp add: init_calls_def)
next
  case False
  then show ?thesis by (simp add: init_calls_def pd_threadpool_init_def)
qed

lemma step_calls_sync:
  assumes "step_calls w e cs w'" "control w"
  shows "contracts cs (pool_sync w) = Some (pool_sync w')"
  using assms(1)
proof cases
  case (by_client c)
  then show ?thesis by (auto elim!: client_step.cases intro!: pool_sync_eqI simp: joined_def)
next
  case (by_itself i)
  have "nthreads w \<noteq> 0" using assms(2) by_itself(4) workers_live [of w i] by (auto simp: control_def)
  then show ?thesis using by_itself by (auto intro!: pool_sync_eqI simp: joined_def)
next
  case by_end
  then show ?thesis by (auto intro!: pool_sync_eqI simp: joined_def)
qed (use worker_sync loop_sync ender_sync init_sync assms(2) in simp_all)

lemma pool_calls_sync:
  "pool_calls w es cs w' \<Longrightarrow> control w \<Longrightarrow> control w' \<and> contracts cs (pool_sync w) = Some (pool_sync w')"
proof (induction rule: pool_calls.induct)
  case (pool_calls_step es cs w1 e ds w2)
  then show ?case using step_calls_sync control_step [OF calls_step] by (simp add: contracts_append)
qed simp

section \<open>The next call of each thread\<close>

text \<open>
  The calls a thread makes next, at its place in the code, whether they can return or not; the steps of the pool exist
  only where they do.
\<close>

definition worker_next :: "pool \<Rightarrow> worker_pc" where
  "worker_next w =
     (if abort_threads w then W_abort_unlock else if ntasks w = 0 then W_waiting else W_finish_unlock)"

fun next_calls :: "pool \<Rightarrow> thread \<Rightarrow> thread \<Rightarrow> sync_call list" where
  "next_calls w (Worker i) t = worker_calls i (wpc w i) (worker_next w) t"
| "next_calls w (Loop c) t = loop_calls c (lpc w c) (waiting_threads w > 0) t"
| "next_calls w Ender t = ender_calls (unat (nthreads w)) (epc w) t"

text \<open>They are the calls of its next step.\<close>

lemma step_next_calls:
  "worker_step i w e w' \<Longrightarrow> worker_calls i (wpc w i) (wpc w' i) t = next_calls w (Worker i) t"
  by (erule worker_step.cases) (auto simp: worker_next_def)

text \<open>
  Where the next call is undefined: a loop takes the mutex that \<open>pd_threadpool_end\<close> has destroyed, or
  \<open>pd_threadpool_end\<close> destroys the mutex while a loop holds it.
\<close>

definition late_lock :: "pool \<Rightarrow> nat \<Rightarrow> bool" where
  "late_lock w c \<longleftrightarrow> mux w = Destroyed \<and> (lpc w c = L_collect_lock \<or> (\<exists>t. lpc w c = L_submit_lock t))"

definition early_destroy :: "pool \<Rightarrow> bool" where
  "early_destroy w \<longleftrightarrow> epc w = E_join (unat (nthreads w)) \<and> (\<exists>c. mux w = Locked (Loop c))"

definition unsafe :: "pool \<Rightarrow> thread \<Rightarrow> bool" where
  "unsafe w x = (case x of Worker i \<Rightarrow> False | Loop c \<Rightarrow> late_lock w c | Ender \<Rightarrow> early_destroy w)"

text \<open>Calls that are within the contract, or a single call that may have to wait, are defined.\<close>

definition waits_for :: "sync_call \<Rightarrow> sync \<Rightarrow> bool" where
  "waits_for c v \<longleftrightarrow>
     (case c of Mutex_lock t \<Rightarrow> (\<exists>u. owner v = Locked u)
      | Thread_join t \<Rightarrow> lives v t = Running
      | Cond_signal t \<Rightarrow> waiters v \<noteq> None
      | _ \<Rightarrow> False)"

definition safe_calls :: "sync_call list \<Rightarrow> sync \<Rightarrow> bool" where
  "safe_calls cs v \<longleftrightarrow> contracts cs v \<noteq> None \<or> (\<exists>c. cs = [c] \<and> waits_for c v)"

lemma waits_defined:
  assumes "waits_for c v"
  shows "posix_shows p v \<Longrightarrow> posix_call c p \<noteq> Undefined" "win_shows q v \<Longrightarrow> win_call c q \<noteq> Undefined"
proof -
  show "posix_call c p \<noteq> Undefined" if "posix_shows p v"
    using assms that by (cases c; cases "p_mutex p")
      (auto simp: waits_for_def posix_shows_def pd_mutex_lock_def pd_thread_join_def pd_cond_signal_def split: option.splits life.splits)
  show "win_call c q \<noteq> Undefined" if "win_shows q v"
    using assms that by (cases c; cases "w_section q")
      (auto simp: waits_for_def win_shows_def win_mutex_lock_def win_thread_join_def win_cond_signal_def split: option.splits life.splits)
qed

lemma one_call_of: "calls_of does [c] s = does c s"
  by (cases "does c s") simp_all

lemma safe_calls_defined:
  assumes "safe_calls cs v"
  shows "posix_shows p v \<Longrightarrow> calls_of posix_call cs p \<noteq> Undefined" "win_shows q v \<Longrightarrow> calls_of win_call cs q \<noteq> Undefined"
proof -
  show "calls_of posix_call cs p \<noteq> Undefined" if p: "posix_shows p v"
  proof (cases "contracts cs v")
    case (Some v')
    then show ?thesis using posix.does_contracts [OF p] by fastforce
  next
    case None
    then obtain c where "cs = [c]" "waits_for c v" using assms by (auto simp: safe_calls_def)
    then show ?thesis using waits_defined(1) [OF _ p] one_call_of [of posix_call c p] by metis
  qed
  show "calls_of win_call cs q \<noteq> Undefined" if q: "win_shows q v"
  proof (cases "contracts cs v")
    case (Some v')
    then show ?thesis using windows.does_contracts [OF q] by fastforce
  next
    case None
    then obtain c where "cs = [c]" "waits_for c v" using assms by (auto simp: safe_calls_def)
    then show ?thesis using waits_defined(2) [OF _ q] one_call_of [of win_call c q] by metis
  qed
qed

lemma worker_safe:
  assumes "control w"
  shows "safe_calls (next_calls w (Worker i) t) (pool_sync w)"
proof -
  have ex: "in_section (wpc w i) \<longleftrightarrow> mux w = Locked (Worker i)"
    using assms exclusiveD(1) by (simp add: control_def)
  have live: "wpc w i \<noteq> W_exited \<Longrightarrow> i < unat (nthreads w)" using assms workers_live by (auto simp: control_def)
  have nj: "wpc w i \<noteq> W_exited \<Longrightarrow> \<not> joined w i"
    using assms by (auto simp: control_def ender_ok_def joined_def split: ender_pc.splits)
  have up: "nthreads w \<noteq> 0 \<longleftrightarrow> mux w \<noteq> Destroyed" using assms by (simp add: control_def ender_ok_def)
  have lock: "mux w = Unlocked \<or> (\<exists>u. mux w = Locked u)" if "wpc w i \<noteq> W_exited"
    using live [OF that] up by (cases "mux w") auto
  have "nthreads w \<noteq> 0" if "wpc w i \<noteq> W_exited" using live [OF that] by auto
  with ex live nj lock show ?thesis
    by (cases "wpc w i") (auto simp: safe_calls_def waits_for_def worker_next_def)
qed

lemma loop_safe:
  assumes "control w" "\<not> late_lock w c"
  shows "safe_calls (next_calls w (Loop c) t) (pool_sync w)"
proof -
  have ex: "loop_in_section (lpc w c) \<longleftrightarrow> mux w = Locked (Loop c)"
    using assms(1) exclusiveD(2) by (simp add: control_def)
  have up: "nthreads w \<noteq> 0 \<longleftrightarrow> mux w \<noteq> Destroyed" using assms by (simp add: control_def ender_ok_def)
  show ?thesis using ex up assms(2)
    by (cases "lpc w c"; cases "mux w") (auto simp: safe_calls_def waits_for_def late_lock_def)
qed

lemma ender_safe:
  assumes "control w" "\<not> early_destroy w"
  shows "safe_calls (next_calls w Ender t) (pool_sync w)"
proof -
  have ex: "ender_in_section (epc w) \<longleftrightarrow> mux w = Locked Ender"
    using assms(1) exclusiveD(3) by (simp add: control_def)
  have E: "ender_ok w" and W: "workers_ok w" and X: "exclusive w" using assms(1) by (simp_all add: control_def)
  have up: "nthreads w \<noteq> 0 \<longleftrightarrow> mux w \<noteq> Destroyed" using E by (simp add: ender_ok_def)
  show ?thesis
  proof (cases "epc w")
    case (E_join k)
    show ?thesis
    proof (cases "k < unat (nthreads w)")
      case True
      then show ?thesis using E_join by (auto simp: safe_calls_def waits_for_def joined_def)
    next
      case False
      then have gone: "wpc w i = W_exited" for i using E E_join workers_live [OF W, of i] by (auto simp: ender_ok_def)
      have k: "k = unat (nthreads w)" using E E_join False by (simp add: ender_ok_def)
      have "mux w = Unlocked"
      proof (cases "mux w")
        case (Locked u)
        then show ?thesis using exclusiveD(1) [OF X] gone ex E_join assms(2) k
          by (cases u) (auto simp: early_destroy_def)
      qed (use E E_join in \<open>auto simp: ender_ok_def\<close>)
      moreover have "waits (wpc w) = {}" by (simp add: waits_def gone)
      moreover have "nthreads w \<noteq> 0" using E E_join by (simp add: ender_ok_def)
      ultimately show ?thesis using E_join False by (simp add: safe_calls_def)
    qed
  qed (use E ex up in \<open>cases "mux w"; auto simp: safe_calls_def waits_for_def ender_ok_def\<close>)+
qed

lemma unsafe_undefined:
  assumes "unsafe w x"
  shows "posix_shows p (pool_sync w) \<Longrightarrow> calls_of posix_call (next_calls w x t) p = Undefined"
    and "win_shows q (pool_sync w) \<Longrightarrow> calls_of win_call (next_calls w x t) q = Undefined"
  using assms
  by (cases x; cases "p_mutex p"; cases "w_section q";
      auto simp: unsafe_def late_lock_def early_destroy_def posix_shows_def pool_sync_def win_shows_def
        pd_mutex_lock_def pd_mutex_destroy_def win_mutex_lock_def win_mutex_destroy_def)+

theorem next_calls_undefined:
  assumes "control w"
  shows "posix_shows p (pool_sync w) \<Longrightarrow> calls_of posix_call (next_calls w x t) p = Undefined \<longleftrightarrow> unsafe w x"
    and "win_shows q (pool_sync w) \<Longrightarrow> calls_of win_call (next_calls w x t) q = Undefined \<longleftrightarrow> unsafe w x"
proof -
  have "safe_calls (next_calls w x t) (pool_sync w)" if "\<not> unsafe w x"
    using that worker_safe [OF assms] loop_safe [OF assms] ender_safe [OF assms] by (cases x) (auto simp: unsafe_def)
  then show "posix_shows p (pool_sync w) \<Longrightarrow> calls_of posix_call (next_calls w x t) p = Undefined \<longleftrightarrow> unsafe w x"
    "win_shows q (pool_sync w) \<Longrightarrow> calls_of win_call (next_calls w x t) q = Undefined \<longleftrightarrow> unsafe w x"
    using safe_calls_defined unsafe_undefined by blast+
qed

end
