(* ===== verification/Threads_Properties.thy ===== *)
theory Threads_Properties
  imports Threads Threadpool_Properties
begin

text \<open>
  The threadpool on the wrappers of both platforms: which of its calls can be undefined, whatever the interleaving. They
  are those of a loop that locks the mutex after the end of the pool, and of the end while a loop holds the mutex.
\<close>

definition posix_start :: posix where
  "posix_start = \<lparr>p_mutex = P_none, p_cond = None, p_life = \<lambda>_. Gone\<rparr>"

definition windows_start :: windows where
  "windows_start = \<lparr>w_section = Cs_none, w_cond = None, w_life = \<lambda>_. Gone, w_handle = \<lambda>_. False, w_runner = \<lambda>_. False\<rparr>"

lemma starts_show:
  assumes "pool_start w"
  shows "posix_shows posix_start (pool_sync w)" "win_shows windows_start (pool_sync w)"
proof -
  have "nthreads w = 0" "mux w = Destroyed" using assms by (simp_all add: pool_start_def)
  then have "life_in w t = Gone" for t by (cases t) simp_all
  then have "pool_sync w = \<lparr>owner = Destroyed, waiters = None, lives = \<lambda>_. Gone\<rparr>"
    using \<open>nthreads w = 0\<close> \<open>mux w = Destroyed\<close> by (simp add: pool_sync_def fun_eq_iff)
  then show "posix_shows posix_start (pool_sync w)" "win_shows windows_start (pool_sync w)"
    by (simp_all add: posix_shows_def win_shows_def posix_start_def windows_start_def)
qed


text \<open>A pool that has worked on a task and was ended: its worker is joined, the mutex is destroyed.\<close>

definition ended :: "move list" where
  "ended = busy @ Ends # replicate 1 (Worker_moves 0) @ replicate 3 Ender_moves @ replicate 3 (Worker_moves 0) @
     replicate 2 Ender_moves"

lemma ended_fields: "nthreads (pool_after ended) = 0" "mux (pool_after ended) = Destroyed"
  "length (events_of ended) = length (events_of busy) + 10" by code_simp+


text \<open>
  Both kinds occur. A task that was finished but not collected when the pool was ended: the loop is notified, and takes the
  mutex that \<open>pd_threadpool_end\<close> has destroyed. And a task that is submitted while the pool is ended: the loop has the
  mutex when the last worker has been joined.
\<close>

definition late :: "move list" where
  "late = busy @ Worker_moves 0 # Ends # replicate 3 Ender_moves @ replicate 3 (Worker_moves 0) @ replicate 2 Ender_moves @
     [Loop_moves 0]"

definition early :: "move list" where
  "early = [Starts 1, Submits 0 7, Ends] @ replicate 3 Ender_moves @ replicate 3 (Worker_moves 0) @ [Ender_moves, Loop_moves 0]"

lemma undefined_calls_occur:
  "pool_run sample_pool (events_of late) (pool_after late)" "late_lock (pool_after late) 0"
  "pool_run sample_pool (events_of early) (pool_after early)" "early_destroy (pool_after early)"
proof -
  have "lpc (pool_after late) 0 = L_collect_lock" "mux (pool_after late) = Destroyed" by code_simp+
  then show "late_lock (pool_after late) 0" by (simp add: late_lock_def)
  have "epc (pool_after early) = E_join 1" "nthreads (pool_after early) = 1" "mux (pool_after early) = Locked (Loop 0)"
    by code_simp+
  then show "early_destroy (pool_after early)" by (simp add: early_destroy_def)
qed (rule pool_sample_run)+

end
