(* ===== verification/Windows_Core.thy ===== *)
theory Windows_Core
  imports Tcp_Listener Errors
begin

text \<open>
  Windows as the sources see it, and the structures of a loop on Windows. What \<open>tcp_world\<close> holds is shared with the
  Unix variants - the queues for writing and the flags of events there are not used - and \<open>win_world\<close> adds the
  members that only exist on Windows.

  The kernel is a function of all calls so far: what a call returns, the error code it sets, if any, and
  the \<^verbatim>\<open>DWORD\<close> it stores. An operation that is started with an \<^verbatim>\<open>OVERLAPPED\<close> structure and completes later is reported
  by the completion port with that structure.
\<close>

section \<open>Calls\<close>

text \<open>The structure an \<^verbatim>\<open>OVERLAPPED\<close> is embedded in, as the first member of its event.\<close>

datatype ovl = Recv_ovl sid | Write_ovl wid | Accept_ovl nat | Connect_ovl nat | Notify_ovl nat

datatype win_sockopt =
    Wo_reuseaddr | Wo_update_accept_context | Wo_keepalive | Wo_tcp_keepalive | Wo_nodelay

datatype win_sys =
    Wsa_startup
  | Wsa_socket
  | Wsa_setsockopt int win_sockopt int
  | Wsa_bind int int
  | Wsa_listen int
  | Wsa_shutdown int
  | Wsa_closesocket int
  | Wsa_send int "byte list" ovl
  | Wsa_recv int size_t ovl
  | Accept_ex int int ovl
  | Connect_ex int string int ovl
  | Load_acceptex int
  | Load_connectex int
  | Overlapped_result int ovl
  | Cancel_io int
  | Cancel_io_ex int ovl
  | Close_handle_of int
  | Create_port
  | Associate int int
  | Set_completion_modes int
  | Post_completion int ovl
  | Get_completions int nat "int option"
  | Query_frequency
  | Query_counter
  | Win_malloc nat

text \<open>The sizes of \<^verbatim>\<open>pd_event_t\<close> and \<^verbatim>\<open>pd__accept_op_t\<close> on 64-bit Windows.\<close>

definition SIZEOF_EVENT :: nat where "SIZEOF_EVENT = 56"
definition SIZEOF_ACCEPT_OP :: nat where "SIZEOF_ACCEPT_OP = 376"

record win_reply =
  ret :: int
  err :: "uint32 option"
  stored :: uint32

type_synonym win_history = "(win_sys \<times> win_reply) list"

text \<open>The kernel, the error codes of the platform, and \<^verbatim>\<open>inet_pton\<close>.\<close>

record win_os =
  wkern :: "win_history \<Rightarrow> win_sys \<Rightarrow> win_reply"
  wcodes :: "(string \<Rightarrow> int option) \<times> (string \<Rightarrow> uint32)"
  wpton :: "string \<Rightarrow> int"

section \<open>Structures\<close>

text \<open>The handler of an event finds its structure behind \<^verbatim>\<open>event->data\<close>, which is the one it is embedded in.\<close>

datatype win_handler = Win_accept_io | Win_read_io | Win_write_io | Win_connect_io | Win_notifier_io

record win_event =
  win_handler :: "win_handler option"
  bytes :: size_t

text \<open>An accept operation: its socket and its listener. The queue node in it is never used.\<close>

record accept_op =
  op_socket :: int
  op_server :: nat
  op_event :: win_event

record win_world = tcp_world +
  revent :: "sid \<Rightarrow> win_event"
  read_buf :: "sid \<Rightarrow> nat option"
  wevent :: "wid \<Rightarrow> win_event"
  whandle :: "wid \<Rightarrow> sid"
  accept_ops :: "nat \<Rightarrow> accept_op"
  acceptex_loaded :: "nat \<Rightarrow> bool"
  connects :: "nat \<Rightarrow> (sid \<times> win_event) option"
  connectex_loaded :: bool
  nevent :: "nat \<Rightarrow> win_event"
  freq :: int
  whist :: win_history
  last_err :: uint32

definition INVALID_SOCKET :: int where "INVALID_SOCKET = -1"
definition SOCKET_ERROR :: int where "SOCKET_ERROR = -1"
definition WSA_IO_PENDING :: uint32 where "WSA_IO_PENDING = 997"
definition WAIT_TIMEOUT :: uint32 where "WAIT_TIMEOUT = 258"

lemmas win_consts = INVALID_SOCKET_def SOCKET_ERROR_def

definition PD_WRITING :: uint32 where "PD_WRITING = push_bit 0 1"
definition PD_READING :: uint32 where "PD_READING = push_bit 1 1"
definition PD_PENDING_READ :: uint32 where "PD_PENDING_READ = push_bit 2 1"

lemmas stream_flag_defs = PD_WRITING_def PD_READING_def PD_PENDING_READ_def

definition wsys :: "win_os \<Rightarrow> win_sys \<Rightarrow> 'x win_world_scheme \<Rightarrow> win_reply \<times> 'x win_world_scheme" where
  "wsys os c w =
     (let r = wkern os (whist w) c
      in (r, w\<lparr>whist := whist w @ [(c, r)], last_err := (case err r of None \<Rightarrow> last_err w | Some e \<Rightarrow> e)\<rparr>))"

abbreviation wdo :: "win_os \<Rightarrow> win_sys \<Rightarrow> 'x win_world_scheme \<Rightarrow> 'x win_world_scheme" where
  "wdo os c w \<equiv> snd (wsys os c w)"

definition win_errmap :: "win_os \<Rightarrow> uint32 \<Rightarrow> int" where
  "win_errmap os e = pd_errmap_win (fst (wcodes os)) (snd (wcodes os)) e"

definition win_pd_errno :: "win_os \<Rightarrow> 'x win_world_scheme \<Rightarrow> int" where
  "win_pd_errno os w = win_errmap os (last_err w)"

section \<open>Clock and events (\<^verbatim>\<open>src/sys/event_iocp.c\<close>)\<close>

text \<open>\<open>counter h\<close>: what the last call of \<open>h\<close>, \<^verbatim>\<open>QueryPerformanceCounter\<close>, has stored.\<close>

definition win_now :: "win_os \<Rightarrow> (win_history \<Rightarrow> int) \<Rightarrow> 'x win_world_scheme \<Rightarrow> uint64 \<times> 'x win_world_scheme" where
  "win_now os counter w =
     (case wsys os Query_counter w of (_, w) \<Rightarrow>
        ((word_of_int (counter (whist w)) * 1000) div word_of_int (freq w), w))"

definition win_event_init :: win_event where
  "win_event_init = \<lparr>win_handler = None, bytes = 0\<rparr>"

end
