(* ===== verification/Tcp_Windows.thy ===== *)
theory Tcp_Windows
  imports Windows_Core
begin

text \<open>
  TCP streams and listeners on Windows (\<^verbatim>\<open>src/sys/tcp_win32.c\<close>), one definition per function. Reading and writing are
  overlapped operations: they complete at once, fail, or are pending until the completion port reports them. A
  client's functions are called through \<open>k\<close>, as in \<open>Tcp_Unix\<close>.
\<close>

section \<open>Closing\<close>

definition win_tcp_init :: "sid \<Rightarrow> 'x win_world_scheme \<Rightarrow> 'x win_world_scheme" where
  "win_tcp_init s = set_stream s (\<lambda>t. t\<lparr>fd := INVALID_SOCKET, status := PD_TCP_NONE,
     allocator := pd_default_allocator, on_close := None, on_data := None, on_connect := None,
     writes_size := 0, stream_flags := 0\<rparr>)"

definition win_try_close :: "win_os \<Rightarrow> sid \<Rightarrow> 'x win_world_scheme \<Rightarrow> 'x win_world_scheme res" where
  "win_try_close os s w =
     (if writes_size (streams w s) > 0 then Inr w
      else if stream_flags (streams w s) AND PD_PENDING_READ \<noteq> 0 then Inr w
      else
        let w = wdo os (Wsa_closesocket (fd (streams w s))) w;
            w = wdo os (Close_handle_of (fd (streams w s))) w;
            w = w\<lparr>qnodes := queue_init_node (qnodes w) (Close_node s)\<rparr>
        in bind_res (queue_push (pending_closes (io w)) (qnodes w) (Close_node s)) (\<lambda>(q, mem).
             Inr (set_io (\<lambda>c. c\<lparr>pending_closes := q\<rparr>) (w\<lparr>qnodes := mem\<rparr>))))"

definition win_tcp_close :: "win_os \<Rightarrow> sid \<Rightarrow> 'x win_world_scheme \<Rightarrow> 'x win_world_scheme res" where
  "win_tcp_close os s w =
     (if status (streams w s) = PD_TCP_CLOSED then Inr w
      else
        let w = set_stream s (\<lambda>t. t\<lparr>status := PD_TCP_CLOSED\<rparr>) w;
            w = (if writes_size (streams w s) > 0 then wdo os (Cancel_io (fd (streams w s))) w else w);
            w = (if stream_flags (streams w s) AND PD_PENDING_READ \<noteq> 0
                 then wdo os (Cancel_io_ex (fd (streams w s)) (Recv_ovl s)) w else w);
            w = set_stream s (\<lambda>t. t\<lparr>stream_flags := stream_flags t AND NOT (PD_READING OR PD_WRITING)\<rparr>) w
        in win_try_close os s w)"

definition win_tcp_shutdown :: "win_os \<Rightarrow> sid \<Rightarrow> 'x win_world_scheme \<Rightarrow> 'x win_world_scheme" where
  "win_tcp_shutdown os s w =
     (if status (streams w s) \<noteq> PD_TCP_ACTIVE then w
      else
        let w = set_stream s (\<lambda>t. t\<lparr>status := PD_TCP_SHUTDOWN\<rparr>) w
        in if writes_size (streams w s) = 0 then wdo os (Wsa_shutdown (fd (streams w s))) w else w)"

section \<open>Writing\<close>

definition win_write_init ::
  "wid \<Rightarrow> byte list \<Rightarrow> callback option \<Rightarrow> 'x win_world_scheme \<Rightarrow> 'x win_world_scheme" where
  "win_write_init a buf f w =
     (let w = set_op a (\<lambda>op. op\<lparr>cb := f, data := buf\<rparr>) w
      in w\<lparr>wevent := (wevent w)(a := win_event_init\<lparr>win_handler := Some Win_write_io\<rparr>)\<rparr>)"

definition win_tcp_write ::
  "'x win_world_scheme client \<Rightarrow> win_os \<Rightarrow> sid \<Rightarrow> wid \<Rightarrow> 'x win_world_scheme \<Rightarrow> 'x win_world_scheme res" where
  "win_tcp_write k os s a w =
     (if status (streams w s) \<noteq> PD_TCP_ACTIVE
      then call_ptr k (cb (ops w a)) (\<lambda>f. Write_cb f a PD_ECANCELED) w
      else
        (case wsys os (Wsa_send (fd (streams w s)) (data (ops w a)) (Write_ovl a)) w of (r, w) \<Rightarrow>
           let w = w\<lparr>whandle := (whandle w)(a := s)\<rparr>
           in if ret r = 0 then call_ptr k (cb (ops w a)) (\<lambda>f. Write_cb f a 0) w
              else if ret r = SOCKET_ERROR \<and> last_err w \<noteq> WSA_IO_PENDING then
                call_ptr k (cb (ops w a)) (\<lambda>f. Write_cb f a (win_errmap os (last_err w))) w
              else
                Inr (set_stream s (\<lambda>t. t\<lparr>writes_size := writes_size t + 1,
                  stream_flags := stream_flags t OR PD_WRITING\<rparr>) w)))"

text \<open>The completion of a write, whatever became of it.\<close>

definition win_write_io ::
  "'x win_world_scheme client \<Rightarrow> win_os \<Rightarrow> wid \<Rightarrow> 'x win_world_scheme \<Rightarrow> 'x win_world_scheme res" where
  "win_write_io k os a w =
     (let s = whandle w a
      in bind_res (call_opt k (cb (ops w a)) (\<lambda>f. Write_cb f a 0) w) (\<lambda>w.
           let w = set_stream s (\<lambda>t. t\<lparr>writes_size := writes_size t - 1\<rparr>) w;
               w = (if writes_size (streams w s) = 0 then
                      let w = set_stream s (\<lambda>t. t\<lparr>stream_flags := stream_flags t AND NOT PD_WRITING\<rparr>) w
                      in if status (streams w s) = PD_TCP_SHUTDOWN then wdo os (Wsa_shutdown (fd (streams w s))) w else w
                    else w)
           in if status (streams w s) = PD_TCP_CLOSED then win_try_close os s w else Inr w))"

section \<open>Reading\<close>

definition win_post_recv ::
  "'x win_world_scheme client \<Rightarrow> win_os \<Rightarrow> sid \<Rightarrow> 'x win_world_scheme \<Rightarrow> 'x win_world_scheme res" where
  "win_post_recv k os s w =
     (if fd (streams w s) = INVALID_SOCKET then Inl Assert_failed
      else
        let w = w\<lparr>revent := (revent w)(s := win_event_init\<lparr>win_handler := Some Win_read_io\<rparr>)\<rparr>;
            alloc_size = 8 * 1024 :: size_t;
            w = w\<lparr>read_buf := (read_buf w)(s := alloc k (allocator (streams w s)) s (unat alloc_size) w)\<rparr>
        in if read_buf w s = None
           then call_ptr k (on_data (streams w s)) (\<lambda>f. On_data f s None (word_of_int PD_ENOMEM)) w
           else
             (case wsys os (Wsa_recv (fd (streams w s)) alloc_size (Recv_ovl s)) w of (r, w) \<Rightarrow>
                if ret r = 0 then
                  call_ptr k (on_data (streams w s)) (\<lambda>f. On_data f s (read_buf w s) (ucast (stored r))) w
                else if ret r = SOCKET_ERROR \<and> last_err w \<noteq> WSA_IO_PENDING then
                  call_ptr k (on_data (streams w s)) (\<lambda>f. On_data f s (read_buf w s) (word_of_int (win_pd_errno os w))) w
                else
                  Inr (set_stream s (\<lambda>t. t\<lparr>stream_flags := stream_flags t OR PD_READING OR PD_PENDING_READ\<rparr>) w)))"

definition win_read_io ::
  "'x win_world_scheme client \<Rightarrow> win_os \<Rightarrow> sid \<Rightarrow> 'x win_world_scheme \<Rightarrow> 'x win_world_scheme res" where
  "win_read_io k os s w =
     (let w = set_stream s (\<lambda>t. t\<lparr>stream_flags := stream_flags t AND NOT PD_PENDING_READ\<rparr>) w
      in if bytes (revent w s) > 0 then
           bind_res (call_ptr k (on_data (streams w s))
               (\<lambda>f. On_data f s (read_buf w s) (bytes (revent w s))) w) (\<lambda>w.
             if status (streams w s) = PD_TCP_CLOSED then win_try_close os s w
             else if stream_flags (streams w s) AND PD_READING \<noteq> 0 then win_post_recv k os s w
             else Inr w)
         else win_tcp_close os s w)"

definition win_tcp_accept ::
  "'x win_world_scheme client \<Rightarrow> win_os \<Rightarrow> sid \<Rightarrow> int \<Rightarrow> 'x win_world_scheme \<Rightarrow> 'x win_world_scheme res" where
  "win_tcp_accept k os s sock w =
     (let w = set_stream s (\<lambda>t. t\<lparr>status := PD_TCP_ACTIVE, fd := sock\<rparr>) w;
          w = inc_refs w;
          w = wdo os (Associate (fd (streams w s)) (poll_fd (io w))) w
      in win_post_recv k os s w)"

definition win_tcp_pause :: "win_os \<Rightarrow> sid \<Rightarrow> 'x win_world_scheme \<Rightarrow> 'x win_world_scheme" where
  "win_tcp_pause os s w =
     (let w = set_stream s (\<lambda>t. t\<lparr>stream_flags := stream_flags t AND NOT PD_READING\<rparr>) w
      in if stream_flags (streams w s) AND PD_PENDING_READ \<noteq> 0
         then wdo os (Cancel_io_ex (fd (streams w s)) (Recv_ovl s)) w else w)"

definition win_tcp_resume ::
  "'x win_world_scheme client \<Rightarrow> win_os \<Rightarrow> sid \<Rightarrow> 'x win_world_scheme \<Rightarrow> 'x win_world_scheme res" where
  "win_tcp_resume k os s w =
     (let w = set_stream s (\<lambda>t. t\<lparr>stream_flags := stream_flags t OR PD_READING\<rparr>) w
      in if stream_flags (streams w s) AND PD_PENDING_READ = 0 then win_post_recv k os s w else Inr w)"

section \<open>Connecting\<close>

text \<open>\<open>e\<close> is the address of the event that \<open>pd_tcp_connect\<close> has allocated.\<close>

definition win_connect_io ::
  "'x win_world_scheme client \<Rightarrow> win_os \<Rightarrow> nat \<Rightarrow> 'x win_world_scheme \<Rightarrow> 'x win_world_scheme res" where
  "win_connect_io k os e w =
     (case connects w e of
        None \<Rightarrow> Inl Bad_memory
      | Some (s, _) \<Rightarrow>
          (case wsys os (Overlapped_result (fd (streams w s)) (Connect_ovl e)) w of (r, w) \<Rightarrow>
             let w = w\<lparr>connects := (connects w)(e := None)\<rparr>
             in bind_res
                  (if ret r \<noteq> 0 then
                     bind_res (win_post_recv k os s w) (\<lambda>w.
                       Inr (0, set_stream s (\<lambda>t. t\<lparr>status := PD_TCP_ACTIVE\<rparr>) w))
                   else if last_err w = WSA_IO_PENDING then Inl Assert_failed
                   else Inr (win_errmap os (last_err w), w)) (\<lambda>(st, w).
                  call_opt k (on_connect (streams w s)) (\<lambda>f. On_connect f s st) w)))"

text \<open>The result of a failing step: the socket is closed, then the error code read.\<close>

definition win_fail :: "win_os \<Rightarrow> int \<Rightarrow> 'x win_world_scheme \<Rightarrow> int \<times> 'x win_world_scheme" where
  "win_fail os f w = (let w = wdo os (Wsa_closesocket f) w in (win_pd_errno os w, w))"

text \<open>From the allocation of the event on; \<^verbatim>\<open>malloc\<close> returns 0 for \<^verbatim>\<open>NULL\<close>.\<close>

definition win_connect_start ::
  "win_os \<Rightarrow> sid \<Rightarrow> string \<Rightarrow> int \<Rightarrow> int \<Rightarrow> 'x win_world_scheme \<Rightarrow> int \<times> 'x win_world_scheme" where
  "win_connect_start os s host port f w =
     (case wsys os (Win_malloc SIZEOF_EVENT) w of (r, w) \<Rightarrow>
      if ret r = 0 then (PD_ENOMEM, wdo os (Wsa_closesocket f) w)
      else
      let e = nat (ret r);
          w = w\<lparr>connects := (connects w)(e \<mapsto> (s, win_event_init))\<rparr>
      in
      (case wsys os (Associate f (poll_fd (io w))) w of (r, w) \<Rightarrow>
      if ret r = 0 then win_fail os f (w\<lparr>connects := (connects w)(e := None)\<rparr>)
      else
      (case wsys os (Set_completion_modes (fd (streams w s))) w of (r, w) \<Rightarrow>
      if ret r = 0 then win_fail os f (w\<lparr>connects := (connects w)(e := None)\<rparr>)
      else
      let w = w\<lparr>connects := (connects w)(e \<mapsto> (s, win_event_init\<lparr>win_handler := Some Win_connect_io\<rparr>))\<rparr>
      in
      (case wsys os (Connect_ex f host port (Connect_ovl e)) w of (r, w) \<Rightarrow>
      if ret r = SOCKET_ERROR \<and> last_err w \<noteq> WSA_IO_PENDING then
        let e' = last_err w;
            w = w\<lparr>connects := (connects w)(e := None)\<rparr>;
            w = wdo os (Wsa_closesocket f) w;
            w = wdo os (Close_handle_of f) w
        in (win_errmap os e', w)
      else (0, inc_refs w)))))"

definition win_tcp_connect ::
  "win_os \<Rightarrow> sid \<Rightarrow> string \<Rightarrow> int \<Rightarrow> callback option \<Rightarrow> 'x win_world_scheme \<Rightarrow> int \<times> 'x win_world_scheme" where
  "win_tcp_connect os s host port connect_cb w =
     (case wsys os Wsa_socket w of (r, w) \<Rightarrow>
      let f = ret r in
      if f = INVALID_SOCKET then (win_pd_errno os w, w)
      else
      let w = set_stream s (\<lambda>t. t\<lparr>fd := f, on_connect := connect_cb\<rparr>) w
      in
      if wpton os host \<le> 0 then win_fail os f w
      else
      (case wsys os (Wsa_bind f 0) w of (r, w) \<Rightarrow>
      if ret r = SOCKET_ERROR then win_fail os f w
      else if connectex_loaded w then win_connect_start os s host port f w
      else
      (case wsys os (Load_connectex f) w of (r, w) \<Rightarrow>
      if ret r = SOCKET_ERROR then win_fail os f w
      else win_connect_start os s host port f (w\<lparr>connectex_loaded := True\<rparr>))))"

section \<open>Listening\<close>

definition SIMULTANEOUS_ACCEPTS :: nat where
  "SIMULTANEOUS_ACCEPTS = 32"

definition PD_UNKNOWN_CODE :: int where
  "PD_UNKNOWN_CODE = -7000"

definition win_server_init :: "nat \<Rightarrow> 'x win_world_scheme \<Rightarrow> 'x win_world_scheme" where
  "win_server_init v w =
     (set_server v (\<lambda>t. t\<lparr>server_fd := INVALID_SOCKET, on_connection := None\<rparr>) w)
       \<lparr>acceptex_loaded := (acceptex_loaded w)(v := False)\<rparr>"

definition win_server_close :: "nat \<Rightarrow> int" where
  "win_server_close v = PD_UNKNOWN_CODE"

text \<open>What an accepted connection leads to, at once (\<^verbatim>\<open>pd__tcp_accept_sync\<close>) or when the operation completes.\<close>

definition win_accepted ::
  "'x win_world_scheme client \<Rightarrow> win_os \<Rightarrow> nat \<Rightarrow> 'x win_world_scheme \<Rightarrow> 'x win_world_scheme res" where
  "win_accepted k os p w =
     (let v = op_server (accept_ops w p);
          sock = op_socket (accept_ops w p);
          w = wdo os (Wsa_setsockopt sock Wo_update_accept_context sock) w
      in call_opt k (on_connection (servers w v)) (\<lambda>f. On_connection f v (op_socket (accept_ops w p)) 0) w)"

text \<open>
  A connection that is accepted at once is handled by \<^verbatim>\<open>pd__tcp_accept_sync\<close>, which posts the next operation; the two
  functions call each other as long as connections are waiting.
\<close>

partial_function (option) win_post_acceptex ::
  "'x win_world_scheme client \<Rightarrow> win_os \<Rightarrow> nat \<Rightarrow> nat \<Rightarrow> 'x win_world_scheme \<Rightarrow> 'x win_world_scheme res option" where
  "win_post_acceptex k os v p w =
     (case wsys os Wsa_socket w of (r, w) \<Rightarrow>
      let w = w\<lparr>accept_ops := (accept_ops w)(p := \<lparr>op_socket = ret r, op_server = v,
            op_event = win_event_init\<lparr>win_handler := Some Win_accept_io\<rparr>\<rparr>)\<rparr>;
          w = wdo os (Set_completion_modes (op_socket (accept_ops w p))) w
      in if \<not> acceptex_loaded w v then Some (Inl Null_deref)
         else
           (case wsys os (Accept_ex (server_fd (servers w v)) (op_socket (accept_ops w p)) (Accept_ovl p)) w of (r, w) \<Rightarrow>
              if ret r \<noteq> 0 then
                (case win_accepted k os p w of
                   Inl x \<Rightarrow> Some (Inl x)
                 | Inr w \<Rightarrow> win_post_acceptex k os v p w)
              else if last_err w \<noteq> WSA_IO_PENDING then
                Some (Inr (wdo os (Wsa_closesocket (op_socket (accept_ops w p))) w))
              else Some (Inr w)))"

definition win_accept_sync ::
  "'x win_world_scheme client \<Rightarrow> win_os \<Rightarrow> nat \<Rightarrow> 'x win_world_scheme \<Rightarrow> 'x win_world_scheme res" where
  "win_accept_sync k os p w =
     (let v = op_server (accept_ops w p)
      in bind_res (win_accepted k os p w) (\<lambda>w. run_loop (win_post_acceptex k os v p w)))"

definition win_accept_io ::
  "'x win_world_scheme client \<Rightarrow> win_os \<Rightarrow> nat \<Rightarrow> 'x win_world_scheme \<Rightarrow> 'x win_world_scheme res" where
  "win_accept_io k os p w =
     (let v = op_server (accept_ops w p)
      in (case wsys os (Overlapped_result (op_socket (accept_ops w p)) (Accept_ovl p)) w of (r, w) \<Rightarrow>
            bind_res
              (if ret r \<noteq> 0 then win_accepted k os p w
               else if last_err w = WSA_IO_PENDING then Inl Assert_failed
               else Inr (wdo os (Wsa_closesocket (op_socket (accept_ops w p))) w)) (\<lambda>w.
              run_loop (win_post_acceptex k os v p w))))"

text \<open>The loop at the end of \<open>pd_tcp_listen\<close>, with \<open>n\<close> operations left to post.\<close>

fun post_accepts ::
  "'x win_world_scheme client \<Rightarrow> win_os \<Rightarrow> nat \<Rightarrow> nat \<Rightarrow> 'x win_world_scheme \<Rightarrow> (int \<times> 'x win_world_scheme) res" where
  "post_accepts k os v 0 w = Inr (0, inc_refs w)"
| "post_accepts k os v (Suc n) w =
     (case wsys os (Win_malloc SIZEOF_ACCEPT_OP) w of (r, w) \<Rightarrow>
        if ret r = 0 then Inr (PD_ENOMEM, w)
        else bind_res (run_loop (win_post_acceptex k os v (nat (ret r)) w)) (\<lambda>w. post_accepts k os v n w))"

definition win_tcp_listen ::
  "'x win_world_scheme client \<Rightarrow> win_os \<Rightarrow> nat \<Rightarrow> int \<Rightarrow> callback option \<Rightarrow> 'x win_world_scheme \<Rightarrow>
    (int \<times> 'x win_world_scheme) res" where
  "win_tcp_listen k os v port conn_cb w =
     (case wsys os Wsa_socket w of (r, w) \<Rightarrow>
      let w = set_server v (\<lambda>t. t\<lparr>server_fd := ret r, on_connection := conn_cb\<rparr>) w;
          f = server_fd (servers w v)
      in
      if f = INVALID_SOCKET then Inr (win_pd_errno os w, w)
      else
      (case wsys os (Wsa_setsockopt f Wo_reuseaddr 1) w of (r, w) \<Rightarrow>
      if ret r < 0 then Inr (win_fail os f w)
      else
      (case wsys os (Wsa_bind f port) w of (r, w) \<Rightarrow>
      if ret r < 0 then Inr (win_fail os f w)
      else
      (case wsys os (Wsa_listen f) w of (r, w) \<Rightarrow>
      if ret r < 0 then Inr (win_fail os f w)
      else
      (case wsys os (Set_completion_modes f) w of (r, w) \<Rightarrow>
      if ret r = 0 then Inr (win_fail os f w)
      else
      (case (if acceptex_loaded w v then (False, w)
             else
               (case wsys os (Load_acceptex f) w of (r, w) \<Rightarrow>
                  if ret r = SOCKET_ERROR then (True, w)
                  else (False, w\<lparr>acceptex_loaded := (acceptex_loaded w)(v := True)\<rparr>))) of (failed, w) \<Rightarrow>
      if failed then Inr (win_fail os f w)
      else
      (case wsys os (Associate f (poll_fd (io w))) w of (r, w) \<Rightarrow>
      if ret r = 0 then Inr (win_fail os f w)
      else post_accepts k os v SIMULTANEOUS_ACCEPTS w)))))))"

section \<open>Socket options\<close>

definition win_tcp_keepalive :: "win_os \<Rightarrow> sid \<Rightarrow> int \<Rightarrow> int \<Rightarrow> 'x win_world_scheme \<Rightarrow> int \<times> 'x win_world_scheme" where
  "win_tcp_keepalive os s enable delay w =
     (case wsys os (Wsa_setsockopt (fd (streams w s)) Wo_keepalive enable) w of (r, w) \<Rightarrow>
      if ret r < 0 then (win_pd_errno os w, w)
      else if enable = 0 then (0, w)
      else
      (case wsys os (Wsa_setsockopt (fd (streams w s)) Wo_tcp_keepalive delay) w of (r, w) \<Rightarrow>
      if ret r < 0 then (win_pd_errno os w, w) else (0, w)))"

definition win_tcp_nodelay :: "win_os \<Rightarrow> sid \<Rightarrow> int \<Rightarrow> 'x win_world_scheme \<Rightarrow> int \<times> 'x win_world_scheme" where
  "win_tcp_nodelay os s enable w =
     (case wsys os (Wsa_setsockopt (fd (streams w s)) Wo_nodelay enable) w of (r, w) \<Rightarrow>
      if ret r < 0 then (win_pd_errno os w, w) else (0, w))"

end
