(* ===== verification/Iocp.thy ===== *)
theory Iocp
  imports Tcp_Windows Event_Loop
begin

text \<open>
  Notifiers (\<^verbatim>\<open>src/sys/notifier_win32.c\<close>) and the event loop on Windows (\<^verbatim>\<open>src/sys/event_iocp.c\<close>): a turn takes
  completions from the port, calls the handler of each, and goes on as the loop on Unix does. What the port hands out
  is a parameter: \<open>entries h i\<close> is the \<open>i\<close>-th entry after the calls \<open>h\<close>, the last of which is the wait; an entry need not
  have an \<^verbatim>\<open>OVERLAPPED\<close>.
\<close>

section \<open>Notifiers\<close>

definition win_notifier_io ::
  "'x win_world_scheme client \<Rightarrow> nat \<Rightarrow> 'x win_world_scheme \<Rightarrow> 'x win_world_scheme res" where
  "win_notifier_io k n w =
     (case notifier_handler (notifiers w n) of
        None \<Rightarrow> Inr w
      | Some h \<Rightarrow> call k (On_notify h n) w)"

definition win_notifier_init :: "nat \<Rightarrow> 'x win_world_scheme \<Rightarrow> 'x win_world_scheme" where
  "win_notifier_init n w =
     (let w = set_notifier n (\<lambda>t. t\<lparr>notifier_handler := None\<rparr>) w
      in w\<lparr>nevent := (nevent w)(n := win_event_init\<lparr>win_handler := Some Win_notifier_io\<rparr>)\<rparr>)"

definition win_notifier_send :: "win_os \<Rightarrow> nat \<Rightarrow> 'x win_world_scheme \<Rightarrow> 'x win_world_scheme" where
  "win_notifier_send os n w = wdo os (Post_completion (poll_fd (io w)) (Notify_ovl n)) w"

section \<open>The loop\<close>

definition ENTRIES_MAX :: nat where
  "ENTRIES_MAX = 128"

text \<open>\<open>n\<close> is the address of the notifier the loop allocates for the threadpool; \<open>hz h\<close> the frequency of the counter.\<close>

definition win_io_init ::
  "win_os \<Rightarrow> (win_history \<Rightarrow> int) \<Rightarrow> (win_history \<Rightarrow> int) \<Rightarrow> nat \<Rightarrow> 'x win_world_scheme \<Rightarrow> 'x win_world_scheme" where
  "win_io_init os hz counter n w =
     (let w = wdo os Wsa_startup w;
          w = wdo os Query_frequency w;
          w = w\<lparr>freq := hz (whist w)\<rparr>;
          w = set_io (\<lambda>c. c\<lparr>refs := 0\<rparr>) w;
          (r, w) = wsys os Create_port w;
          w = set_io (\<lambda>c. c\<lparr>poll_fd := ret r\<rparr>) w;
          w = set_io (\<lambda>c. c\<lparr>after_tick := None\<rparr>) w;
          (t, w) = win_now os counter w;
          w = set_io (\<lambda>c. c\<lparr>now := t\<rparr>) w;
          w = set_io (\<lambda>c. c\<lparr>pending_closes := queue_init (pending_closes c)\<rparr>) w;
          w = pd_timers_heap_init w;
          w = set_io (\<lambda>c. c\<lparr>task_signal := Some n\<rparr>) w;
          w = win_notifier_init n w;
          w = set_notifier n (\<lambda>t. t\<lparr>notifier_handler := Some Task_done\<rparr>) w;
          w = set_io (\<lambda>c. c\<lparr>task_signaled := False\<rparr>) w;
          w = set_io (\<lambda>c. c\<lparr>finished_tasks := queue_init (finished_tasks c)\<rparr>) w
      in w)"

text \<open>The event of an \<^verbatim>\<open>OVERLAPPED\<close>; that of a connection attempt has been allocated by it and may be gone.\<close>

definition set_event :: "ovl \<Rightarrow> (win_event \<Rightarrow> win_event) \<Rightarrow> 'x win_world_scheme \<Rightarrow> 'x win_world_scheme res" where
  "set_event v g w =
     (case v of
        Recv_ovl s \<Rightarrow> Inr (w\<lparr>revent := (revent w)(s := g (revent w s))\<rparr>)
      | Write_ovl a \<Rightarrow> Inr (w\<lparr>wevent := (wevent w)(a := g (wevent w a))\<rparr>)
      | Accept_ovl p \<Rightarrow>
          Inr (w\<lparr>accept_ops := (accept_ops w)(p := (accept_ops w p)\<lparr>op_event := g (op_event (accept_ops w p))\<rparr>)\<rparr>)
      | Connect_ovl e \<Rightarrow>
          (case connects w e of
             None \<Rightarrow> Inl Bad_memory
           | Some (s, ev) \<Rightarrow> Inr (w\<lparr>connects := (connects w)(e \<mapsto> (s, g ev))\<rparr>))
      | Notify_ovl n \<Rightarrow> Inr (w\<lparr>nevent := (nevent w)(n := g (nevent w n))\<rparr>))"

definition event_at :: "ovl \<Rightarrow> 'x win_world_scheme \<Rightarrow> win_event" where
  "event_at v w =
     (case v of
        Recv_ovl s \<Rightarrow> revent w s
      | Write_ovl a \<Rightarrow> wevent w a
      | Accept_ovl p \<Rightarrow> op_event (accept_ops w p)
      | Connect_ovl e \<Rightarrow> (case connects w e of None \<Rightarrow> win_event_init | Some (s, ev) \<Rightarrow> ev)
      | Notify_ovl n \<Rightarrow> nevent w n)"

text \<open>One entry: store the number of bytes, call the handler.\<close>

definition win_handle ::
  "'x win_world_scheme client \<Rightarrow> win_os \<Rightarrow> ovl \<Rightarrow> uint32 \<Rightarrow> 'x win_world_scheme \<Rightarrow> 'x win_world_scheme res" where
  "win_handle k os v n w =
     bind_res (set_event v (\<lambda>ev. ev\<lparr>bytes := ucast n\<rparr>) w) (\<lambda>w.
       case (win_handler (event_at v w), v) of
         (None, _) \<Rightarrow> Inr w
       | (Some Win_read_io, Recv_ovl s) \<Rightarrow> win_read_io k os s w
       | (Some Win_write_io, Write_ovl a) \<Rightarrow> win_write_io k os a w
       | (Some Win_accept_io, Accept_ovl p) \<Rightarrow> win_accept_io k os p w
       | (Some Win_connect_io, Connect_ovl e) \<Rightarrow> win_connect_io k os e w
       | (Some Win_notifier_io, Notify_ovl n) \<Rightarrow> win_notifier_io k n w
       | _ \<Rightarrow> Inl Bad_memory)"

fun win_entries ::
  "'x win_world_scheme client \<Rightarrow> win_os \<Rightarrow> (ovl option \<times> uint32) list \<Rightarrow> 'x win_world_scheme \<Rightarrow>
    'x win_world_scheme res" where
  "win_entries k os [] w = Inr w"
| "win_entries k os ((None, n) # es) w = win_entries k os es w"
| "win_entries k os ((Some v, n) # es) w = bind_res (win_handle k os v n w) (win_entries k os es)"

text \<open>What the loop is given besides the client and the system: the entries of a wait, and the counter.\<close>

record iocp_env =
  entries :: "win_history \<Rightarrow> nat \<Rightarrow> ovl option \<times> uint32"
  entry_count :: "win_history \<Rightarrow> nat"
  counter :: "win_history \<Rightarrow> int"

definition win_turn ::
  "'x win_world_scheme client \<Rightarrow> win_os \<Rightarrow> iocp_env \<Rightarrow> win_reply \<Rightarrow> 'x win_world_scheme \<Rightarrow> 'x win_world_scheme res" where
  "win_turn k os E r w =
     (let es = map (entries E (whist w)) [0..<entry_count E (whist w)];
          (t, w) = win_now os (counter E) w;
          w = set_io (\<lambda>c. c\<lparr>now := t\<rparr>) w
      in bind_res
           (if ret r \<noteq> 0 then win_entries k os es w
            else if last_err w \<noteq> WAIT_TIMEOUT then Inl Exited
            else Inr w) (\<lambda>w.
         bind_res (run_loop (pd_timers_run (on_timer k) w)) (\<lambda>w.
         bind_res (run_loop (pd_tcp_pending_close k w)) (\<lambda>w.
           call_opt k (after_tick (io w)) After_tick w))))"

partial_function (option) win_loop ::
  "'x win_world_scheme client \<Rightarrow> win_os \<Rightarrow> iocp_env \<Rightarrow> int \<Rightarrow> 'x win_world_scheme \<Rightarrow> 'x win_world_scheme res option" where
  "win_loop k os E ms w =
     (if \<not> refs (io w) > 0 then Some (Inr w)
      else
        (case wsys os (Get_completions (poll_fd (io w)) ENTRIES_MAX (if ms = -1 then None else Some ms)) w of (r, w) \<Rightarrow>
           (case win_turn k os E r w of
              Inl e \<Rightarrow> Some (Inl e)
            | Inr w \<Rightarrow> win_loop k os E (pd_timers_next w) w)))"

definition win_io_run ::
  "'x win_world_scheme client \<Rightarrow> win_os \<Rightarrow> iocp_env \<Rightarrow> 'x win_world_scheme \<Rightarrow> 'x win_world_scheme res option" where
  "win_io_run k os E w = win_loop k os E (pd_timers_next w) w"

end
