(* ===== verification/Windows_Invariant.thy ===== *)
theory Windows_Invariant
  imports Iocp
begin

text \<open>
  Client programs for the streams on Windows, and the invariant of their writes: the counter of a stream is the
  number of its sends that are outstanding, and a write has had its callback called once, unless its send is
  outstanding. A send is outstanding from when it was posted until its completion is handled, which the port hands out
  together with others. All of it can be read off the history of calls.
\<close>

section \<open>Client programs\<close>

datatype win_cmd =
    W_write sid "byte list" callback
  | W_close sid
  | W_shutdown sid
  | W_pause sid
  | W_resume sid
  | W_accept sid int
  | W_connect sid string int "callback option"
  | W_listen nat int "callback option"
  | W_keepalive sid int int
  | W_nodelay sid int
  | W_timer_start timer callback uint64
  | W_timer_stop timer
  | W_notify nat

text \<open>The write operations a client has used, the streams they were for, and its calls.\<close>

record win_client = win_world +
  issued :: wid
  written_to :: "wid \<Rightarrow> sid"
  log :: "call list"

definition win_new_op :: "sid \<Rightarrow> byte list \<Rightarrow> callback \<Rightarrow> 'x win_client_scheme \<Rightarrow> 'x win_client_scheme" where
  "win_new_op s buf f w =
     win_write_init (issued w) buf (Some f)
       (w\<lparr>issued := issued w + 1, written_to := (written_to w)(issued w := s)\<rparr>)"

fun win_exec ::
  "'x win_client_scheme client \<Rightarrow> win_os \<Rightarrow> win_cmd \<Rightarrow> 'x win_client_scheme \<Rightarrow> 'x win_client_scheme res" where
  "win_exec k os (W_write s buf f) w = win_tcp_write k os s (issued w) (win_new_op s buf f w)"
| "win_exec k os (W_close s) w = win_tcp_close os s w"
| "win_exec k os (W_shutdown s) w = Inr (win_tcp_shutdown os s w)"
| "win_exec k os (W_pause s) w = Inr (win_tcp_pause os s w)"
| "win_exec k os (W_resume s) w = win_tcp_resume k os s w"
| "win_exec k os (W_accept s sock) w = win_tcp_accept k os s sock w"
| "win_exec k os (W_connect s host port f) w = Inr (snd (win_tcp_connect os s host port f w))"
| "win_exec k os (W_listen v port f) w = bind_res (win_tcp_listen k os v port f w) (\<lambda>(_, w). Inr w)"
| "win_exec k os (W_keepalive s enable delay) w = Inr (snd (win_tcp_keepalive os s enable delay w))"
| "win_exec k os (W_nodelay s enable) w = Inr (snd (win_tcp_nodelay os s enable w))"
| "win_exec k os (W_timer_start t f delay) w = pd_timer_start t (Some f) delay w"
| "win_exec k os (W_timer_stop t) w = pd_timer_stop t w"
| "win_exec k os (W_notify n) w = Inr (win_notifier_send os n w)"

fun win_execs ::
  "'x win_client_scheme client \<Rightarrow> win_os \<Rightarrow> win_cmd list \<Rightarrow> 'x win_client_scheme \<Rightarrow> 'x win_client_scheme res" where
  "win_execs k os [] w = Inr w"
| "win_execs k os (c # cs) w = bind_res (win_exec k os c w) (win_execs k os cs)"

definition win_log :: "call \<Rightarrow> 'x win_client_scheme \<Rightarrow> 'x win_client_scheme" where
  "win_log c w = w\<lparr>log := log w @ [c]\<rparr>"

text \<open>\<open>prog\<close> says what the client does in a callback; \<open>n\<close> bounds the depth of nested callbacks.\<close>

fun win_reply_to ::
  "(call \<Rightarrow> call list \<Rightarrow> win_cmd list) \<Rightarrow> (callback \<Rightarrow> sid \<Rightarrow> nat \<Rightarrow> 'x win_client_scheme \<Rightarrow> nat option) \<Rightarrow> win_os \<Rightarrow> nat \<Rightarrow>
    call \<Rightarrow> 'x win_client_scheme \<Rightarrow> 'x win_client_scheme res" where
  "win_reply_to prog al os 0 c w = Inl Diverged"
| "win_reply_to prog al os (Suc n) c w =
     win_execs \<lparr>call = win_reply_to prog al os n, alloc = al\<rparr> os (prog c (log w)) (win_log c w)"

definition win_script ::
  "(call \<Rightarrow> call list \<Rightarrow> win_cmd list) \<Rightarrow> (callback \<Rightarrow> sid \<Rightarrow> nat \<Rightarrow> 'x win_client_scheme \<Rightarrow> nat option) \<Rightarrow> win_os \<Rightarrow> nat \<Rightarrow>
    'x win_client_scheme client" where
  "win_script prog al os n = \<lparr>call = win_reply_to prog al os n, alloc = al\<rparr>"

section \<open>Outstanding sends\<close>

fun write_done :: "call \<Rightarrow> wid option" where
  "write_done (Write_cb f a st) = Some a"
| "write_done _ = None"

definition done_writes :: "'x win_client_scheme \<Rightarrow> wid list" where
  "done_writes w = List.map_filter write_done (log w)"

text \<open>Sends: the operation, and whether it is pending.\<close>

fun send_of :: "win_sys \<times> win_reply \<Rightarrow> (wid \<times> bool) option" where
  "send_of (Wsa_send f bs (Write_ovl a), r) = Some (a, ret r = SOCKET_ERROR \<and> err r = Some WSA_IO_PENDING)"
| "send_of _ = None"

definition sends :: "'x win_client_scheme \<Rightarrow> (wid \<times> bool) list" where
  "sends w = List.map_filter send_of (whist w)"

text \<open>The completions of writes that the last call of \<open>h\<close>, a wait, hands out, and those of all waits.\<close>

fun write_of :: "ovl option \<times> uint32 \<Rightarrow> wid option" where
  "write_of (Some (Write_ovl a), n) = Some a"
| "write_of _ = None"

definition batch :: "iocp_env \<Rightarrow> win_history \<Rightarrow> wid list" where
  "batch E h =
     (case last h of
        (Get_completions f n t, r) \<Rightarrow>
          if ret r \<noteq> 0 then List.map_filter write_of (map (entries E h) [0..<entry_count E h]) else []
      | _ \<Rightarrow> [])"

definition handed :: "iocp_env \<Rightarrow> win_history \<Rightarrow> wid list" where
  "handed E h = concat (map (\<lambda>i. batch E (take i h)) [1..<Suc (length h)])"

text \<open>
  Sockets in the mode \<^verbatim>\<open>FILE_SKIP_COMPLETION_PORT_ON_SUCCESS\<close> after the calls \<open>h\<close>. A send that returns 0 is completed by the
  port all the same, unless its socket is in that mode.
\<close>

fun skip_after :: "win_sys \<times> win_reply \<Rightarrow> int set \<Rightarrow> int set" where
  "skip_after (Set_completion_modes f, r) S = (if ret r \<noteq> 0 then insert f S else S)"
| "skip_after (Wsa_closesocket f, r) S = S - {f}"
| "skip_after _ S = S"

definition skipping :: "win_history \<Rightarrow> int set" where
  "skipping h = fold skip_after h {}"

text \<open>The writes whose sends the port completes.\<close>

fun completed_by :: "int set \<Rightarrow> win_sys \<times> win_reply \<Rightarrow> wid list" where
  "completed_by S (Wsa_send f bs (Write_ovl a), r) =
     (if ret r = SOCKET_ERROR \<and> err r = Some WSA_IO_PENDING \<or> ret r = 0 \<and> f \<notin> S then [a] else [])"
| "completed_by S _ = []"

fun completing_from :: "int set \<Rightarrow> win_history \<Rightarrow> wid list" where
  "completing_from S [] = []"
| "completing_from S (p # h) = completed_by S p @ completing_from (skip_after p S) h"

definition completing :: "win_history \<Rightarrow> wid list" where
  "completing h = completing_from {} h"

lemma completing_append: "completing (g @ h) = completing g @ completing_from (skipping g) h"
proof -
  have "completing_from S (g @ h) = completing_from S g @ completing_from (fold skip_after g S) h" for S
    by (induction g arbitrary: S) simp_all
  then show ?thesis by (simp add: completing_def skipping_def)
qed

lemma completing_snoc: "completing (h @ [p]) = completing h @ completed_by (skipping h) p"
  by (simp add: completing_append)

text \<open>\<open>B\<close>: what the port has handed out and is still to be handled in this turn.\<close>

definition outstanding :: "iocp_env \<Rightarrow> wid set \<Rightarrow> 'x win_client_scheme \<Rightarrow> wid \<Rightarrow> bool" where
  "outstanding E B w a \<longleftrightarrow> (a, True) \<in> set (sends w) \<and> (a \<notin> set (handed E (whist w)) \<or> a \<in> B)"

definition out_of :: "iocp_env \<Rightarrow> wid set \<Rightarrow> 'x win_client_scheme \<Rightarrow> sid \<Rightarrow> wid set" where
  "out_of E B w s = {a. a < issued w \<and> written_to w a = s \<and> outstanding E B w a}"

text \<open>A send returns 0 or \<^verbatim>\<open>SOCKET_ERROR\<close>, and then sets an error code.\<close>

definition sends_documented :: "win_os \<Rightarrow> bool" where
  "sends_documented os \<longleftrightarrow>
     (\<forall>h f bs v. let r = wkern os h (Wsa_send f bs v) in ret r = 0 \<or> ret r = SOCKET_ERROR \<and> err r \<noteq> None)"

text \<open>
  A send completes at once only on a socket in that mode. The sources ask for the mode and ignore that this can fail
  (\<open>win_post_acceptex\<close>), and \<open>pd_tcp_accept\<close> takes any socket.
\<close>

definition immediate_skips :: "win_os \<Rightarrow> bool" where
  "immediate_skips os \<longleftrightarrow> (\<forall>h f bs v. ret (wkern os h (Wsa_send f bs v)) = 0 \<longrightarrow> f \<in> skipping h)"

text \<open>
  The port hands out the completions of sends that are pending, and of those that returned 0 on sockets without the mode,
  once each.
\<close>

definition port_documented :: "iocp_env \<Rightarrow> bool" where
  "port_documented E \<longleftrightarrow>
     (\<forall>h c r. let b = batch E (h @ [(c, r)])
              in distinct b \<and> set b \<subseteq> set (completing h) - set (handed E h))"

section \<open>The invariant\<close>

text \<open>
  \<open>x s\<close>: completions of stream \<open>s\<close> that are being handled and still counted. \<open>cur\<close>: a write whose callback is just to be
  called, or that is just to be sent.
\<close>

definition counts_ok :: "iocp_env \<Rightarrow> wid set \<Rightarrow> (sid \<Rightarrow> nat) \<Rightarrow> 'x win_client_scheme \<Rightarrow> bool" where
  "counts_ok E B x w \<longleftrightarrow> (\<forall>s. writes_size (streams w s) = of_nat (card (out_of E B w s) + x s))"

definition once_ok :: "iocp_env \<Rightarrow> wid set \<Rightarrow> wid option \<Rightarrow> 'x win_client_scheme \<Rightarrow> bool" where
  "once_ok E B cur w \<longleftrightarrow>
     (\<forall>a. count_list (done_writes w) a = (if a < issued w \<and> \<not> outstanding E B w a \<and> cur \<noteq> Some a then 1 else 0))"

definition sends_ok :: "iocp_env \<Rightarrow> wid set \<Rightarrow> wid option \<Rightarrow> 'x win_client_scheme \<Rightarrow> bool" where
  "sends_ok E B cur w \<longleftrightarrow>
     (\<forall>a b. (a, b) \<in> set (sends w) \<longrightarrow> a < issued w) \<and>
     (\<forall>a \<in> set (completing (whist w)). (a, True) \<in> set (sends w)) \<and>
     (\<forall>a \<in> set (handed E (whist w)). (a, True) \<in> set (sends w)) \<and> B \<subseteq> set (handed E (whist w)) \<and>
     (\<forall>a. cur = Some a \<longrightarrow> a < issued w \<and> \<not> outstanding E B w a) \<and>
     (\<forall>a. outstanding E B w a \<longrightarrow> whandle w a = written_to w a \<and> win_handler (wevent w a) = Some Win_write_io) \<and>
     (\<forall>a. a < issued w \<longrightarrow> cb (ops w a) \<noteq> None)"

definition win_inv :: "iocp_env \<Rightarrow> wid set \<Rightarrow> (sid \<Rightarrow> nat) \<Rightarrow> wid option \<Rightarrow> 'x win_client_scheme \<Rightarrow> bool" where
  "win_inv E B x cur w \<longleftrightarrow> counts_ok E B x w \<and> once_ok E B cur w \<and> sends_ok E B cur w"

text \<open>What the invariant looks at, and the assignments and calls that leave it alone.\<close>

named_theorems writes_unchanged \<open>operations that do not change what the invariant of the writes looks at\<close>

definition writes_view ::
  "iocp_env \<Rightarrow> 'x win_client_scheme \<Rightarrow> (sid \<Rightarrow> size_t) \<times> wid \<times> (wid \<Rightarrow> sid) \<times> call list \<times> wid list \<times> wid list \<times> (wid \<times> bool) list \<times>
    (wid \<Rightarrow> sid) \<times> (wid \<Rightarrow> callback option) \<times> (wid \<Rightarrow> win_handler option)" where
  "writes_view E w = (\<lambda>s. writes_size (streams w s), issued w, written_to w, log w, handed E (whist w), completing (whist w), sends w, whandle w,
     \<lambda>a. cb (ops w a), \<lambda>a. win_handler (wevent w a))"

lemma view_inv:
  assumes "writes_view E w' = writes_view E w"
  shows "win_inv E B x cur w' = win_inv E B x cur w"
proof -
  have v: "writes_size (streams w' s) = writes_size (streams w s)" "issued w' = issued w" "written_to w' = written_to w"
    "log w' = log w" "handed E (whist w') = handed E (whist w)" "completing (whist w') = completing (whist w)" "sends w' = sends w" "whandle w' = whandle w"
    "cb (ops w' a) = cb (ops w a)" "win_handler (wevent w' a) = win_handler (wevent w a)" for s a
    using assms by (auto simp: writes_view_def fun_eq_iff)
  have "outstanding E B w' = outstanding E B w" by (simp add: outstanding_def fun_eq_iff v)
  moreover from this have "out_of E B w' = out_of E B w" by (simp add: out_of_def fun_eq_iff v)
  ultimately show ?thesis
    by (simp add: win_inv_def counts_ok_def once_ok_def sends_ok_def done_writes_def v)
qed

text \<open>Calls that neither send nor wait.\<close>

fun quiet :: "win_sys \<Rightarrow> bool" where
  "quiet (Wsa_send f bs v) = False"
| "quiet (Get_completions f n t) = False"
| "quiet _ = True"

lemma quiet_None: "quiet c \<Longrightarrow> send_of (c, r) = None" "quiet c \<Longrightarrow> batch E (h @ [(c, r)]) = []"
  "quiet c \<Longrightarrow> completed_by S (c, r) = []"
  by (cases c; simp add: batch_def)+

lemma sends_after: "sends (wdo os c w) = sends w @ (case send_of (c, wkern os (whist w) c) of None \<Rightarrow> [] | Some p \<Rightarrow> [p])"
  by (simp add: wsys_def Let_def sends_def List.map_filter_def split: option.split)

lemma handed_snoc: "handed E (h @ [p]) = handed E h @ batch E (h @ [p])"
proof -
  have "take i (h @ [p]) = take i h" if "i \<in> set [1..<Suc (length h)]" for i using that by auto
  then have "map (\<lambda>i. batch E (take i (h @ [p]))) [1..<Suc (length h)] = map (\<lambda>i. batch E (take i h)) [1..<Suc (length h)]"
    by (intro map_cong refl) (simp only:)
  moreover have "[1..<Suc (length (h @ [p]))] = [1..<Suc (length h)] @ [Suc (length h)]" by simp
  ultimately show ?thesis unfolding handed_def by (simp only: map_append concat_append) simp
qed

lemma handed_after: "handed E (whist (wdo os c w)) = handed E (whist w) @ batch E (whist w @ [(c, wkern os (whist w) c)])"
  by (simp add: wsys_def Let_def handed_snoc)

lemma completing_after:
  "completing (whist (wdo os c w)) = completing (whist w) @ completed_by (skipping (whist w)) (c, wkern os (whist w) c)"
  by (simp add: wsys_def Let_def completing_snoc)

lemma handed_send [simp]: "handed E (whist (wdo os (Wsa_send f bs v) w)) = handed E (whist w)"
  by (simp add: handed_after batch_def)

text \<open>A call changes the history and the error code only.\<close>

lemma wsys_fields [simp]:
  "io (wdo os c w) = io w" "streams (wdo os c w) = streams w" "ops (wdo os c w) = ops w"
  "servers (wdo os c w) = servers w" "qnodes (wdo os c w) = qnodes w" "revent (wdo os c w) = revent w"
  "read_buf (wdo os c w) = read_buf w" "wevent (wdo os c w) = wevent w" "whandle (wdo os c w) = whandle w"
  "accept_ops (wdo os c w) = accept_ops w" "acceptex_loaded (wdo os c w) = acceptex_loaded w"
  "connects (wdo os c w) = connects w" "connectex_loaded (wdo os c w) = connectex_loaded w"
  "nevent (wdo os c w) = nevent w" "notifiers (wdo os c w) = notifiers w"
  by (simp_all add: wsys_def Let_def)

lemma wsys_ghosts [simp]:
  fixes w :: "'x win_client_scheme"
  shows "issued (wdo os c w) = issued w" "written_to (wdo os c w) = written_to w" "log (wdo os c w) = log w"
  by (simp_all add: wsys_def Let_def)

lemma view_wdo [writes_unchanged]: "quiet c \<Longrightarrow> writes_view E (wdo os c w) = writes_view E w"
  by (simp add: writes_view_def sends_after handed_after completing_after quiet_None)

lemma view_updates [writes_unchanged]:
  "(\<forall>s. writes_size (f s) = writes_size (streams w s)) \<Longrightarrow> writes_view E (w\<lparr>streams := f\<rparr>) = writes_view E w"
  "writes_view E (w\<lparr>io := c\<rparr>) = writes_view E w" "writes_view E (w\<lparr>qnodes := m\<rparr>) = writes_view E w"
  "writes_view E (w\<lparr>servers := sv\<rparr>) = writes_view E w" "writes_view E (w\<lparr>revent := rv\<rparr>) = writes_view E w"
  "writes_view E (w\<lparr>read_buf := rb\<rparr>) = writes_view E w" "writes_view E (w\<lparr>accept_ops := ps\<rparr>) = writes_view E w"
  "writes_view E (w\<lparr>acceptex_loaded := l\<rparr>) = writes_view E w" "writes_view E (w\<lparr>connects := cs\<rparr>) = writes_view E w"
  "writes_view E (w\<lparr>connectex_loaded := b\<rparr>) = writes_view E w" "writes_view E (w\<lparr>nevent := nv\<rparr>) = writes_view E w"
  by (simp_all add: writes_view_def sends_def)

lemma view_timers [writes_unchanged]: "writes_view E (w\<lparr>tmem := m\<rparr>) = writes_view E w" "writes_view E (w\<lparr>hnodes := h\<rparr>) = writes_view E w"
  by (simp_all add: writes_view_def sends_def)

lemma view_inc_refs [writes_unchanged]: "writes_view E (inc_refs w) = writes_view E w" "writes_view E (dec_refs w) = writes_view E w"
  by (simp_all add: inc_refs_def dec_refs_def writes_unchanged)

end
