(* ===== verification/Windows_Correct.thy ===== *)
theory Windows_Correct
  imports Windows_Invariant
begin

text \<open>
  Every operation of a stream on Windows keeps the invariant of the writes, if the functions of the client do (locale
  \<open>win_callbacks\<close>); client programs do, so the locale is interpreted on all of them.
\<close>

section \<open>Operations without callbacks\<close>

lemma try_close_view: "win_try_close os s w = Inr w' \<Longrightarrow> writes_view E w' = writes_view E w"
  by (auto simp: win_try_close_def Let_def bind_res_eq_Inr writes_unchanged split: if_splits)

lemma close_view: "win_tcp_close os s w = Inr w' \<Longrightarrow> writes_view E w' = writes_view E w"
  by (auto simp: win_tcp_close_def Let_def writes_unchanged dest!: try_close_view split: if_splits)

lemma shutdown_view: "writes_view E (win_tcp_shutdown os s w) = writes_view E w"
  by (simp add: win_tcp_shutdown_def Let_def writes_unchanged)

lemma pause_view: "writes_view E (win_tcp_pause os s w) = writes_view E w"
  by (simp add: win_tcp_pause_def Let_def writes_unchanged)

lemma fail_view: "writes_view E (snd (win_fail os f w)) = writes_view E w"
  by (simp add: win_fail_def Let_def writes_unchanged)

lemma connect_start_view: "writes_view E (snd (win_connect_start os s host port f w)) = writes_view E w"
  by (simp add: win_connect_start_def Let_def case_prod_unfold fail_view writes_unchanged)

lemma connect_view: "writes_view E (snd (win_tcp_connect os s host port f w)) = writes_view E w"
  by (simp add: win_tcp_connect_def Let_def case_prod_unfold fail_view connect_start_view writes_unchanged)

lemma close_inv:
  "win_inv E B x cur w \<Longrightarrow> win_try_close os s w = Inr w' \<Longrightarrow> win_inv E B x cur w'"
  "win_inv E B x cur w \<Longrightarrow> win_tcp_close os s w = Inr w' \<Longrightarrow> win_inv E B x cur w'"
  using view_inv [OF try_close_view] view_inv [OF close_view] by blast+

lemma option_view:
  "writes_view E (snd (win_tcp_keepalive os s enable delay w)) = writes_view E w"
  "writes_view E (snd (win_tcp_nodelay os s enable w)) = writes_view E w"
  "writes_view E (win_notifier_send os n w) = writes_view E w"
  by (simp_all add: win_tcp_keepalive_def win_tcp_nodelay_def win_notifier_send_def Let_def case_prod_unfold writes_unchanged)

lemma timer_view:
  "pd_timer_start t f d w = Inr w' \<Longrightarrow> writes_view E w' = writes_view E w"
  "pd_timer_stop t w = Inr w' \<Longrightarrow> writes_view E w' = writes_view E w"
  by (auto simp: pd_timer_start_def pd_timer_stop_def Let_def bind_res_eq_Inr writes_unchanged split: if_splits)

lemma timer_inv:
  "win_inv E B x cur w \<Longrightarrow> pd_timer_start t f d w = Inr w' \<Longrightarrow> win_inv E B x cur w'"
  "win_inv E B x cur w \<Longrightarrow> pd_timer_stop t w = Inr w' \<Longrightarrow> win_inv E B x cur w'"
  using view_inv [OF timer_view(1)] view_inv [OF timer_view(2)] by blast+

section \<open>Facts about the invariant\<close>

lemma finite_out: "finite (out_of E B w s)"
  by (rule finite_subset [of _ "{..<issued w}"]) (auto simp: out_of_def)

lemma log_fields [simp]:
  "issued (win_log c w) = issued w" "written_to (win_log c w) = written_to w" "whist (win_log c w) = whist w"
  "sends (win_log c w) = sends w" "outstanding E B (win_log c w) = outstanding E B w" "out_of E B (win_log c w) = out_of E B w"
  by (simp_all add: win_log_def sends_def outstanding_def out_of_def fun_eq_iff)

text \<open>A callback for the current write is logged.\<close>

lemma win_log_write:
  assumes "win_inv E B x (Some a) w"
  shows "win_inv E B x None (win_log (Write_cb f a st) w)"
proof -
  have "done_writes (win_log (Write_cb f a st) w) = done_writes w @ [a]"
    by (simp add: done_writes_def win_log_def List.map_filter_def)
  moreover have "a < issued w" "\<not> outstanding E B w a" using assms by (auto simp: win_inv_def sends_ok_def)
  ultimately show ?thesis using assms
    by (auto simp: win_inv_def counts_ok_def once_ok_def sends_ok_def) (auto simp: win_log_def)
qed

lemma win_log_other:
  assumes "win_inv E B x cur w" "write_done c = None"
  shows "win_inv E B x cur (win_log c w)"
proof -
  have "done_writes (win_log c w) = done_writes w"
    using assms(2) by (simp add: done_writes_def win_log_def List.map_filter_def)
  then show ?thesis using assms
    by (auto simp: win_inv_def counts_ok_def once_ok_def sends_ok_def) (auto simp: win_log_def)
qed

text \<open>A new write operation.\<close>

lemma win_new_op_inv:
  assumes "win_inv E B x None w"
  shows "win_inv E B x (Some (issued w)) (win_new_op s buf f w)"
proof -
  let ?w = "win_new_op s buf f w"
  have sends: "sends ?w = sends w" by (simp add: win_new_op_def win_write_init_def sends_def)
  have fields: "issued ?w = issued w + 1" "written_to ?w = (written_to w)(issued w := s)" "log ?w = log w"
    "whist ?w = whist w" "whandle ?w = whandle w" "streams ?w = streams w"
    "ops ?w = (ops w)(issued w := (ops w (issued w))\<lparr>cb := Some f, data := buf\<rparr>)"
    "wevent ?w = (wevent w)(issued w := win_event_init\<lparr>win_handler := Some Win_write_io\<rparr>)"
    by (simp_all add: win_new_op_def win_write_init_def Let_def)
  have o: "outstanding E B ?w = outstanding E B w" by (simp add: outstanding_def sends fields fun_eq_iff)
  have fresh: "\<not> outstanding E B w (issued w)" using assms by (auto simp: win_inv_def sends_ok_def outstanding_def)
  have old: "a < issued w" if "outstanding E B w a" for a using assms that by (auto simp: win_inv_def sends_ok_def outstanding_def)
  have "out_of E B ?w t = out_of E B w t" for t using fresh old by (auto simp: out_of_def o fields less_Suc_eq)
  moreover have "done_writes ?w = done_writes w" by (simp add: done_writes_def fields)
  moreover have "sends_ok E B (Some (issued w)) ?w"
    using assms fresh unfolding win_inv_def sends_ok_def o sends fields
    by (auto simp: less_Suc_eq)
  moreover have "count_list (done_writes w) a = (if a < issued w + 1 \<and> \<not> outstanding E B w a \<and> issued w \<noteq> a then 1 else 0)" for a
    using assms by (auto simp: win_inv_def once_ok_def)
  ultimately show ?thesis using assms by (simp add: win_inv_def counts_ok_def once_ok_def o fields)
qed

text \<open>The send of the current write is pending: it is counted.\<close>

lemma sent_inv:
  assumes "win_inv E B x (Some a) w" "\<forall>b. (a, b) \<notin> set (sends w)" "written_to w a = s"
    and "win_handler (wevent w a) = Some Win_write_io" "sends w' = sends w @ [(a, True)]"
    and "writes_view E u = writes_view E w" "streams w' = (streams u)(s := g (streams u s))"
    and "writes_size (g (streams u s)) = writes_size (streams u s) + 1"
    and "issued w' = issued u" "written_to w' = written_to u" "log w' = log u" "handed E (whist w') = handed E (whist w)"
    and "completing (whist w') = completing (whist w) @ [a]"
    and "whandle w' = (whandle u)(a := s)" "ops w' = ops u" "wevent w' = wevent u"
  shows "win_inv E B x None w'"
proof -
  have v: "writes_size (streams u t) = writes_size (streams w t)" "issued w' = issued w" "written_to w' = written_to w"
    "log w' = log w" "handed E (whist w') = handed E (whist w)" "whandle w' = (whandle w)(a := s)" "cb (ops w' b) = cb (ops w b)"
    "win_handler (wevent w' b) = win_handler (wevent w b)" for t b
    using assms(6,9-16) by (auto simp: writes_view_def fun_eq_iff)
  have a: "a < issued w" "\<not> outstanding E B w a" using assms(1) by (auto simp: win_inv_def sends_ok_def)
  have c: "a \<notin> set (handed E (whist w))" using assms(1,2) by (auto simp: win_inv_def sends_ok_def)
  have o: "outstanding E B w' b \<longleftrightarrow> outstanding E B w b \<or> b = a" for b
    using c by (auto simp: outstanding_def assms(5) v)
  have "out_of E B w' t = (if t = s then insert a (out_of E B w t) else out_of E B w t)" for t
    using a assms(3) by (auto simp: out_of_def o v)
  moreover have "a \<notin> out_of E B w t" for t using a by (simp add: out_of_def)
  ultimately have "card (out_of E B w' t) = card (out_of E B w t) + of_bool (t = s)" for t
    by (simp add: finite_out)
  then have "counts_ok E B x w'" using assms(1,8)
    by (auto simp: win_inv_def counts_ok_def assms(7) v)
  moreover have "once_ok E B None w'" using assms(1) a by (auto simp: win_inv_def once_ok_def o v done_writes_def)
  moreover have "sends_ok E B None w'"
    using assms(1,3,4) a unfolding win_inv_def sends_ok_def o assms(5,13) v by auto
  ultimately show ?thesis by (simp add: win_inv_def)
qed

text \<open>A completion that was handed out is handled.\<close>

lemma batch_outstanding: "win_inv E B x cur w \<Longrightarrow> a \<in> B \<Longrightarrow> outstanding E B w a"
  by (auto simp: win_inv_def sends_ok_def outstanding_def)

lemma completes_inv:
  assumes "win_inv E B x None w" "a \<in> B"
  shows "win_inv E (B - {a}) (x(written_to w a := x (written_to w a) + 1)) (Some a) w"
proof -
  let ?s = "written_to w a"
  have here: "outstanding E B w a" by (rule batch_outstanding [OF assms])
  have h: "a \<in> set (handed E (whist w))" using assms by (auto simp: win_inv_def sends_ok_def)
  have o: "outstanding E (B - {a}) w b \<longleftrightarrow> outstanding E B w b \<and> b \<noteq> a" for b using h by (auto simp: outstanding_def)
  have a: "a < issued w" using assms here by (auto simp: win_inv_def sends_ok_def outstanding_def)
  have "out_of E (B - {a}) w t = out_of E B w t - {a}" for t by (auto simp: out_of_def o)
  moreover have "a \<in> out_of E B w t \<longleftrightarrow> t = ?s" for t using a here by (auto simp: out_of_def)
  ultimately have "card (out_of E B w t) = card (out_of E (B - {a}) w t) + of_bool (t = ?s)" for t
    using card_Suc_Diff1 [OF finite_out, of a E B w t] by auto
  then have "counts_ok E (B - {a}) (x(?s := x ?s + 1)) w" using assms(1) by (auto simp: win_inv_def counts_ok_def)
  moreover have "once_ok E (B - {a}) (Some a) w" using assms here by (auto simp: win_inv_def once_ok_def o)
  moreover have "sends_ok E (B - {a}) (Some a) w" using assms a by (auto simp: win_inv_def sends_ok_def o)
  ultimately show ?thesis by (simp add: win_inv_def)
qed

text \<open>A wait: what it hands out is still to be handled.\<close>

lemma wait_inv:
  assumes "port_documented E" "win_inv E {} x None w" "w1 = wdo os (Get_completions f n t) w"
  shows "win_inv E (set (batch E (whist w1))) x None w1"
proof -
  let ?c = "Get_completions f n t" and ?b = "batch E (whist w1)"
  have h: "whist w1 = whist w @ [(?c, wkern os (whist w) ?c)]" by (simp add: assms(3) wsys_def Let_def)
  have s: "sends w1 = sends w" by (simp add: sends_def h List.map_filter_def)
  have hand: "handed E (whist w1) = handed E (whist w) @ ?b" by (simp add: h handed_snoc)
  have c: "completing (whist w1) = completing (whist w)" by (simp add: h completing_snoc)
  have "set ?b \<subseteq> set (completing (whist w)) - set (handed E (whist w))"
    using assms(1) unfolding port_documented_def Let_def h by blast
  then have doc: "set ?b \<subseteq> {a. (a, True) \<in> set (sends w)} - set (handed E (whist w))"
    using assms(2) unfolding win_inv_def sends_ok_def by blast
  have same: "issued w1 = issued w" "written_to w1 = written_to w" "log w1 = log w" "streams w1 = streams w"
    "whandle w1 = whandle w" "ops w1 = ops w" "wevent w1 = wevent w"
    by (simp_all add: assms(3))
  have o: "outstanding E (set ?b) w1 a \<longleftrightarrow> outstanding E {} w a" for a
    using doc by (auto simp: outstanding_def s hand)
  have "out_of E (set ?b) w1 v = out_of E {} w v" for v by (simp add: out_of_def o same)
  then show ?thesis using assms(2) doc
    by (auto simp: win_inv_def counts_ok_def once_ok_def sends_ok_def o same s c hand done_writes_def)
qed

section \<open>Operations with callbacks\<close>

text \<open>The invariant holds where a function ends without a fault.\<close>

definition ends_ok :: "iocp_env \<Rightarrow> wid set \<Rightarrow> (sid \<Rightarrow> nat) \<Rightarrow> (int \<times> 'x win_client_scheme) res \<Rightarrow> bool" where
  "ends_ok E B x r \<longleftrightarrow> (\<forall>st w. r = Inr (st, w) \<longrightarrow> win_inv E B x None w)"

text \<open>What is needed of the functions of the client; \<open>x\<close> are the completions that are being handled meanwhile.\<close>

locale win_callbacks =
  fixes k :: "'x win_client_scheme client" and os :: win_os and E :: iocp_env
  assumes documented: "sends_documented os" and modes: "immediate_skips os"
    and write_call: "win_inv E B x (Some a) w \<Longrightarrow> call k (Write_cb f a st) w = Inr w' \<Longrightarrow> win_inv E B x None w'"
    and other_call: "write_done c = None \<Longrightarrow> win_inv E B x None w \<Longrightarrow> call k c w = Inr w' \<Longrightarrow> win_inv E B x None w'"
begin

lemma write_ptr:
  "win_inv E B x (Some a) w \<Longrightarrow> call_ptr k g (\<lambda>f. Write_cb f a st) w = Inr w' \<Longrightarrow> win_inv E B x None w'"
  by (auto simp: call_ptr_def intro: write_call split: option.splits)

lemma other_ptr:
  "(\<And>f. write_done (c f) = None) \<Longrightarrow> win_inv E B x None w \<Longrightarrow> call_ptr k g c w = Inr w' \<Longrightarrow> win_inv E B x None w'"
  by (auto simp: call_ptr_def intro: other_call split: option.splits)

lemma other_opt:
  "(\<And>f. write_done (c f) = None) \<Longrightarrow> win_inv E B x None w \<Longrightarrow> call_opt k g c w = Inr w' \<Longrightarrow> win_inv E B x None w'"
  by (auto simp: call_opt_def intro: other_call split: option.splits)

lemma tcp_write_inv:
  assumes inv: "win_inv E B x (Some a) w" and new: "\<forall>b. (a, b) \<notin> set (sends w)" "written_to w a = s"
    "win_handler (wevent w a) = Some Win_write_io" and r: "win_tcp_write k os s a w = Inr w'"
  shows "win_inv E B x None w'"
proof (cases "status (streams w s) = PD_TCP_ACTIVE")
  case False
  then show ?thesis using r write_ptr [OF inv] by (simp add: win_tcp_write_def)
next
  case True
  let ?c = "Wsa_send (fd (streams w s)) (data (ops w a)) (Write_ovl a)"
  define w1 where "w1 = wdo os ?c w"
  define w2 where "w2 = w1\<lparr>whandle := (whandle w1)(a := s)\<rparr>"
  define rp where "rp = wkern os (whist w) ?c"
  have c: "wsys os ?c w = (rp, w1)" by (simp add: w1_def rp_def wsys_def Let_def)
  have doc: "ret rp = 0 \<or> ret rp = SOCKET_ERROR \<and> err rp \<noteq> None"
    using documented unfolding sends_documented_def Let_def rp_def by blast
  have mode: "ret rp = 0 \<Longrightarrow> fd (streams w s) \<in> skipping (whist w)"
    using modes unfolding immediate_skips_def rp_def by blast
  have compl: "completing (whist w2) = completing (whist w) @ (if ret rp = SOCKET_ERROR \<and> err rp = Some WSA_IO_PENDING then [a] else [])"
    using mode by (auto simp: w2_def w1_def completing_after rp_def)
  have last: "err rp \<noteq> None \<Longrightarrow> err rp = Some (last_err w1)"
    by (auto simp: w1_def rp_def wsys_def Let_def split: option.splits)
  have sends: "sends w2 = sends w @ [(a, ret rp = SOCKET_ERROR \<and> err rp = Some WSA_IO_PENDING)]"
    by (simp add: w2_def w1_def rp_def sends_def wsys_def Let_def List.map_filter_def)
  have r': "(if ret rp = 0 then call_ptr k (cb (ops w2 a)) (\<lambda>f. Write_cb f a 0) w2
      else if ret rp = SOCKET_ERROR \<and> last_err w2 \<noteq> WSA_IO_PENDING then
        call_ptr k (cb (ops w2 a)) (\<lambda>f. Write_cb f a (win_errmap os (last_err w2))) w2
      else Inr (set_stream s (\<lambda>t. t\<lparr>writes_size := writes_size t + 1,
        stream_flags := stream_flags t OR PD_WRITING\<rparr>) w2)) = Inr w'"
    using r True by (simp only: win_tcp_write_def c prod.case Let_def w2_def [symmetric] simp_thms if_False)
  show ?thesis
  proof (cases "ret rp = SOCKET_ERROR \<and> err rp = Some WSA_IO_PENDING")
    case True
    then have "w' = set_stream s (\<lambda>t. t\<lparr>writes_size := writes_size t + 1, stream_flags := stream_flags t OR PD_WRITING\<rparr>) w2"
      using r' last by (auto simp: w2_def SOCKET_ERROR_def)
    then show ?thesis using sends True compl
      by (intro sent_inv [OF inv new, where u = w and g = "\<lambda>t. t\<lparr>writes_size := writes_size t + 1,
            stream_flags := stream_flags t OR PD_WRITING\<rparr>"])
        (simp_all add: w2_def w1_def sends_def)
  next
    case False
    have "last_err w2 \<noteq> WSA_IO_PENDING" if "ret rp \<noteq> 0" using doc last False that by (auto simp: w2_def)
    with r' doc obtain g st where call: "call_ptr k g (\<lambda>f. Write_cb f a st) w2 = Inr w'" by (auto split: if_splits)
    have o: "outstanding E B w2 = outstanding E B w"
      using sends False by (auto simp: outstanding_def fun_eq_iff w2_def w1_def)
    have "\<not> outstanding E B w a" using inv by (auto simp: win_inv_def sends_ok_def)
    then have "win_inv E B x (Some a) w2"
      using inv sends False compl unfolding win_inv_def counts_ok_def once_ok_def sends_ok_def out_of_def done_writes_def o
      by (auto simp: w2_def w1_def)
    then show ?thesis using write_ptr call by blast
  qed
qed

lemma write_io_inv:
  assumes inv: "win_inv E B (x(s := x s + 1)) (Some a) w" "s = whandle w a" and r: "win_write_io k os a w = Inr w'"
    and cb: "cb (ops w a) \<noteq> None"
  shows "win_inv E B x None w'"
proof -
  obtain w1 where w1: "call_opt k (cb (ops w a)) (\<lambda>f. Write_cb f a 0) w = Inr w1"
    using r by (auto simp: win_write_io_def Let_def bind_res_eq_Inr)
  then have "win_inv E B (x(s := x s + 1)) None w1" using cb write_call [OF inv(1)] by (auto simp: call_opt_def)
  moreover define w2 where "w2 = set_stream s (\<lambda>t. t\<lparr>writes_size := writes_size t - 1\<rparr>) w1"
  ultimately have inv2: "win_inv E B x None w2"
  proof -
    assume i: "win_inv E B (x(s := x s + 1)) None w1"
    have o: "outstanding E B w2 = outstanding E B w1" by (simp add: outstanding_def w2_def sends_def fun_eq_iff)
    show ?thesis using i unfolding win_inv_def counts_ok_def once_ok_def sends_ok_def out_of_def done_writes_def o
      by (auto simp: w2_def sends_def algebra_simps split: if_splits)
  qed
  define w3 where "w3 = (if writes_size (streams w2 s) = 0 then
      let w = set_stream s (\<lambda>t. t\<lparr>stream_flags := stream_flags t AND NOT PD_WRITING\<rparr>) w2
      in if status (streams w s) = PD_TCP_SHUTDOWN then wdo os (Wsa_shutdown (fd (streams w s))) w else w
    else w2)"
  have "writes_view E w3 = writes_view E w2" by (simp add: w3_def Let_def writes_unchanged)
  then have inv3: "win_inv E B x None w3" using inv2 view_inv by blast
  have "(if status (streams w3 s) = PD_TCP_CLOSED then win_try_close os s w3 else Inr w3) = Inr w'"
    using r by (simp only: win_write_io_def Let_def assms(2) [symmetric] w1 bind_res.simps w2_def [symmetric]
        w3_def [unfolded Let_def, symmetric])
  then show ?thesis using inv3 close_inv(1) by (auto simp only: sum.inject split: if_splits)
qed

lemma post_recv_inv:
  assumes inv: "win_inv E B x None w" and r: "win_post_recv k os s w = Inr w'"
  shows "win_inv E B x None w'"
proof -
  define w1 where "w1 = w\<lparr>revent := (revent w)(s := win_event_init\<lparr>win_handler := Some Win_read_io\<rparr>)\<rparr>"
  define w2 where "w2 = w1\<lparr>read_buf := (read_buf w1)(s := alloc k (allocator (streams w1 s)) s (unat (8 * 1024 :: size_t)) w1)\<rparr>"
  let ?c = "Wsa_recv (fd (streams w2 s)) (8 * 1024) (Recv_ovl s)"
  obtain rp w3 where c: "wsys os ?c w2 = (rp, w3)" by fastforce
  have "writes_view E w2 = writes_view E w" by (simp add: w1_def w2_def writes_unchanged)
  then have inv2: "win_inv E B x None w2" using inv view_inv by blast
  have "w3 = wdo os ?c w2" using c by simp
  then have inv3: "win_inv E B x None w3" using inv2 by (simp add: view_inv [OF view_wdo])
  have call: "win_inv E B x None v'" if "win_inv E B x None v" "call_ptr k g (\<lambda>f. On_data f s b n) v = Inr v'" for g b n v v'
    using other_ptr [OF _ that] by simp
  have "(if fd (streams w s) = INVALID_SOCKET then Inl Assert_failed
      else if read_buf w2 s = None then call_ptr k (on_data (streams w2 s)) (\<lambda>f. On_data f s None (word_of_int PD_ENOMEM)) w2
      else if ret rp = 0 then call_ptr k (on_data (streams w3 s)) (\<lambda>f. On_data f s (read_buf w3 s) (ucast (stored rp))) w3
      else if ret rp = SOCKET_ERROR \<and> last_err w3 \<noteq> WSA_IO_PENDING then
        call_ptr k (on_data (streams w3 s)) (\<lambda>f. On_data f s (read_buf w3 s) (word_of_int (win_pd_errno os w3))) w3
      else Inr (set_stream s (\<lambda>t. t\<lparr>stream_flags := stream_flags t OR PD_READING OR PD_PENDING_READ\<rparr>) w3)) = Inr w'"
    using r by (simp only: win_post_recv_def Let_def w1_def [symmetric] w2_def [symmetric] c prod.case)
  moreover have "win_inv E B x None (set_stream s (\<lambda>t. t\<lparr>stream_flags := stream_flags t OR PD_READING OR PD_PENDING_READ\<rparr>) w3)"
    using inv3 by (simp add: view_inv [OF view_updates(1)])
  ultimately show ?thesis using call [OF inv2] call [OF inv3] by (auto simp only: sum.inject split: if_splits)
qed

lemma read_io_inv:
  assumes inv: "win_inv E B x None w" and r: "win_read_io k os s w = Inr w'"
  shows "win_inv E B x None w'"
proof -
  define w1 where "w1 = set_stream s (\<lambda>t. t\<lparr>stream_flags := stream_flags t AND NOT PD_PENDING_READ\<rparr>) w"
  have inv1: "win_inv E B x None w1" using inv by (simp add: w1_def view_inv [OF view_updates(1)])
  show ?thesis
  proof (cases "bytes (revent w1 s) > 0")
    case True
    then obtain w2 where call: "call_ptr k (on_data (streams w1 s)) (\<lambda>f. On_data f s (read_buf w1 s) (bytes (revent w1 s))) w1 =
        Inr w2"
      and rest: "(if status (streams w2 s) = PD_TCP_CLOSED then win_try_close os s w2
        else if stream_flags (streams w2 s) AND PD_READING \<noteq> 0 then win_post_recv k os s w2 else Inr w2) = Inr w'"
      using r by (auto simp only: win_read_io_def Let_def w1_def [symmetric] bind_res_eq_Inr if_True)
    have "win_inv E B x None w2" using other_ptr [OF _ inv1 call] by simp
    then show ?thesis using rest post_recv_inv close_inv(1)
      by (auto simp only: sum.inject split: if_splits)
  next
    case False
    then have "win_tcp_close os s w1 = Inr w'"
      using r by (simp only: win_read_io_def Let_def w1_def [symmetric] if_False)
    then show ?thesis using inv1 close_inv by blast
  qed
qed

lemma resume_inv:
  assumes inv: "win_inv E B x None w" and r: "win_tcp_resume k os s w = Inr w'"
  shows "win_inv E B x None w'"
proof -
  define w1 where "w1 = set_stream s (\<lambda>t. t\<lparr>stream_flags := stream_flags t OR PD_READING\<rparr>) w"
  have "win_inv E B x None w1" using inv by (simp add: w1_def view_inv [OF view_updates(1)])
  moreover have "(if stream_flags (streams w1 s) AND PD_PENDING_READ = 0 then win_post_recv k os s w1 else Inr w1) = Inr w'"
    using r by (simp only: win_tcp_resume_def Let_def w1_def [symmetric])
  ultimately show ?thesis using post_recv_inv by (auto simp only: sum.inject split: if_splits)
qed

lemma accept_inv:
  assumes inv: "win_inv E B x None w" and r: "win_tcp_accept k os s sock w = Inr w'"
  shows "win_inv E B x None w'"
proof -
  define w1 where "w1 = inc_refs (set_stream s (\<lambda>t. t\<lparr>status := PD_TCP_ACTIVE, fd := sock\<rparr>) w)"
  have "writes_view E w1 = writes_view E w" by (simp add: w1_def writes_unchanged)
  moreover have "writes_view E (wdo os (Associate (fd (streams w1 s)) (poll_fd (io w1))) w1) = writes_view E w1"
    by (simp add: view_wdo)
  ultimately have "win_inv E B x None (wdo os (Associate (fd (streams w1 s)) (poll_fd (io w1))) w1)"
    using inv view_inv by metis
  moreover have "win_post_recv k os s (wdo os (Associate (fd (streams w1 s)) (poll_fd (io w1))) w1) = Inr w'"
    using r by (simp only: win_tcp_accept_def Let_def w1_def [symmetric])
  ultimately show ?thesis by (rule post_recv_inv)
qed

lemma connect_io_inv:
  assumes inv: "win_inv E B x None w" and r: "win_connect_io k os e w = Inr w'"
  shows "win_inv E B x None w'"
proof -
  obtain s ev where e: "connects w e = Some (s, ev)" using r by (auto simp: win_connect_io_def split: option.splits)
  let ?c = "Overlapped_result (fd (streams w s)) (Connect_ovl e)"
  obtain rp w1 where c: "wsys os ?c w = (rp, w1)" by fastforce
  define w2 where "w2 = w1\<lparr>connects := (connects w1)(e := None)\<rparr>"
  have "w1 = wdo os ?c w" using c by simp
  then have "writes_view E w2 = writes_view E w" by (simp add: w2_def writes_unchanged)
  then have inv2: "win_inv E B x None w2" using inv view_inv by blast
  define mid where "mid = (if ret rp \<noteq> 0 then
      bind_res (win_post_recv k os s w2) (\<lambda>w. Inr (0, set_stream s (\<lambda>t. t\<lparr>status := PD_TCP_ACTIVE\<rparr>) w))
    else if last_err w2 = WSA_IO_PENDING then Inl Assert_failed
    else Inr (win_errmap os (last_err w2), w2))"
  have "bind_res mid (\<lambda>(st, w). call_opt k (on_connect (streams w s)) (\<lambda>f. On_connect f s st) w) = Inr w'"
    using r by (simp only: win_connect_io_def e option.case prod.case c Let_def w2_def [symmetric] mid_def)
  then obtain st w3 where mid: "mid = Inr (st, w3)"
    and last: "call_opt k (on_connect (streams w3 s)) (\<lambda>f. On_connect f s st) w3 = Inr w'"
    by (auto simp only: bind_res_eq_Inr prod.case)
  have "win_inv E B x None w3"
    using mid post_recv_inv [OF inv2] inv2
    by (auto simp: mid_def bind_res_eq_Inr view_inv [OF view_updates(1)] split: if_splits)
  then show ?thesis using other_opt [OF _ _ last] by simp
qed

section \<open>Listeners\<close>

lemma accepted_inv:
  assumes inv: "win_inv E B x None w" and r: "win_accepted k os p w = Inr w'"
  shows "win_inv E B x None w'"
proof -
  let ?v = "op_server (accept_ops w p)" and ?sock = "op_socket (accept_ops w p)"
  define w1 where "w1 = wdo os (Wsa_setsockopt ?sock Wo_update_accept_context ?sock) w"
  have "win_inv E B x None w1" using inv by (simp add: w1_def view_inv [OF view_wdo])
  moreover have "call_opt k (on_connection (servers w1 ?v)) (\<lambda>f. On_connection f ?v (op_socket (accept_ops w1 p)) 0) w1 = Inr w'"
    using r by (simp only: win_accepted_def Let_def w1_def [symmetric])
  ultimately show ?thesis by (rule other_opt [rotated]) simp
qed

lemma post_acceptex_inv:
  assumes "win_inv E B x None w" "win_post_acceptex k os v p w = Some (Inr w')"
  shows "win_inv E B x None w'"
proof -
  have "k' = k \<longrightarrow> os' = os \<longrightarrow> win_inv E B x None w \<longrightarrow> (\<forall>w'. r = Inr w' \<longrightarrow> win_inv E B x None w')"
    if "win_post_acceptex k' os' v p w = Some r" for k' os' v p r and w :: "'x win_client_scheme"
  proof (rule win_post_acceptex.raw_induct [OF _ that], intro impI allI)
    fix run k' os' v p and w :: "'x win_client_scheme" and r w'
    assume IH: "\<And>k' os' v p w r. run k' os' v p w = Some r \<Longrightarrow>
        k' = k \<longrightarrow> os' = os \<longrightarrow> win_inv E B x None w \<longrightarrow> (\<forall>w'. r = Inr w' \<longrightarrow> win_inv E B x None w')"
      and k: "k' = k" "os' = os" and inv: "win_inv E B x None w" and res: "r = Inr w'"
      and body: "(case wsys os' Wsa_socket w of (r, w) \<Rightarrow>
        let w = w\<lparr>accept_ops := (accept_ops w)(p := \<lparr>op_socket = ret r, op_server = v,
              op_event = win_event_init\<lparr>win_handler := Some Win_accept_io\<rparr>\<rparr>)\<rparr>;
            w = wdo os' (Set_completion_modes (op_socket (accept_ops w p))) w
        in if \<not> acceptex_loaded w v then Some (Inl Null_deref)
           else
             (case wsys os' (Accept_ex (server_fd (servers w v)) (op_socket (accept_ops w p)) (Accept_ovl p)) w of (r, w) \<Rightarrow>
                if ret r \<noteq> 0 then
                  (case win_accepted k' os' p w of
                     Inl x \<Rightarrow> Some (Inl x)
                   | Inr w \<Rightarrow> run k' os' v p w)
                else if last_err w \<noteq> WSA_IO_PENDING then
                  Some (Inr (wdo os' (Wsa_closesocket (op_socket (accept_ops w p))) w))
                else Some (Inr w))) = Some r"
    obtain r0 w0 where c0: "wsys os Wsa_socket w = (r0, w0)" by fastforce
    define w1 where "w1 = w0\<lparr>accept_ops := (accept_ops w0)(p := \<lparr>op_socket = ret r0, op_server = v,
        op_event = win_event_init\<lparr>win_handler := Some Win_accept_io\<rparr>\<rparr>)\<rparr>"
    define w2 where "w2 = wdo os (Set_completion_modes (op_socket (accept_ops w1 p))) w1"
    let ?c = "Accept_ex (server_fd (servers w2 v)) (op_socket (accept_ops w2 p)) (Accept_ovl p)"
    obtain r3 w3 where c3: "wsys os ?c w2 = (r3, w3)" by fastforce
    have "w0 = wdo os Wsa_socket w" "w3 = wdo os ?c w2" using c0 c3 by simp_all
    then have "writes_view E w3 = writes_view E w" by (simp add: w1_def w2_def writes_unchanged)
    then have inv3: "win_inv E B x None w3" using inv view_inv by blast
    have "(if \<not> acceptex_loaded w2 v then Some (Inl Null_deref)
        else if ret r3 \<noteq> 0 then
          (case win_accepted k os p w3 of Inl x \<Rightarrow> Some (Inl x) | Inr w \<Rightarrow> run k os v p w)
        else if last_err w3 \<noteq> WSA_IO_PENDING then
          Some (Inr (wdo os (Wsa_closesocket (op_socket (accept_ops w3 p))) w3))
        else Some (Inr w3)) = Some (Inr w')"
      using body by (simp only: k res c0 prod.case Let_def w1_def [symmetric] w2_def [symmetric] c3)
    then consider u where "win_accepted k os p w3 = Inr u" "run k os v p u = Some (Inr w')"
      | "w' = wdo os (Wsa_closesocket (op_socket (accept_ops w3 p))) w3" | "w' = w3"
      by (auto split: if_splits sum.splits)
    then show "win_inv E B x None w'"
    proof cases
      case 1
      then show ?thesis using IH accepted_inv [OF inv3] by blast
    qed (use inv3 in \<open>simp_all add: view_inv [OF view_wdo]\<close>)
  qed
  with assms show ?thesis by blast
qed

lemma post_acceptex_run:
  "win_inv E B x None w \<Longrightarrow> run_loop (win_post_acceptex k os v p w) = Inr w' \<Longrightarrow> win_inv E B x None w'"
  using post_acceptex_inv by (auto simp: run_loop_def split: option.splits)

lemma accept_io_inv:
  assumes inv: "win_inv E B x None w" and r: "win_accept_io k os p w = Inr w'"
  shows "win_inv E B x None w'"
proof -
  let ?c = "Overlapped_result (op_socket (accept_ops w p)) (Accept_ovl p)"
  obtain rp w1 where c: "wsys os ?c w = (rp, w1)" by fastforce
  have "w1 = wdo os ?c w" using c by simp
  then have inv1: "win_inv E B x None w1" using inv by (simp add: view_inv [OF view_wdo])
  obtain w2 where w2: "(if ret rp \<noteq> 0 then win_accepted k os p w1
        else if last_err w1 = WSA_IO_PENDING then Inl Assert_failed
        else Inr (wdo os (Wsa_closesocket (op_socket (accept_ops w1 p))) w1)) = Inr w2"
    and last: "run_loop (win_post_acceptex k os (op_server (accept_ops w p)) p w2) = Inr w'"
    using r by (auto simp only: win_accept_io_def Let_def c prod.case bind_res_eq_Inr)
  have "win_inv E B x None (wdo os (Wsa_closesocket (op_socket (accept_ops w1 p))) w1)"
    using inv1 by (simp add: view_inv [OF view_wdo])
  then have "win_inv E B x None w2" using w2 accepted_inv [OF inv1] by (auto simp only: sum.inject split: if_splits)
  then show ?thesis using last post_acceptex_run by blast
qed

lemma post_accepts_inv:
  "win_inv E B x None w \<Longrightarrow> post_accepts k os v n w = Inr (st, w') \<Longrightarrow> win_inv E B x None w'"
proof (induction n arbitrary: w)
  case 0
  then show ?case by (auto simp: view_inv [OF view_inc_refs(1)])
next
  case (Suc n)
  obtain rp w1 where c: "wsys os (Win_malloc SIZEOF_ACCEPT_OP) w = (rp, w1)" by fastforce
  have "w1 = wdo os (Win_malloc SIZEOF_ACCEPT_OP) w" using c by simp
  then have inv1: "win_inv E B x None w1" using Suc.prems(1) by (simp add: view_inv [OF view_wdo])
  have "(if ret rp = 0 then Inr (PD_ENOMEM, w1)
      else bind_res (run_loop (win_post_acceptex k os v (nat (ret rp)) w1)) (\<lambda>w. post_accepts k os v n w)) = Inr (st, w')"
    using Suc.prems(2) by (simp only: post_accepts.simps c prod.case)
  then consider "w' = w1" | u where "run_loop (win_post_acceptex k os v (nat (ret rp)) w1) = Inr u"
      "post_accepts k os v n u = Inr (st, w')"
    by (auto simp: bind_res_eq_Inr split: if_splits)
  then show ?case using inv1 post_acceptex_run Suc.IH by cases blast+
qed

text \<open>\<open>pd_tcp_listen\<close> is a sequence of calls, each with an exit of its own.\<close>

lemma step_ok:
  assumes "win_inv E B x None w" "quiet c" "\<And>r w. win_inv E B x None w \<Longrightarrow> ends_ok E B x (g r w)"
  shows "ends_ok E B x (case wsys os c w of (r, w) \<Rightarrow> g r w)"
proof -
  obtain r w1 where c: "wsys os c w = (r, w1)" by fastforce
  have "w1 = wdo os c w" using c by simp
  then have "win_inv E B x None w1" using assms(1,2) by (simp add: view_inv [OF view_wdo])
  then show ?thesis using assms(3) c by simp
qed

lemma exit_ok: "win_inv E B x None w \<Longrightarrow> ends_ok E B x (Inr (st, w))"
  by (simp add: ends_ok_def)

lemma fail_ok: "win_inv E B x None w \<Longrightarrow> ends_ok E B x (Inr (win_fail os f w))"
  by (cases "win_fail os f w") (use view_inv [OF fail_view, of E B x None os f w] in \<open>simp add: ends_ok_def\<close>)

lemma load_ok:
  assumes "win_inv E B x None w" "\<And>b w. win_inv E B x None w \<Longrightarrow> ends_ok E B x (g b w)"
  shows "ends_ok E B x (case (if acceptex_loaded w v then (False, w)
      else (case wsys os (Load_acceptex f) w of (r, w) \<Rightarrow>
              if ret r = SOCKET_ERROR then (True, w)
              else (False, w\<lparr>acceptex_loaded := (acceptex_loaded w)(v := True)\<rparr>))) of (b, w) \<Rightarrow> g b w)"
proof -
  obtain r w1 where c: "wsys os (Load_acceptex f) w = (r, w1)" by fastforce
  have "w1 = wdo os (Load_acceptex f) w" using c by simp
  then have "win_inv E B x None w1" "win_inv E B x None (w1\<lparr>acceptex_loaded := l\<rparr>)" for l
    using assms(1) by (simp_all add: view_inv [OF view_wdo] view_inv [OF view_updates(8)])
  then show ?thesis using assms c by simp
qed

lemma posts_ok: "win_inv E B x None w \<Longrightarrow> ends_ok E B x (post_accepts k os v n w)"
  using post_accepts_inv by (simp add: ends_ok_def)

lemma listen_ok:
  assumes "win_inv E B x None w"
  shows "ends_ok E B x (win_tcp_listen k os v port f w)"
proof -
  have srv: "win_inv E B x None (set_server v g w)" if "win_inv E B x None w" for g and w :: "'x win_client_scheme"
    using that by (simp add: view_inv [OF view_updates(4)])
  have cond: "ends_ok E B x (if b then p else q)" if "ends_ok E B x p" "ends_ok E B x q" for b and p q :: "(int \<times> 'x win_client_scheme) res"
    using that by simp
  show ?thesis unfolding win_tcp_listen_def Let_def
    by (intro step_ok cond exit_ok fail_ok load_ok posts_ok srv assms) simp_all
qed

section \<open>Commands and completions\<close>

lemma exec_inv:
  assumes inv: "win_inv E B x None w" and r: "win_exec k os c w = Inr w'"
  shows "win_inv E B x None w'"
proof (cases c)
  case (W_write s buf f)
  have "\<forall>b. (issued w, b) \<notin> set (sends w)" using inv by (auto simp: win_inv_def sends_ok_def)
  then show ?thesis
    using r W_write tcp_write_inv [OF win_new_op_inv [OF inv], of s buf f s w']
    by (simp add: win_new_op_def win_write_init_def sends_def)
next
  case (W_listen v port f)
  then show ?thesis using r listen_ok [OF inv] by (auto simp: bind_res_eq_Inr ends_ok_def)
next
  case (W_close s)
  then show ?thesis using r close_inv(2) [OF inv] by simp
next
  case (W_shutdown s)
  then show ?thesis using r inv by (auto simp: view_inv [OF shutdown_view])
next
  case (W_pause s)
  then show ?thesis using r inv by (auto simp: view_inv [OF pause_view])
next
  case (W_resume s)
  then show ?thesis using r resume_inv [OF inv] by simp
next
  case (W_accept s sock)
  then show ?thesis using r accept_inv [OF inv] by simp
next
  case (W_connect s host port f)
  then show ?thesis using r inv by (auto simp: view_inv [OF connect_view])
next
  case (W_keepalive s enable delay)
  then show ?thesis using r inv by (auto simp: view_inv [OF option_view(1)])
next
  case (W_nodelay s enable)
  then show ?thesis using r inv by (auto simp: view_inv [OF option_view(2)])
next
  case (W_timer_start t f delay)
  then show ?thesis using r timer_inv(1) [OF inv] by simp
next
  case (W_timer_stop t)
  then show ?thesis using r timer_inv(2) [OF inv] by simp
next
  case (W_notify n)
  then show ?thesis using r inv by (auto simp: view_inv [OF option_view(3)])
qed

lemma execs_inv:
  "win_inv E B x None w \<Longrightarrow> win_execs k os cs w = Inr w' \<Longrightarrow> win_inv E B x None w'"
  by (induction cs arbitrary: w) (auto simp: bind_res_eq_Inr dest: exec_inv)

lemma set_event_view: "set_event v (\<lambda>ev. ev\<lparr>bytes := n\<rparr>) w = Inr w' \<Longrightarrow> writes_view E w' = writes_view E w"
  by (auto simp: set_event_def writes_unchanged split: ovl.splits option.splits)
    (auto simp: writes_view_def sends_def fun_eq_iff)

lemma handle_inv:
  assumes inv: "win_inv E B x None w" and r: "win_handle k os v n w = Inr w'" and v: "\<And>a. v \<noteq> Write_ovl a"
  shows "win_inv E B x None w'"
proof -
  obtain w1 where w1: "set_event v (\<lambda>ev. ev\<lparr>bytes := ucast n\<rparr>) w = Inr w1"
    and r1: "(case (win_handler (event_at v w1), v) of
         (None, _) \<Rightarrow> Inr w1
       | (Some Win_read_io, Recv_ovl s) \<Rightarrow> win_read_io k os s w1
       | (Some Win_write_io, Write_ovl a) \<Rightarrow> win_write_io k os a w1
       | (Some Win_accept_io, Accept_ovl p) \<Rightarrow> win_accept_io k os p w1
       | (Some Win_connect_io, Connect_ovl e) \<Rightarrow> win_connect_io k os e w1
       | (Some Win_notifier_io, Notify_ovl n) \<Rightarrow> win_notifier_io k n w1
       | _ \<Rightarrow> Inl Bad_memory) = Inr w'"
    using r by (auto simp only: win_handle_def bind_res_eq_Inr)
  have inv1: "win_inv E B x None w1" using inv view_inv [OF set_event_view [OF w1]] by blast
  have notify: "win_inv E B x None w'" if "win_notifier_io k m w1 = Inr w'" for m
  proof (cases "notifier_handler (notifiers w1 m)")
    case None
    then show ?thesis using that inv1 by (simp add: win_notifier_io_def)
  next
    case (Some h)
    then have "call k (On_notify h m) w1 = Inr w'" using that by (simp add: win_notifier_io_def)
    then show ?thesis using other_call [of "On_notify h m", OF _ inv1] by simp
  qed
  show ?thesis
  proof (cases "win_handler (event_at v w1)")
    case None
    then show ?thesis using r1 inv1 by simp
  next
    case (Some h)
    with r1 have r2: "(case (Some h, v) of (None, _) \<Rightarrow> Inr w1
       | (Some Win_read_io, Recv_ovl s) \<Rightarrow> win_read_io k os s w1
       | (Some Win_write_io, Write_ovl a) \<Rightarrow> win_write_io k os a w1
       | (Some Win_accept_io, Accept_ovl p) \<Rightarrow> win_accept_io k os p w1
       | (Some Win_connect_io, Connect_ovl e) \<Rightarrow> win_connect_io k os e w1
       | (Some Win_notifier_io, Notify_ovl n) \<Rightarrow> win_notifier_io k n w1
       | _ \<Rightarrow> Inl Bad_memory) = Inr w'" by (simp only:)
    show ?thesis
    proof (cases v)
      case (Recv_ovl s)
      then have "win_read_io k os s w1 = Inr w'" using r2 by (cases h) simp_all
      then show ?thesis by (rule read_io_inv [OF inv1])
    next
      case (Write_ovl a)
      then show ?thesis using v by blast
    next
      case (Accept_ovl p)
      then have "win_accept_io k os p w1 = Inr w'" using r2 by (cases h) simp_all
      then show ?thesis by (rule accept_io_inv [OF inv1])
    next
      case (Connect_ovl e)
      then have "win_connect_io k os e w1 = Inr w'" using r2 by (cases h) simp_all
      then show ?thesis by (rule connect_io_inv [OF inv1])
    next
      case (Notify_ovl m)
      then have "win_notifier_io k m w1 = Inr w'" using r2 by (cases h) simp_all
      then show ?thesis by (rule notify)
    qed
  qed
qed

text \<open>The completion of a send.\<close>

lemma handle_write_inv:
  assumes inv: "win_inv E B x None w" and a: "a \<in> B" and r: "win_handle k os (Write_ovl a) n w = Inr w'"
  shows "win_inv E (B - {a}) x None w'"
proof -
  define w1 where "w1 = w\<lparr>wevent := (wevent w)(a := (wevent w a)\<lparr>bytes := ucast n\<rparr>)\<rparr>"
  have o: "outstanding E B w a" by (rule batch_outstanding [OF inv a])
  then have f: "whandle w a = written_to w a" "win_handler (wevent w a) = Some Win_write_io" "cb (ops w a) \<noteq> None"
    using inv by (auto simp: win_inv_def sends_ok_def outstanding_def)
  have e: "set_event (Write_ovl a) (\<lambda>ev. ev\<lparr>bytes := ucast n\<rparr>) w = Inr w1" by (simp add: set_event_def w1_def)
  have h: "win_handler (event_at (Write_ovl a) w1) = Some Win_write_io" using f(2) by (simp add: event_at_def w1_def)
  have v: "writes_view E w1 = writes_view E w" by (rule set_event_view [OF e])
  have r1: "win_write_io k os a w1 = Inr w'" using r by (simp add: win_handle_def e h)
  have "win_inv E (B - {a}) (x(written_to w a := x (written_to w a) + 1)) (Some a) w1"
    using completes_inv [OF inv a] view_inv [OF v] by blast
  moreover have "written_to w a = whandle w1 a" "cb (ops w1 a) \<noteq> None" using f by (simp_all add: w1_def)
  ultimately show ?thesis using r1 by (intro write_io_inv)
qed

lemma pending_close_inv:
  assumes "win_inv E B x None w" "pd_tcp_pending_close k w = Some (Inr w')"
  shows "win_inv E B x None w'"
proof -
  have "k' = k \<longrightarrow> win_inv E B x None w \<longrightarrow> (\<forall>w'. r = Inr w' \<longrightarrow> win_inv E B x None w')"
    if "pd_tcp_pending_close k' w = Some r" for k' r and w :: "'x win_client_scheme"
  proof (rule pd_tcp_pending_close.raw_induct [OF _ that], intro impI allI)
    fix run k' and w :: "'x win_client_scheme" and r w'
    assume IH: "\<And>k' w r. run k' w = Some r \<Longrightarrow>
        k' = k \<longrightarrow> win_inv E B x None w \<longrightarrow> (\<forall>w'. r = Inr w' \<longrightarrow> win_inv E B x None w')"
      and k: "k' = k" and inv: "win_inv E B x None w" and res: "r = Inr w'"
      and body: "(if queue_empty (pending_closes (io w)) then Some (Inr w)
        else case queue_pop (pending_closes (io w)) (qnodes w) of
          Inl x \<Rightarrow> Some (Inl Null_deref)
        | Inr (None, b) \<Rightarrow> Some (Inl Null_deref)
        | Inr (Some (Close_node s), q, mem) \<Rightarrow>
            let w = set_io (\<lambda>c. c\<lparr>pending_closes := q\<rparr>) (w\<lparr>qnodes := mem\<rparr>)
            in (case call_opt k' (on_close (streams w s)) (\<lambda>f. On_close f s) w of
                  Inl e \<Rightarrow> Some (Inl e) | Inr w \<Rightarrow> run k' (dec_refs w))
        | Inr (Some (Write_node x), b) \<Rightarrow> Some (Inl Null_deref)
        | Inr (Some (Task_node x), b) \<Rightarrow> Some (Inl Null_deref)) = Some r"
    show "win_inv E B x None w'"
    proof (cases "queue_empty (pending_closes (io w))")
      case True
      then show ?thesis using body res inv by simp
    next
      case False
      then obtain s q mem u where call: "call_opt k (on_close (streams w s)) (\<lambda>f. On_close f s)
            (set_io (\<lambda>c. c\<lparr>pending_closes := q\<rparr>) (w\<lparr>qnodes := mem\<rparr>)) = Inr u"
        and run: "run k (dec_refs u) = Some (Inr w')"
        using body res k by (auto simp: Let_def split: sum.splits option.splits prod.splits qnode.splits)
      have "win_inv E B x None (set_io (\<lambda>c. c\<lparr>pending_closes := q\<rparr>) (w\<lparr>qnodes := mem\<rparr>))"
        using inv by (simp add: view_inv [OF view_updates(2)] view_inv [OF view_updates(3)])
      then have "win_inv E B x None u" using other_opt [OF _ _ call] by simp
      then have "win_inv E B x None (dec_refs u)" by (simp add: view_inv [OF view_inc_refs(2)])
      then show ?thesis using IH [OF run] by blast
    qed
  qed
  with assms show ?thesis by blast
qed

end

end
