(* ===== verification/Windows_Session.thy ===== *)
theory Windows_Session
  imports Windows_Correct
begin

text \<open>
  Client programs meet the contract \<open>win_callbacks\<close>, whatever they do and whatever the system replies; sessions of
  a client with the library, and what holds after each.
\<close>

section \<open>Client programs\<close>

lemma script_win_callbacks:
  assumes "sends_documented os" "immediate_skips os"
  shows "win_callbacks (win_script prog al os n) os E"
proof (induction n)
  case 0
  show ?case by unfold_locales (simp_all add: assms win_script_def)
next
  case (Suc n)
  then have below: "win_callbacks \<lparr>call = win_reply_to prog al os n, alloc = al\<rparr> os E"
    by (simp add: win_script_def)
  show ?case
  proof
    show "sends_documented os" "immediate_skips os" by (rule assms)+
    fix B x a f st w w'
    assume "win_inv E B x (Some a) w" "call (win_script prog al os (Suc n)) (Write_cb f a st) w = Inr w'"
    then show "win_inv E B x None w'"
      using win_callbacks.execs_inv [OF below win_log_write] by (simp add: win_script_def)
  next
    fix c B x w w'
    assume "write_done c = None" "win_inv E B x None w" "call (win_script prog al os (Suc n)) c w = Inr w'"
    then show "win_inv E B x None w'"
      using win_callbacks.execs_inv [OF below win_log_other] by (simp add: win_script_def)
  qed
qed

text \<open>Every system, its sends made to reply so.\<close>

fun send_socket :: "win_sys \<Rightarrow> int option" where
  "send_socket (Wsa_send f bs v) = Some f"
| "send_socket _ = None"

definition well_sent :: "win_history \<Rightarrow> win_sys \<Rightarrow> win_reply \<Rightarrow> bool" where
  "well_sent h c r \<longleftrightarrow>
     (case send_socket c of
        None \<Rightarrow> True
      | Some f \<Rightarrow> ret r = 0 \<and> f \<in> skipping h \<or> ret r = SOCKET_ERROR \<and> err r \<noteq> None)"

definition win_clip :: "win_os \<Rightarrow> win_os" where
  "win_clip os = os\<lparr>wkern := \<lambda>h c.
     let r = wkern os h c in if well_sent h c r then r else r\<lparr>ret := SOCKET_ERROR, err := Some WSA_IO_PENDING\<rparr>\<rparr>"

lemma clip_sends: "sends_documented (win_clip os)" "immediate_skips (win_clip os)"
  by (auto simp: sends_documented_def immediate_skips_def win_clip_def well_sent_def Let_def SOCKET_ERROR_def)

lemma clip_documented:
  assumes "sends_documented os" "immediate_skips os"
  shows "win_clip os = os"
proof -
  have "well_sent h c (wkern os h c)" for h c
    using assms unfolding sends_documented_def immediate_skips_def Let_def
    by (cases c) (simp_all add: well_sent_def, blast)
  then have "(\<lambda>h c. let r = wkern os h c
      in if well_sent h c r then r else r\<lparr>ret := SOCKET_ERROR, err := Some WSA_IO_PENDING\<rparr>) = wkern os"
    unfolding Let_def by (intro ext) (simp only: if_True)
  then show ?thesis by (simp only: win_clip_def) simp
qed

interpretation win_programs: win_callbacks "win_script prog al (win_clip os) n" "win_clip os" E for prog al os E n
  by (rule script_win_callbacks [OF clip_sends])

section \<open>The loop\<close>

context win_callbacks
begin

lemma entries_inv:
  "win_inv E (set (List.map_filter write_of es)) x None w \<Longrightarrow> distinct (List.map_filter write_of es) \<Longrightarrow>
    win_entries k os es w = Inr w' \<Longrightarrow> win_inv E {} x None w'"
proof (induction es arbitrary: w)
  case Nil
  then show ?case by (simp add: List.map_filter_def)
next
  case (Cons e es)
  obtain v n where e: "e = (v, n)" by fastforce
  show ?case
  proof (cases v)
    case None
    then show ?thesis using Cons e by (simp add: List.map_filter_def)
  next
    case (Some ov)
    then obtain u where u: "win_handle k os ov n w = Inr u" "win_entries k os es u = Inr w'"
      using Cons.prems(3) e by (auto simp: bind_res_eq_Inr)
    show ?thesis
    proof (cases "\<exists>a. ov = Write_ovl a")
      case True
      then obtain a where a: "ov = Write_ovl a" by blast
      then have f: "List.map_filter write_of (e # es) = a # List.map_filter write_of es"
        using e Some by (simp add: List.map_filter_def)
      have "win_inv E (set (List.map_filter write_of (e # es)) - {a}) x None u"
        by (rule handle_write_inv [OF Cons.prems(1)]) (use f u(1) a in simp_all)
      moreover have "set (List.map_filter write_of (e # es)) - {a} = set (List.map_filter write_of es)"
        using Cons.prems(2) f by auto
      ultimately show ?thesis using Cons.IH u(2) Cons.prems(2) f by simp
    next
      case False
      then have "write_of e = None" using e Some by (cases ov) simp_all
      then have f: "List.map_filter write_of (e # es) = List.map_filter write_of es"
        by (simp add: List.map_filter_def)
      have "win_inv E (set (List.map_filter write_of es)) x None u"
        using handle_inv [OF Cons.prems(1) u(1)] False f by auto
      then show ?thesis using Cons.IH u(2) Cons.prems(2) f by simp
    qed
  qed
qed

lemma fire_inv:
  assumes inv: "win_inv E B x None w" and r: "timer_fire (on_timer k) t w = Inr w'"
  shows "win_inv E B x None w'"
proof -
  obtain u v where u: "pd_timer_stop t w = Inr u"
    and v: "(case on_timeout (tmem u t) of None \<Rightarrow> Inr u | Some f \<Rightarrow> on_timer k f t u) = Inr v"
    and w': "(if interval (tmem v t) \<noteq> 0 then pd_timer_start t (on_timeout (tmem v t)) (interval (tmem v t)) v
      else Inr v) = Inr w'"
    using r by (auto simp only: timer_fire_def bind_res_eq_Inr)
  have inv1: "win_inv E B x None u" by (rule timer_inv(2) [OF inv u])
  have "win_inv E B x None v"
  proof (cases "on_timeout (tmem u t)")
    case None
    then show ?thesis using v inv1 by simp
  next
    case (Some f)
    then have "call k (On_timer f t) u = Inr v" using v by (simp add: on_timer_def)
    then show ?thesis using other_call [of "On_timer f t", OF _ inv1] by simp
  qed
  then show ?thesis using w' timer_inv(1) by (auto simp only: sum.inject split: if_splits)
qed

lemma timers_run_inv:
  assumes "win_inv E B x None w" "pd_timers_run (on_timer k) w = Some (Inr w')"
  shows "win_inv E B x None w'"
proof -
  have "k' = on_timer k \<longrightarrow> win_inv E B x None w \<longrightarrow> (\<forall>w'. r = Inr w' \<longrightarrow> win_inv E B x None w')"
    if "pd_timers_run k' w = Some r" for k' r and w :: "'x win_client_scheme"
  proof (rule pd_timers_run.raw_induct [OF _ that], intro impI allI)
    fix run k' and w :: "'x win_client_scheme" and r w'
    assume IH: "\<And>k' w r. run k' w = Some r \<Longrightarrow>
        k' = on_timer k \<longrightarrow> win_inv E B x None w \<longrightarrow> (\<forall>w'. r = Inr w' \<longrightarrow> win_inv E B x None w')"
      and k: "k' = on_timer k" and inv: "win_inv E B x None w" and res: "r = Inr w'"
      and body: "(case heap_peek (timers (io w)) of None \<Rightarrow> Some (Inr w)
        | Some t \<Rightarrow> if now (io w) < timeout (tmem w t) then Some (Inr w)
            else case timer_fire k' t w of Inl e \<Rightarrow> Some (Inl e) | Inr w \<Rightarrow> run k' w) = Some r"
    from body res k consider "w' = w" | t u where "timer_fire (on_timer k) t w = Inr u" "run (on_timer k) u = Some (Inr w')"
      by (auto split: option.splits if_splits sum.splits)
    then show "win_inv E B x None w'" using inv fire_inv [OF inv] IH by cases blast+
  qed
  with assms show ?thesis by blast
qed

lemma turn_inv:
  assumes port: "port_documented E" and inv: "win_inv E {} x None w"
    and wait: "wsys os (Get_completions f n t) w = (r, w1)" and turn: "win_turn k os E r w1 = Inr w'"
  shows "win_inv E {} x None w'"
proof -
  let ?es = "map (entries E (whist w1)) [0..<entry_count E (whist w1)]"
  have w1: "w1 = wdo os (Get_completions f n t) w" using wait by simp
  have h: "whist w1 = whist w @ [(Get_completions f n t, r)]" using wait by (auto simp: wsys_def Let_def)
  obtain now' u where now: "win_now os (counter E) w1 = (now', u)" by fastforce
  define v where "v = set_io (\<lambda>c. c\<lparr>now := now'\<rparr>) u"
  have "u = wdo os Query_counter w1" using now by (simp add: win_now_def case_prod_unfold)
  then have "writes_view E v = writes_view E w1" by (simp add: v_def writes_unchanged)
  then have batch: "win_inv E (set (batch E (whist w1))) x None v"
    using view_inv wait_inv [OF port inv w1] by blast
  have dist: "distinct (batch E (whist w1))" using port by (simp add: port_documented_def Let_def h)
  obtain v1 v2 v3 where v1: "(if ret r \<noteq> 0 then win_entries k os ?es v
        else if last_err v \<noteq> WAIT_TIMEOUT then Inl Exited else Inr v) = Inr v1"
    and v2: "run_loop (pd_timers_run (on_timer k) v1) = Inr v2"
    and v3: "run_loop (pd_tcp_pending_close k v2) = Inr v3"
    and last: "call_opt k (after_tick (io v3)) After_tick v3 = Inr w'"
    using turn by (auto simp only: win_turn_def Let_def now prod.case v_def [symmetric] bind_res_eq_Inr)
  have "win_inv E {} x None v1"
  proof (cases "ret r \<noteq> 0")
    case True
    then have "batch E (whist w1) = List.map_filter write_of ?es" by (simp add: h batch_def)
    then show ?thesis using True v1 entries_inv [of ?es x v v1] batch dist by simp
  next
    case False
    then have "batch E (whist w1) = []" by (simp add: h batch_def)
    then show ?thesis using False v1 batch by (simp split: if_splits)
  qed
  then have "win_inv E {} x None v2" using v2 timers_run_inv by (auto simp: run_loop_def split: option.splits)
  then have "win_inv E {} x None v3" using v3 pending_close_inv by (auto simp: run_loop_def split: option.splits)
  then show ?thesis using other_opt [OF _ _ last] by simp
qed

lemma loop_inv:
  assumes "port_documented E" "win_inv E {} x None w" "win_loop k os E ms w = Some (Inr w')"
  shows "win_inv E {} x None w'"
proof -
  have "k' = k \<longrightarrow> os' = os \<longrightarrow> E' = E \<longrightarrow> win_inv E {} x None w \<longrightarrow> (\<forall>w'. r = Inr w' \<longrightarrow> win_inv E {} x None w')"
    if "win_loop k' os' E' ms w = Some r" for k' os' E' ms r and w :: "'x win_client_scheme"
  proof (rule win_loop.raw_induct [OF _ that], intro impI allI)
    fix run k' os' E' ms and w :: "'x win_client_scheme" and r w'
    assume IH: "\<And>k' os' E' ms w r. run k' os' E' ms w = Some r \<Longrightarrow>
        k' = k \<longrightarrow> os' = os \<longrightarrow> E' = E \<longrightarrow> win_inv E {} x None w \<longrightarrow> (\<forall>w'. r = Inr w' \<longrightarrow> win_inv E {} x None w')"
      and eq: "k' = k" "os' = os" "E' = E" and inv: "win_inv E {} x None w" and res: "r = Inr w'"
      and body: "(if \<not> refs (io w) > 0 then Some (Inr w)
        else (case wsys os' (Get_completions (poll_fd (io w)) ENTRIES_MAX (if ms = -1 then None else Some ms)) w of (r, w) \<Rightarrow>
               (case win_turn k' os' E' r w of
                  Inl e \<Rightarrow> Some (Inl e)
                | Inr w \<Rightarrow> run k' os' E' (pd_timers_next w) w))) = Some r"
    obtain a w1 where wait: "wsys os (Get_completions (poll_fd (io w)) ENTRIES_MAX (if ms = -1 then None else Some ms)) w = (a, w1)"
      by fastforce
    have "(if \<not> refs (io w) > 0 then Some (Inr w)
        else (case win_turn k os E a w1 of Inl e \<Rightarrow> Some (Inl e) | Inr w \<Rightarrow> run k os E (pd_timers_next w) w)) = Some (Inr w')"
      using body by (simp only: eq res wait prod.case)
    then consider "w' = w" | u where "win_turn k os E a w1 = Inr u" "run k os E (pd_timers_next u) u = Some (Inr w')"
      by (auto split: if_splits sum.splits)
    then show "win_inv E {} x None w'"
    proof cases
      case 2
      then show ?thesis using IH turn_inv [OF assms(1) inv wait] by blast
    qed (use inv in simp)
  qed
  with assms show ?thesis by blast
qed

end

section \<open>Sessions\<close>

text \<open>The client calls the library, the loop makes one round, or it runs until it returns.\<close>

datatype win_input = W_do win_cmd | W_turn | W_run

fun win_step ::
  "'x win_client_scheme client \<Rightarrow> win_os \<Rightarrow> iocp_env \<Rightarrow> win_input \<Rightarrow> 'x win_client_scheme \<Rightarrow> 'x win_client_scheme res" where
  "win_step k os E (W_do c) w = win_exec k os c w"
| "win_step k os E W_turn w =
     (let ms = pd_timers_next w
      in case wsys os (Get_completions (poll_fd (io w)) ENTRIES_MAX (if ms = -1 then None else Some ms)) w of (r, w) \<Rightarrow>
           win_turn k os E r w)"
| "win_step k os E W_run w = run_loop (win_io_run k os E w)"

fun win_session ::
  "'x win_client_scheme client \<Rightarrow> win_os \<Rightarrow> iocp_env \<Rightarrow> win_input list \<Rightarrow> 'x win_client_scheme \<Rightarrow>
    'x win_client_scheme res" where
  "win_session k os E [] w = Inr w"
| "win_session k os E (i # is) w = bind_res (win_step k os E i w) (win_session k os E is)"

context win_callbacks
begin

lemma step_inv:
  assumes "port_documented E" "win_inv E {} x None w" "win_step k os E i w = Inr w'"
  shows "win_inv E {} x None w'"
proof (cases i)
  case (W_do c)
  then show ?thesis using assms(2,3) exec_inv by simp
next
  case W_turn
  obtain r w1 where "wsys os (Get_completions (poll_fd (io w)) ENTRIES_MAX
      (if pd_timers_next w = -1 then None else Some (pd_timers_next w))) w = (r, w1)" by fastforce
  then show ?thesis using assms(3) W_turn turn_inv [OF assms(1,2)] by (simp add: Let_def)
next
  case W_run
  then show ?thesis using assms(3) loop_inv [OF assms(1,2)]
    by (auto simp: win_io_run_def run_loop_def split: option.splits)
qed

lemma session_inv:
  "port_documented E \<Longrightarrow> win_inv E {} x None w \<Longrightarrow> win_session k os E is w = Inr w' \<Longrightarrow> win_inv E {} x None w'"
  by (induction "is" arbitrary: w) (auto simp: bind_res_eq_Inr dest: step_inv)

end

text \<open>Before the first send and the first wait.\<close>

definition win_begun :: "'x win_client_scheme \<Rightarrow> bool" where
  "win_begun w \<longleftrightarrow>
     issued w = 0 \<and> log w = [] \<and> list_all (\<lambda>p. quiet (fst p)) (whist w) \<and> (\<forall>s. writes_size (streams w s) = 0)"

text \<open>Initialising the loop is neither.\<close>

lemma init_begun:
  assumes "win_begun w"
  shows "win_begun (win_io_init os hz cnt n w)"
proof -
  have quiet: "list_all (\<lambda>p. quiet (fst p)) (whist (wdo os c v)) \<longleftrightarrow> quiet c \<and> list_all (\<lambda>p. quiet (fst p)) (whist v)"
    for c and v :: "'a win_client_scheme" by (auto simp: wsys_def Let_def)
  show ?thesis using assms
    by (simp add: win_begun_def win_io_init_def Let_def case_prod_unfold win_now_def pd_timers_heap_init_def
        win_notifier_init_def quiet)
qed

lemma quiet_history:
  "list_all (\<lambda>p. quiet (fst p)) h \<Longrightarrow> List.map_filter send_of h = []"
  "list_all (\<lambda>p. quiet (fst p)) h \<Longrightarrow> handed E h = []"
  "list_all (\<lambda>p. quiet (fst p)) h \<Longrightarrow> completing h = []"
proof (induction h rule: rev_induct)
  case Nil
  show "List.map_filter send_of [] = []" "handed E [] = []" "completing [] = []"
    by (simp_all add: List.map_filter_def handed_def completing_def)
next
  case (snoc p h)
  obtain c r where p: "p = (c, r)" by fastforce
  show "List.map_filter send_of (h @ [p]) = []" "handed E (h @ [p]) = []" "completing (h @ [p]) = []"
    if "list_all (\<lambda>p. quiet (fst p)) (h @ [p])"
    using snoc that quiet_None [of c] by (simp_all add: p handed_snoc completing_snoc List.map_filter_def)
qed

lemma begun_inv: "win_begun w \<Longrightarrow> win_inv E {} (\<lambda>_. 0) None w"
  by (simp add: win_begun_def win_inv_def counts_ok_def once_ok_def sends_ok_def outstanding_def out_of_def
      done_writes_def sends_def quiet_history List.map_filter_simps)

lemma win_session_result:
  assumes "sends_documented os" "immediate_skips os" "port_documented E" "win_begun w"
    and "win_session (win_script prog al os n) os E is w = Inr w'"
  shows "win_inv E {} (\<lambda>_. 0) None w'"
proof -
  have "win_session (win_script prog al (win_clip os) n) (win_clip os) E is w = Inr w'"
    using assms(5) by (simp add: clip_documented [OF assms(1,2)])
  then show ?thesis by (rule win_programs.session_inv [OF assms(3) begun_inv [OF assms(4)]])
qed

end
