(* ===== verification/Spec2Isabelle.thy ===== *)
theory Spec2Isabelle
  imports Pandio_Prelude Intrusive_Queue Intrusive_Heap Heap_Refinement Heap_Correct Io_Core Timers
    Timer_Properties Errors Kernel Tcp_Unix Tcp_Listener Tcp_Invariant Tcp_Accept Tcp_Correct Tcp_Properties
    Threadpool Threadpool_Control Threadpool_Spec Threadpool_Refines Threadpool_Wakeup Threadpool_Progress
    Threadpool_Play Threadpool_Properties Event_Loop Loop_Correct Loop_Timers Loop_Properties Kqueue
    Kqueue_Properties File_Ops File_Windows File_System File_Runs File_Correct File_Play File_Properties
    Sample_Files Sample_Files_Correct Sample_Files_Properties
    System Threads Threads_Properties Windows_Core Tcp_Windows Iocp Windows_Invariant Windows_Correct Windows_Session Windows_Properties
begin

text \<open>
  A verification library for pandio, a small asynchronous I/O library in C.

  \<^bold>\<open>The program.\<close> A loop (\<^verbatim>\<open>pd_io_t\<close>) waits for events of the operating system. It holds a binary heap of
  timers, a queue of the streams that have been closed and whose close callback is still to be called, and
  a count of the references that keep it running. TCP streams register their socket with the loop; when
  the socket can be written the stream sends its queue of write operations, when it can be read it hands
  what was read to the client. All of it is driven by callbacks of the client, which may call the library
  again at any point. Both containers are intrusive: a node is embedded in the structure it links.

  \<^bold>\<open>The theories\<close>, in the order they build on one another.
  \<^item> \<open>Pandio_Prelude\<close>: faults (following \<^verbatim>\<open>NULL\<close>, a failed \<^verbatim>\<open>assert\<close>, an endless loop) and the result type
    \<open>res\<close>; positions in a list; widths of integers.
  \<^item> \<open>Intrusive_Queue\<close> (\<^verbatim>\<open>include/pandio/queue.h\<close>): the doubly linked queue over an explicit memory of
    nodes. \<open>queue_rep\<close> relates it to a list; locale \<open>fifo\<close> is the contract, interpreted on the
    operations; C1.
  \<^item> \<open>Intrusive_Heap\<close>, \<open>Heap_Refinement\<close>, \<open>Heap_Correct\<close> (\<^verbatim>\<open>include/pandio/heap.h\<close>): the linked binary
    heap over an explicit memory. \<open>heap_rep\<close> relates it to the list of its nodes by level, and exchanging
    two neighbours is refined to exchanging two elements of that list; locale \<open>key_heap\<close> is a heap whose
    comparator compares keys, a \<open>sublocale\<close> of the contract \<open>priority_queue\<close>; C2 to C4.
  \<^item> \<open>Io_Core\<close> (\<^verbatim>\<open>include/pandio/core.h\<close>, \<^verbatim>\<open>timers.h\<close>): the state of a loop, extended by every later
    component with the memory of its own structures.
  \<^item> \<open>Timers\<close>, \<open>Timer_Properties\<close> (\<^verbatim>\<open>src/timers.c\<close>): the operations on timers, \<open>key_heap\<close> interpreted on
    their comparator, client programs that act in their callbacks; C5 to C11.
  \<^item> \<open>Errors\<close> (\<^verbatim>\<open>include/pandio/err.h\<close>, \<^verbatim>\<open>src/internal.c\<close>): the codes, the tables and their lookup, for any
    platform's \<^verbatim>\<open>errno.h\<close>; C12 to C14.
  \<^item> \<open>Kernel\<close> (\<^verbatim>\<open>src/sys/event_epoll.c\<close>, parts of \<^verbatim>\<open>src/internal.c\<close>, \<^verbatim>\<open>include/pandio/tcp.h\<close>): system calls,
    the TCP structures, and the registration of descriptors with \<^verbatim>\<open>epoll\<close>.
  \<^item> \<open>Tcp_Unix\<close>, \<open>Tcp_Listener\<close> (\<^verbatim>\<open>src/sys/tcp_unix.c\<close>): one definition per function.
  \<^item> \<open>Tcp_Invariant\<close>, \<open>Tcp_Accept\<close>, \<open>Tcp_Correct\<close>, \<open>Tcp_Properties\<close>: client programs for the streams, the
    invariant of the writes and of the descriptors (which the kernel uses again once they are closed), its preservation
    by every operation under any client that keeps it (locale \<open>tcp_callbacks\<close>, interpreted on all programs), and
    sessions, sequences of reports, connections, commands and ends of turns; C16 to C20. Client programs may also
    accept the connections they are offered, and start and stop timers.
  \<^item> \<open>Threadpool\<close>, \<open>Threadpool_Control\<close>, \<open>Threadpool_Spec\<close>, \<open>Threadpool_Refines\<close>, \<open>Threadpool_Wakeup\<close>,
    \<open>Threadpool_Progress\<close>, \<open>Threadpool_Play\<close>, \<open>Threadpool_Properties\<close> (\<^verbatim>\<open>src/threadpool.c\<close>): a step relation
    over all interleavings of clients, workers, loops and \<^verbatim>\<open>pd_threadpool_end\<close>, one rule per access to shared
    memory, whose queues are those of \<open>Intrusive_Queue\<close>; the mutex, the condition variable and the \<^verbatim>\<open>eventfd\<close>
    behave as documented. The theories hold, in this order, the relation, where each thread stands in its
    code, the abstract specification, the refinement of it, wake-ups, a variant, an executable scheduler for
    the witnesses, and C22 to C29.
  \<^item> \<open>Threads\<close>, \<open>Threads_Properties\<close> (\<^verbatim>\<open>src/sys/thread_unix.c\<close>, \<^verbatim>\<open>thread_win32.c\<close>): the wrappers of mutexes, condition
    variables and threads as POSIX and Windows document what they call, undefined behaviour included. Locale
    \<open>sync_platform\<close> is the contract the pool needs, interpreted on both platforms; C21.
  \<^item> \<open>Event_Loop\<close>, \<open>Loop_Correct\<close>, \<open>Loop_Timers\<close>, \<open>Loop_Properties\<close> (\<^verbatim>\<open>src/sys/event_epoll.c\<close>,
    \<^verbatim>\<open>src/sys/notifier_unix.c\<close>): notifiers and the loop \<open>pd_io_run\<close>, its safety for every client program, and its
    return when only timers hold it; C30 to C32.
  \<^item> \<open>Kqueue\<close>, \<open>Kqueue_Properties\<close> (\<^verbatim>\<open>src/sys/event_kqueue.c\<close>): the variant for BSD and macOS. Its loop is that of
    \<open>Event_Loop\<close> in another environment (\<open>loop_env\<close>), its registration is compared with the other; C33, C34.
  \<^item> \<open>File_Ops\<close> (\<^verbatim>\<open>include/pandio/fs.h\<close>, \<^verbatim>\<open>src/sys/fs_unix.c\<close>), \<open>File_Windows\<close> (\<^verbatim>\<open>src/sys/fs_win32.c\<close>): the file operations,
    each a request, the work on a thread of the pool and a callback in the loop. \<open>File_System\<close> holds what both
    platforms provide (locale \<open>file_platform\<close>, interpreted on each) and composes it with the step relation of
    \<open>Threadpool\<close>; \<open>File_Runs\<close>, \<open>File_Correct\<close>, \<open>File_Play\<close>, \<open>File_Properties\<close>: its invariant, an executable scheduler,
    C35 to C38.
  \<^item> \<open>Sample_Files\<close>, \<open>Sample_Files_Correct\<close>, \<open>Sample_Files_Properties\<close> (\<^verbatim>\<open>samples/fs.c\<close>): the sample program as a client of
    the composed system, its invariant and schedules; C15.
  \<^item> \<open>System\<close> (\<^verbatim>\<open>src/random.c\<close>, \<^verbatim>\<open>src/dlib.c\<close>, parts of \<^verbatim>\<open>src/internal.c\<close>, \<^verbatim>\<open>thread_unix.c\<close>, \<^verbatim>\<open>thread_win32.c\<close>): random bytes,
    dynamic libraries, \<^verbatim>\<open>pd_once\<close>, and that \<^verbatim>\<open>pd_sleep\<close> lasts as long as it was asked to, however often it is
    interrupted.
  \<^item> \<open>Windows_Core\<close>, \<open>Tcp_Windows\<close> (\<^verbatim>\<open>src/sys/tcp_win32.c\<close>), \<open>Iocp\<close> (\<^verbatim>\<open>src/sys/event_iocp.c\<close>, \<^verbatim>\<open>notifier_win32.c\<close>): the
    Windows variants, in which an operation is started with an \<^verbatim>\<open>OVERLAPPED\<close> and completes through a port. The
    Windows calls are a function of the history, as the kernel is. \<open>Windows_Invariant\<close>, \<open>Windows_Correct\<close>,
    \<open>Windows_Session\<close>, \<open>Windows_Properties\<close>: client programs, the invariant of the writes, its preservation by every
    operation and by the loop under any client that keeps it (locale \<open>win_callbacks\<close>, interpreted on all programs),
    sessions of commands and rounds of the loop, and C39, C40.

  \<^bold>\<open>Conventions.\<close> State is passed explicitly in records named as the C structures are. A pointer is an
  \<open>option\<close> of an address, a function pointer of a client an \<open>option\<close> of a number. A function that could follow
  \<^verbatim>\<open>NULL\<close> or fail to return has a result in \<open>res\<close>; what a client does in a callback is a parameter of every
  operation that calls one. The kernel is a function of the history of all system calls, so a statement
  over all kernels covers every order of partial writes, interruptions and errors; \<open>honest\<close> asks of it
  that it never takes more bytes than it is offered, as \<^verbatim>\<open>write\<close> promises, and that a new socket has a descriptor
  not in use. What a client program did and was told is kept in ghost fields of its world (\<open>client_world\<close>). Loops bounded by the data are
  \<open>function\<close>s with a measure, all others are \<open>partial_function\<close>s whose undefined value becomes the fault
  \<open>Diverged\<close>; that they end is a theorem where they do. The only fuel is the depth of nested calls of a
  client program (\<open>reply\<close>): statements hold for every amount of it. Integers that can wrap are words of their
  C width (LP64).

  \<^bold>\<open>What is shown.\<close> Containers: refinement to lists and to a priority queue, with all link fields (C1-C4).
  Timers: the heap holds exactly the active timers, the reference count is exact, due timers fire in order
  and the run ends (C5-C9), and two behaviours a client has to know about (C10, C11). Errors: names and
  codes are inverse, no error looks like success (C12-C14). Streams: one
  callback per write, bytes in the order of the writes and on no other connection, no fault (C16-C18); closing (C19, C20). Threadpool:
  order, mutual exclusion, no lost wake-up, exact references, progress and the end (C22-C29),
  by calls that are defined on both platforms (C21). Loop: no fault
  (C30), its return (C31), late timers (C32); both registrations agree (C33) but for a paused stream (C34). Files:
  each accepted operation is called back once with its outcome, on both platforms and under every interleaving
  (C35), operations stay well typed (C36), the copies of paths are accounted for (C37), and a file opened for
  reading on Windows cannot be read (C38); the sample program uses no memory it has freed and frees all of it (C15). Windows: a stream closed with a read pending is never released (C39),
  the writes are counted exactly and called back once (C40); \<open>sends_documented\<close> asks of the system that a send
  returns 0 or an error with its code, \<open>port_documented\<close> that the port hands out the completions of pending sends
  only, once each.

  \<^bold>\<open>Not modelled\<close>: the contents of buffers the kernel fills, since the code only hands these buffers on; what the
  samples print; the samples for streams and random bytes, which only call the library; client programs that connect or listen in a callback; the tests, whose assertions are
  instances of C1 to C4.

\<close>

end
